theory Spec2Isabelle
  imports Main "HOL-Library.Word" "HOL-Library.Signed_Division"
begin

section \<open>Handles, errors and the two record types\<close>

text \<open>
  A handle is an iterator into a pool (\<open>Compact_container\<close>).  The default-constructed
  handle \<open>Vertex_handle()\<close> / \<open>Full_cell_handle()\<close> is \<open>None\<close>; \<open>Some n\<close> names slot
  \<open>n\<close> of the pool.
\<close>

type_synonym Vertex_handle = "nat option"
type_synonym Full_cell_handle = "nat option"

text \<open>
  \<open>CGAL_precondition\<close>, \<open>CGAL_expensive_precondition\<close> and \<open>CGAL_assertion\<close> abort the
  program; the string names the function whose check failed.  Dereferencing a null or an
  erased handle and the integer remainder by zero are undefined behaviour in C++ and are
  errors of the model.
\<close>

datatype error =
    Precondition_violation string
  | Expensive_precondition_violation string
  | Assertion_violation string
  | Invalid_handle
  | Division_by_zero

fun bind_r :: "error + 'a \<Rightarrow> ('a \<Rightarrow> error + 'b) \<Rightarrow> error + 'b" where
  "bind_r (Inl e) f = Inl e"
| "bind_r (Inr x) f = f x"

text \<open>\<open>Full_cell_data\<close>: one byte of scratch bits.\<close>

definition mark_visited :: "8 word \<Rightarrow> 8 word" where
  "mark_visited b = 1"

definition clear_visited :: "8 word \<Rightarrow> 8 word" where
  "clear_visited b = 0"

definition is_visited :: "8 word \<Rightarrow> bool" where
  "is_visited b = (b = 1)"

text \<open>
  Modelled from the spec: the full-cell record (class \<open>Triangulation_ds_full_cell\<close>, included
  by the source but not part of it): \<open>(d+1)\<close> vertex slots, \<open>(d+1)\<close> neighbor slots,
  \<open>(d+1)\<close> mirror indices and the scratch byte.  The arrays have one entry per index
  \<open>0 .. ambient dimension\<close>.
\<close>

record Full_cell =
  fc_vertices :: "Vertex_handle list"
  fc_neighbors :: "Full_cell_handle list"
  fc_mirror_indices :: "int list"
  fc_bits :: "8 word"

text \<open>Modelled from the spec: the vertex record, a back-reference to one incident full cell
  (the payload is opaque and left out).\<close>

record Vertex =
  v_full_cell :: Full_cell_handle

text \<open>The container: \<open>dmax\<close> and \<open>dcur\<close> (the data members; the source writes them
  with a trailing underscore) and the two pools.  A pool is a list of slots; an erased slot
  is \<open>None\<close> and is never reused, so handles stay stable.\<close>

record tds =
  dmax :: int
  dcur :: int
  vertices :: "Vertex option list"
  full_cells :: "Full_cell option list"

section \<open>The full-cell class\<close>

text \<open>Modelled from the spec: \<open>Full_cell(dmax)\<close> creates a cell whose vertex and neighbor
  slots are null.  The mirror indices are not initialised by the constructor; the model
  writes \<open>-1\<close>.\<close>

definition Full_cell_init :: "int \<Rightarrow> Full_cell" where
  "Full_cell_init d =
     \<lparr> fc_vertices = replicate (nat (d + 1)) None,
       fc_neighbors = replicate (nat (d + 1)) None,
       fc_mirror_indices = replicate (nat (d + 1)) (- 1),
       fc_bits = 0 \<rparr>"

definition maximal_dimension :: "Full_cell \<Rightarrow> int" where
  "maximal_dimension c = int (length (fc_vertices c)) - 1"

text \<open>Modelled from the spec: slot access of a full cell; the index must lie in
  \<open>0 .. maximal_dimension\<close>.\<close>

definition slot_get :: "'a list \<Rightarrow> int \<Rightarrow> error + 'a" where
  "slot_get xs i =
     (if 0 \<le> i \<and> i < int (length xs) then Inr (xs ! nat i)
      else Inl (Precondition_violation ''Full_cell''))"

definition slot_set :: "'a list \<Rightarrow> int \<Rightarrow> 'a \<Rightarrow> error + 'a list" where
  "slot_set xs i v =
     (if 0 \<le> i \<and> i < int (length xs) then Inr (xs[nat i := v])
      else Inl (Precondition_violation ''Full_cell''))"

definition fc_vertex :: "Full_cell \<Rightarrow> int \<Rightarrow> error + Vertex_handle" where
  "fc_vertex c i = slot_get (fc_vertices c) i"

definition fc_neighbor :: "Full_cell \<Rightarrow> int \<Rightarrow> error + Full_cell_handle" where
  "fc_neighbor c i = slot_get (fc_neighbors c) i"

definition fc_mirror_index :: "Full_cell \<Rightarrow> int \<Rightarrow> error + int" where
  "fc_mirror_index c i = slot_get (fc_mirror_indices c) i"

definition fc_set_vertex :: "int \<Rightarrow> Vertex_handle \<Rightarrow> Full_cell \<Rightarrow> error + Full_cell" where
  "fc_set_vertex i v c =
     bind_r (slot_set (fc_vertices c) i v) (\<lambda>vs. Inr (c\<lparr>fc_vertices := vs\<rparr>))"

definition fc_set_neighbor :: "int \<Rightarrow> Full_cell_handle \<Rightarrow> Full_cell \<Rightarrow> error + Full_cell" where
  "fc_set_neighbor i n c =
     bind_r (slot_set (fc_neighbors c) i n) (\<lambda>ns. Inr (c\<lparr>fc_neighbors := ns\<rparr>))"

definition fc_set_mirror_index :: "int \<Rightarrow> int \<Rightarrow> Full_cell \<Rightarrow> error + Full_cell" where
  "fc_set_mirror_index i j c =
     bind_r (slot_set (fc_mirror_indices c) i j) (\<lambda>ms. Inr (c\<lparr>fc_mirror_indices := ms\<rparr>))"

text \<open>Modelled from the spec: \<open>index(v)\<close> is the first slot that holds \<open>v\<close>; the scan reads
  \<open>vertex(i)\<close> for \<open>i = 0, 1, ...\<close> and so breaks the slot precondition when \<open>v\<close> is
  absent.  \<open>has_vertex(v, index)\<close> scans all slots and reports whether \<open>v\<close> was found.\<close>

primrec first_index :: "'a list \<Rightarrow> 'a \<Rightarrow> nat option" where
  "first_index [] v = None"
| "first_index (x # xs) v = (if x = v then Some 0 else map_option Suc (first_index xs v))"

definition fc_index :: "Full_cell \<Rightarrow> Vertex_handle \<Rightarrow> error + int" where
  "fc_index c v =
     (case first_index (fc_vertices c) v of
        None \<Rightarrow> Inl (Precondition_violation ''Full_cell'')
      | Some n \<Rightarrow> Inr (int n))"

definition fc_has_vertex_idx :: "Full_cell \<Rightarrow> Vertex_handle \<Rightarrow> bool \<times> int" where
  "fc_has_vertex_idx c v =
     (case first_index (fc_vertices c) v of
        None \<Rightarrow> (False, maximal_dimension c + 1)
      | Some n \<Rightarrow> (True, int n))"

definition fc_has_vertex :: "Full_cell \<Rightarrow> Vertex_handle \<Rightarrow> bool" where
  "fc_has_vertex c v = fst (fc_has_vertex_idx c v)"

section \<open>The container: queries\<close>

definition get_cell :: "tds \<Rightarrow> Full_cell_handle \<Rightarrow> error + Full_cell" where
  "get_cell t s =
     (case s of
        None \<Rightarrow> Inl Invalid_handle
      | Some n \<Rightarrow>
          if n < length (full_cells t)
          then (case full_cells t ! n of None \<Rightarrow> Inl Invalid_handle | Some c \<Rightarrow> Inr c)
          else Inl Invalid_handle)"

definition get_vertex :: "tds \<Rightarrow> Vertex_handle \<Rightarrow> error + Vertex" where
  "get_vertex t v =
     (case v of
        None \<Rightarrow> Inl Invalid_handle
      | Some n \<Rightarrow>
          if n < length (vertices t)
          then (case vertices t ! n of None \<Rightarrow> Inl Invalid_handle | Some x \<Rightarrow> Inr x)
          else Inl Invalid_handle)"

text \<open>\<open>update_cell t s f\<close>: the member call \<open>s->f(...)\<close> of a mutating member.\<close>

definition update_cell ::
  "tds \<Rightarrow> Full_cell_handle \<Rightarrow> (Full_cell \<Rightarrow> error + Full_cell) \<Rightarrow> error + tds" where
  "update_cell t s f =
     bind_r (get_cell t s) (\<lambda>c.
     bind_r (f c) (\<lambda>c'.
       Inr (t\<lparr>full_cells := (full_cells t)[the s := Some c']\<rparr>)))"

definition update_vertex ::
  "tds \<Rightarrow> Vertex_handle \<Rightarrow> (Vertex \<Rightarrow> Vertex) \<Rightarrow> error + tds" where
  "update_vertex t v f =
     bind_r (get_vertex t v) (\<lambda>x.
       Inr (t\<lparr>vertices := (vertices t)[the v := Some (f x)]\<rparr>))"

definition tds_init :: "int \<Rightarrow> error + tds" where
  "tds_init dim =
     (if dim > 0 then Inr \<lparr> dmax = dim, dcur = - 2, vertices = [], full_cells = [] \<rparr>
      else Inl (Assertion_violation ''Triangulation_data_structure''))"

definition check_range :: "tds \<Rightarrow> int \<Rightarrow> bool" where
  "check_range t i =
     (if dcur t < 0 then 0 = i
      else 0 \<le> i \<and> i \<le> dcur t)"

definition ambient_dimension :: "tds \<Rightarrow> int" where
  "ambient_dimension t = dmax t"

definition current_dimension :: "tds \<Rightarrow> int" where
  "current_dimension t = dcur t"

definition number_of_vertices :: "tds \<Rightarrow> nat" where
  "number_of_vertices t = length (filter (\<lambda>x. x \<noteq> None) (vertices t))"

definition number_of_full_cells :: "tds \<Rightarrow> nat" where
  "number_of_full_cells t = length (filter (\<lambda>x. x \<noteq> None) (full_cells t))"

definition vertex :: "tds \<Rightarrow> Full_cell_handle \<Rightarrow> int \<Rightarrow> error + Vertex_handle" where
  "vertex t s i =
     (if s \<noteq> None \<and> check_range t i
      then bind_r (get_cell t s) (\<lambda>c. fc_vertex c i)
      else Inl (Precondition_violation ''vertex''))"

definition is_vertex :: "tds \<Rightarrow> Vertex_handle \<Rightarrow> bool" where
  "is_vertex t v =
     (case v of
        None \<Rightarrow> False
      | Some n \<Rightarrow> n < length (vertices t) \<and> vertices t ! n \<noteq> None)"

definition is_full_cell :: "tds \<Rightarrow> Full_cell_handle \<Rightarrow> bool" where
  "is_full_cell t s =
     (case s of
        None \<Rightarrow> False
      | Some n \<Rightarrow> n < length (full_cells t) \<and> full_cells t ! n \<noteq> None)"


definition neighbor :: "tds \<Rightarrow> Full_cell_handle \<Rightarrow> int \<Rightarrow> error + Full_cell_handle" where
  "neighbor t s i =
     (if None \<noteq> s \<and> check_range t i
      then bind_r (get_cell t s) (\<lambda>c. fc_neighbor c i)
      else Inl (Precondition_violation ''neighbor''))"

definition mirror_index :: "tds \<Rightarrow> Full_cell_handle \<Rightarrow> int \<Rightarrow> error + int" where
  "mirror_index t s i =
     (if None \<noteq> s \<and> check_range t i
      then bind_r (get_cell t s) (\<lambda>c. fc_mirror_index c i)
      else Inl (Precondition_violation ''mirror_index''))"

section \<open>Facets and rotors\<close>

type_synonym Facet = "Full_cell_handle \<times> int"
type_synonym Rotor = "Full_cell_handle \<times> int \<times> int"

definition facet_of :: "Rotor \<Rightarrow> Facet" where
  "facet_of r = (fst r, fst (snd r))"

definition full_cell :: "Facet \<Rightarrow> Full_cell_handle" where
  "full_cell f = fst f"

definition index_of_covertex :: "Facet \<Rightarrow> int" where
  "index_of_covertex f = snd f"

definition index_of_second_covertex :: "Rotor \<Rightarrow> int" where
  "index_of_second_covertex r = snd (snd r)"

definition get_visited :: "tds \<Rightarrow> Full_cell_handle \<Rightarrow> error + bool" where
  "get_visited t c = bind_r (get_cell t c) (\<lambda>fc. Inr (is_visited (fc_bits fc)))"

definition set_visited :: "tds \<Rightarrow> Full_cell_handle \<Rightarrow> bool \<Rightarrow> error + tds" where
  "set_visited t c m =
     update_cell t c (\<lambda>fc.
       if m then Inr (fc\<lparr>fc_bits := mark_visited (fc_bits fc)\<rparr>)
       else Inr (fc\<lparr>fc_bits := clear_visited (fc_bits fc)\<rparr>))"

definition is_boundary_facet :: "tds \<Rightarrow> Facet \<Rightarrow> error + bool" where
  "is_boundary_facet t f =
     bind_r (neighbor t (full_cell f) (index_of_covertex f)) (\<lambda>n.
     bind_r (get_visited t n) (\<lambda>vn.
       if vn then Inr False
       else bind_r (get_visited t (full_cell f)) (\<lambda>vs.
         if \<not> vs then Inr False else Inr True)))"

definition rotate_rotor :: "tds \<Rightarrow> Rotor \<Rightarrow> error + Rotor" where
  "rotate_rotor t f =
     bind_r (mirror_index t (full_cell (facet_of f)) (index_of_covertex (facet_of f))) (\<lambda>opposite.
     bind_r (neighbor t (full_cell (facet_of f)) (index_of_covertex (facet_of f))) (\<lambda>s.
     bind_r (vertex t (full_cell (facet_of f)) (index_of_second_covertex f)) (\<lambda>v.
     bind_r (get_cell t s) (\<lambda>c.
     bind_r (fc_index c v) (\<lambda>new_second.
       Inr (s, new_second, opposite))))))"

section \<open>Loops\<close>

text \<open>\<open>for_range i n body s\<close> is \<open>for( ; i <= n; ++i ) body\<close>, stopping at the first error.\<close>

function for_range :: "int \<Rightarrow> int \<Rightarrow> (int \<Rightarrow> 's \<Rightarrow> error + 's) \<Rightarrow> 's \<Rightarrow> error + 's" where
  "for_range i n body s =
     (if i \<le> n
      then (case body i s of Inl e \<Rightarrow> Inl e | Inr s' \<Rightarrow> for_range (i + 1) n body s')
      else Inr s)"
  by pat_completeness auto
termination
  by (relation "measure (\<lambda>(i, n, body, s). nat (n + 1 - i))") auto

declare for_range.simps [simp del]

text \<open>\<open>for_each xs body s\<close> runs \<open>body\<close> on the elements of a range in order.\<close>

fun for_each :: "'a list \<Rightarrow> ('a \<Rightarrow> 's \<Rightarrow> error + 's) \<Rightarrow> 's \<Rightarrow> error + 's" where
  "for_each [] body s = Inr s"
| "for_each (x # xs) body s =
     (case body x s of Inl e \<Rightarrow> Inl e | Inr s' \<Rightarrow> for_each xs body s')"

text \<open>An invariant of the loop body holds after the loop.\<close>

lemma bind_r_Inr_iff [simp]: "bind_r m f = Inr y \<longleftrightarrow> (\<exists>x. m = Inr x \<and> f x = Inr y)"
  by (cases m) auto

lemma for_range_invariant:
  assumes "for_range i n body s = Inr s'" and "P s"
    and "\<And>k a b. i \<le> k \<Longrightarrow> k \<le> n \<Longrightarrow> P a \<Longrightarrow> body k a = Inr b \<Longrightarrow> P b"
  shows "P s'"
  using assms
proof (induction i n body s rule: for_range.induct)
  case (1 i n body s)
  show ?case
  proof (cases "i \<le> n")
    case True
    then obtain s1 where b: "body i s = Inr s1" and r: "for_range (i + 1) n body s1 = Inr s'"
      using "1.prems"(1) by (subst (asm) for_range.simps) (auto split: sum.splits)
    have "P s1" using "1.prems"(3)[OF _ True "1.prems"(2) b] by simp
    show ?thesis
    proof (rule "1.IH"[OF True b r \<open>P s1\<close>])
      fix k a b assume "i + 1 \<le> k" "k \<le> n" "P a" "body k a = Inr b"
      then show "P b" using "1.prems"(3)[of k a b] by simp
    qed
  next
    case False
    then show ?thesis using "1.prems"(1,2) by (subst (asm) for_range.simps) simp
  qed
qed

lemma get_cell_Inr:
  "get_cell t s = Inr c \<longleftrightarrow> (\<exists>n. s = Some n \<and> n < length (full_cells t) \<and> full_cells t ! n = Some c)"
  by (auto simp: get_cell_def split: option.splits)

lemma update_cell_Inr:
  "update_cell t s f = Inr t' \<longleftrightarrow>
     (\<exists>n c c'. s = Some n \<and> n < length (full_cells t) \<and> full_cells t ! n = Some c \<and> f c = Inr c'
        \<and> t' = t\<lparr>full_cells := (full_cells t)[n := Some c']\<rparr>)"
  by (auto simp: update_cell_def get_cell_Inr)

section \<open>The visited marks: counting\<close>

definition unvisited :: "Full_cell option \<Rightarrow> bool" where
  "unvisited x = (case x of None \<Rightarrow> False | Some c \<Rightarrow> \<not> is_visited (fc_bits c))"

definition visited :: "Full_cell option \<Rightarrow> bool" where
  "visited x = (case x of None \<Rightarrow> False | Some c \<Rightarrow> is_visited (fc_bits c))"

definition unvisited_count :: "tds \<Rightarrow> nat" where
  "unvisited_count t = length (filter unvisited (full_cells t))"

definition visited_count :: "tds \<Rightarrow> nat" where
  "visited_count t = length (filter visited (full_cells t))"

lemma filter_update_less:
  assumes "n < length xs" "P (xs ! n)" "\<not> P y"
  shows "length (filter P (xs[n := y])) < length (filter P xs)"
proof -
  have 1: "xs = take n xs @ xs ! n # drop (Suc n) xs" using assms(1) by (rule id_take_nth_drop)
  have 2: "xs[n := y] = take n xs @ y # drop (Suc n) xs" using assms(1) by (rule upd_conv_take_nth_drop)
  have "length (filter P (xs[n := y])) = length (filter P (take n xs)) + length (filter P (drop (Suc n) xs))"
    by (subst 2) (simp add: assms(3))
  moreover have "length (filter P xs) = Suc (length (filter P (take n xs)) + length (filter P (drop (Suc n) xs)))"
    by (subst 1) (simp add: assms(2))
  ultimately show ?thesis by simp
qed

lemma set_visited_True_less:
  assumes "set_visited t n True = Inr t1" "get_visited t n = Inr False"
  shows "unvisited_count t1 < unvisited_count t"
proof -
  from assms(1) obtain k c where k: "n = Some k" "k < length (full_cells t)" "full_cells t ! k = Some c"
    and t1: "t1 = t\<lparr>full_cells := (full_cells t)[k := Some (c\<lparr>fc_bits := mark_visited (fc_bits c)\<rparr>)]\<rparr>"
    by (auto simp: set_visited_def update_cell_Inr)
  from assms(2) k have "\<not> is_visited (fc_bits c)"
    by (auto simp: get_visited_def get_cell_Inr)
  then have "length (filter unvisited ((full_cells t)[k := Some (c\<lparr>fc_bits := mark_visited (fc_bits c)\<rparr>)]))
      < length (filter unvisited (full_cells t))"
    using k by (intro filter_update_less) (simp_all add: unvisited_def is_visited_def mark_visited_def)
  then show ?thesis by (simp add: unvisited_count_def t1)
qed

lemma set_visited_False_less:
  assumes "set_visited t n False = Inr t1" "get_visited t n = Inr True"
  shows "visited_count t1 < visited_count t"
proof -
  from assms(1) obtain k c where k: "n = Some k" "k < length (full_cells t)" "full_cells t ! k = Some c"
    and t1: "t1 = t\<lparr>full_cells := (full_cells t)[k := Some (c\<lparr>fc_bits := clear_visited (fc_bits c)\<rparr>)]\<rparr>"
    by (auto simp: set_visited_def update_cell_Inr)
  from assms(2) k have "is_visited (fc_bits c)"
    by (auto simp: get_visited_def get_cell_Inr)
  then have "length (filter visited ((full_cells t)[k := Some (c\<lparr>fc_bits := clear_visited (fc_bits c)\<rparr>)]))
      < length (filter visited (full_cells t))"
    using k by (intro filter_update_less) (simp_all add: visited_def is_visited_def clear_visited_def)
  then show ?thesis by (simp add: visited_count_def t1)
qed

lemma filter_update_same:
  assumes "n < length xs" "P y = P (xs ! n)"
  shows "length (filter P (xs[n := y])) = length (filter P xs)"
proof -
  have 1: "xs = take n xs @ xs ! n # drop (Suc n) xs" using assms(1) by (rule id_take_nth_drop)
  have 2: "xs[n := y] = take n xs @ y # drop (Suc n) xs" using assms(1) by (rule upd_conv_take_nth_drop)
  have "length (filter P (xs[n := y])) = length (filter P (take n xs @ xs ! n # drop (Suc n) xs))"
    by (subst 2) (simp add: assms(2))
  then show ?thesis using 1 by simp
qed

lemma update_cell_visited_count:
  assumes "update_cell t s f = Inr t'" "\<And>c c'. f c = Inr c' \<Longrightarrow> fc_bits c' = fc_bits c"
  shows "visited_count t' = visited_count t"
proof -
  from assms(1) obtain n c c' where n: "n < length (full_cells t)" "full_cells t ! n = Some c" "f c = Inr c'"
    and t': "t' = t\<lparr>full_cells := (full_cells t)[n := Some c']\<rparr>"
    by (auto simp: update_cell_Inr)
  have "length (filter visited ((full_cells t)[n := Some c'])) = length (filter visited (full_cells t))"
    using n assms(2)[OF n(3)] by (intro filter_update_same) (simp_all add: visited_def)
  then show ?thesis by (simp add: visited_count_def t')
qed

section \<open>The container: mutators\<close>

definition clear :: "tds \<Rightarrow> tds" where
  "clear t = t\<lparr>vertices := [], full_cells := [], dcur := - 2\<rparr>"

definition set_current_dimension :: "tds \<Rightarrow> int \<Rightarrow> error + tds" where
  "set_current_dimension t d =
     (if - 1 \<le> d \<and> d \<le> ambient_dimension t then Inr (t\<lparr>dcur := d\<rparr>)
      else Inl (Precondition_violation ''set_current_dimension''))"

text \<open>Modelled from the spec: the handle allocator.  \<open>emplace\<close> returns a fresh handle and
  invalidates no other; \<open>erase\<close> invalidates only the erased handle.  Iteration visits the
  live slots in slot order.\<close>

definition new_full_cell :: "tds \<Rightarrow> Full_cell_handle \<times> tds" where
  "new_full_cell t =
     (Some (length (full_cells t)),
      t\<lparr>full_cells := full_cells t @ [Some (Full_cell_init (dmax t))]\<rparr>)"

definition new_full_cell_copy :: "tds \<Rightarrow> Full_cell_handle \<Rightarrow> error + Full_cell_handle \<times> tds" where
  "new_full_cell_copy t s =
     bind_r (get_cell t s) (\<lambda>c.
       Inr (Some (length (full_cells t)), t\<lparr>full_cells := full_cells t @ [Some c]\<rparr>))"

definition erase_full_cell :: "tds \<Rightarrow> Full_cell_handle \<Rightarrow> error + tds" where
  "erase_full_cell t s =
     bind_r (get_cell t s) (\<lambda>c.
       Inr (t\<lparr>full_cells := (full_cells t)[the s := None]\<rparr>))"

definition delete_full_cell :: "tds \<Rightarrow> Full_cell_handle \<Rightarrow> error + tds" where
  "delete_full_cell t s =
     (if None \<noteq> s then erase_full_cell t s
      else Inl (Precondition_violation ''delete_full_cell''))"

definition delete_full_cells :: "tds \<Rightarrow> Full_cell_handle list \<Rightarrow> error + tds" where
  "delete_full_cells t cells = for_each cells (\<lambda>s t'. erase_full_cell t' s) t"

definition new_vertex :: "tds \<Rightarrow> Vertex_handle \<times> tds" where
  "new_vertex t =
     (Some (length (vertices t)),
      t\<lparr>vertices := vertices t @ [Some \<lparr> v_full_cell = None \<rparr>]\<rparr>)"

definition delete_vertex :: "tds \<Rightarrow> Vertex_handle \<Rightarrow> error + tds" where
  "delete_vertex t v =
     (if None \<noteq> v
      then bind_r (get_vertex t v) (\<lambda>x. Inr (t\<lparr>vertices := (vertices t)[the v := None]\<rparr>))
      else Inl (Precondition_violation ''delete_vertex''))"

definition set_full_cell :: "tds \<Rightarrow> Vertex_handle \<Rightarrow> Full_cell_handle \<Rightarrow> error + tds" where
  "set_full_cell t v s = update_vertex t v (\<lambda>x. x\<lparr>v_full_cell := s\<rparr>)"

definition associate_vertex_with_full_cell ::
  "tds \<Rightarrow> Full_cell_handle \<Rightarrow> int \<Rightarrow> Vertex_handle \<Rightarrow> error + tds" where
  "associate_vertex_with_full_cell t s i v =
     (if \<not> check_range t i then Inl (Precondition_violation ''associate_vertex_with_full_cell'')
      else if s = None then Inl (Precondition_violation ''associate_vertex_with_full_cell'')
      else if v = None then Inl (Precondition_violation ''associate_vertex_with_full_cell'')
      else bind_r (update_cell t s (fc_set_vertex i v)) (\<lambda>t1.
           set_full_cell t1 v s))"

definition set_neighbors ::
  "tds \<Rightarrow> Full_cell_handle \<Rightarrow> int \<Rightarrow> Full_cell_handle \<Rightarrow> int \<Rightarrow> error + tds" where
  "set_neighbors t s i s1 j =
     (if \<not> check_range t i then Inl (Precondition_violation ''set_neighbors'')
      else if \<not> check_range t j then Inl (Precondition_violation ''set_neighbors'')
      else if s = None then Inl (Precondition_violation ''set_neighbors'')
      else if s1 = None then Inl (Precondition_violation ''set_neighbors'')
      else bind_r (update_cell t s (fc_set_neighbor i s1)) (\<lambda>t1.
           bind_r (update_cell t1 s1 (fc_set_neighbor j s)) (\<lambda>t2.
           bind_r (update_cell t2 s (fc_set_mirror_index i j)) (\<lambda>t3.
           update_cell t3 s1 (fc_set_mirror_index j i)))))"

text \<open>Modelled from the spec: \<open>swap_vertices(d1, d2)\<close> of a full cell exchanges the two
  corners: the vertex, neighbor and mirror-index entries of the two slots; the mirror
  indices that the two neighbors keep for this cell follow (I1).\<close>

definition swap_slots :: "'a list \<Rightarrow> int \<Rightarrow> int \<Rightarrow> error + 'a list" where
  "swap_slots xs d1 d2 =
     bind_r (slot_get xs d1) (\<lambda>a.
     bind_r (slot_get xs d2) (\<lambda>b.
     bind_r (slot_set xs d1 b) (\<lambda>ys.
     slot_set ys d2 a)))"

definition fc_swap_vertices :: "int \<Rightarrow> int \<Rightarrow> Full_cell \<Rightarrow> error + Full_cell" where
  "fc_swap_vertices d1 d2 c =
     bind_r (swap_slots (fc_vertices c) d1 d2) (\<lambda>vs.
     bind_r (swap_slots (fc_neighbors c) d1 d2) (\<lambda>ns.
     bind_r (swap_slots (fc_mirror_indices c) d1 d2) (\<lambda>ms.
       Inr (c\<lparr>fc_vertices := vs, fc_neighbors := ns, fc_mirror_indices := ms\<rparr>))))"

definition swap_vertices :: "tds \<Rightarrow> Full_cell_handle \<Rightarrow> int \<Rightarrow> int \<Rightarrow> error + tds" where
  "swap_vertices t s d1 d2 =
     bind_r (update_cell t s (fc_swap_vertices d1 d2)) (\<lambda>t1.
     bind_r (get_cell t1 s) (\<lambda>c.
     bind_r (fc_neighbor c d1) (\<lambda>n1.
     bind_r (fc_mirror_index c d1) (\<lambda>m1.
     bind_r (update_cell t1 n1 (fc_set_mirror_index m1 d1)) (\<lambda>t2.
     bind_r (get_cell t2 s) (\<lambda>c2.
     bind_r (fc_neighbor c2 d2) (\<lambda>n2.
     bind_r (fc_mirror_index c2 d2) (\<lambda>m2.
       update_cell t2 n2 (fc_set_mirror_index m2 d2)))))))))"

section \<open>Traversal\<close>

text \<open>A traversal predicate reads the triangulation and a facet.  The body of the loop
  \<open>for( int i = 0; i <= cur_dim; ++i )\<close> of \<open>gather_full_cells\<close> for the popped cell \<open>s\<close>; the
  state of the loop is \<open>(queue, ft, t)\<close>.\<close>

definition gather_visit ::
  "(tds \<Rightarrow> Facet \<Rightarrow> error + bool) \<Rightarrow> Full_cell_handle \<Rightarrow> int \<Rightarrow>
     Full_cell_handle list \<times> Facet \<times> tds \<Rightarrow> error + Full_cell_handle list \<times> Facet \<times> tds" where
  "gather_visit tp s i st =
     (case st of (queue, ft, t) \<Rightarrow>
      bind_r (get_cell t s) (\<lambda>c.
      bind_r (fc_neighbor c i) (\<lambda>n.
      bind_r (get_visited t n) (\<lambda>vis.
        if \<not> vis
        then
          bind_r (set_visited t n True) (\<lambda>t1.
          bind_r (tp t1 (s, i)) (\<lambda>b.
            if b then Inr (queue @ [n], ft, t1)
            else Inr (queue, (s, i), t1)))
        else Inr (queue, ft, t)))))"

lemma gather_visit_measure:
  assumes "gather_visit tp s i (queue, ft, t) = Inr (queue', ft', t')"
  shows "2 * unvisited_count t' + length queue' \<le> 2 * unvisited_count t + length queue"
proof -
  from assms obtain c n vis where n: "get_cell t s = Inr c" "fc_neighbor c i = Inr n" "get_visited t n = Inr vis"
    by (auto simp: gather_visit_def)
  show ?thesis
  proof (cases vis)
    case True
    then show ?thesis using assms n by (simp add: gather_visit_def)
  next
    case False
    then obtain t1 where t1: "set_visited t n True = Inr t1" and "t' = t1" "length queue' \<le> length queue + 1"
      using assms n by (auto simp: gather_visit_def split: if_splits)
    then show ?thesis using set_visited_True_less[OF t1] n False by simp
  qed
qed

lemma gather_visits_measure:
  assumes "for_range i n (gather_visit tp s) (queue, ft, t) = Inr (queue', ft', t')"
  shows "2 * unvisited_count t' + length queue' \<le> 2 * unvisited_count t + length queue"
proof -
  let ?P = "\<lambda>st. case st of (q, f, u) \<Rightarrow> 2 * unvisited_count u + length q \<le> 2 * unvisited_count t + length queue"
  have "?P (queue', ft', t')"
  proof (rule for_range_invariant[OF assms, where P = ?P])
    show "?P (queue, ft, t)" by simp
  next
    fix k a b assume "?P a" "gather_visit tp s k a = Inr b"
    then show "?P b"
      by (cases a; cases b) (use gather_visit_measure in fastforce)
  qed
  then show ?thesis by simp
qed

function gather_walk ::
  "(tds \<Rightarrow> Facet \<Rightarrow> error + bool) \<Rightarrow> int \<Rightarrow>
     Full_cell_handle list \<times> Full_cell_handle list \<times> Facet \<times> tds \<Rightarrow>
     error + Full_cell_handle list \<times> Facet \<times> tds" where
  "gather_walk tp cur_dim (queue, out, ft, t) =
     (case queue of
        [] \<Rightarrow> Inr (out, ft, t)
      | s # rest \<Rightarrow>
          (case for_range 0 cur_dim (gather_visit tp s) (rest, ft, t) of
             Inl e \<Rightarrow> Inl e
           | Inr (queue', ft', t') \<Rightarrow> gather_walk tp cur_dim (queue', out @ [s], ft', t')))"
  by pat_completeness auto
termination
proof (relation "measure (\<lambda>(tp, cur_dim, queue, out, ft, t). 2 * unvisited_count t + length queue)", goal_cases)
  case 1
  show ?case by simp
next
  case (2 tp cur_dim queue out ft t s rest x2 queue' y ft' t')
  then show ?case using gather_visits_measure[of 0 cur_dim tp s rest ft t queue' ft' t'] by auto
qed

declare gather_walk.simps [simp del]


definition clear_visit ::
  "Full_cell_handle \<Rightarrow> int \<Rightarrow> Full_cell_handle list \<times> tds \<Rightarrow> error + Full_cell_handle list \<times> tds" where
  "clear_visit s i st =
     (case st of (queue, t) \<Rightarrow>
      bind_r (get_cell t s) (\<lambda>c.
      bind_r (fc_neighbor c i) (\<lambda>n.
      bind_r (get_visited t n) (\<lambda>vis.
        if vis
        then bind_r (set_visited t n False) (\<lambda>t1. Inr (queue @ [n], t1))
        else Inr (queue, t)))))"

lemma clear_visit_measure:
  assumes "clear_visit s i (queue, t) = Inr (queue', t')"
  shows "2 * visited_count t' + length queue' \<le> 2 * visited_count t + length queue"
proof -
  from assms obtain c n vis where n: "get_cell t s = Inr c" "fc_neighbor c i = Inr n" "get_visited t n = Inr vis"
    by (auto simp: clear_visit_def)
  show ?thesis
  proof (cases vis)
    case False
    then show ?thesis using assms n by (simp add: clear_visit_def)
  next
    case True
    then obtain t1 where t1: "set_visited t n False = Inr t1" and "t' = t1" "length queue' \<le> length queue + 1"
      using assms n by (auto simp: clear_visit_def split: if_splits)
    then show ?thesis using set_visited_False_less[OF t1] n True by simp
  qed
qed

lemma clear_visits_measure:
  assumes "for_range i n (clear_visit s) (queue, t) = Inr (queue', t')"
  shows "2 * visited_count t' + length queue' \<le> 2 * visited_count t + length queue"
proof -
  let ?P = "\<lambda>st. case st of (q, u) \<Rightarrow> 2 * visited_count u + length q \<le> 2 * visited_count t + length queue"
  have "?P (queue', t')"
  proof (rule for_range_invariant[OF assms, where P = ?P])
    show "?P (queue, t)" by simp
  next
    fix k a b assume "?P a" "clear_visit s k a = Inr b"
    then show "?P b"
      by (cases a; cases b) (use clear_visit_measure in fastforce)
  qed
  then show ?thesis by simp
qed

function clear_walk :: "int \<Rightarrow> Full_cell_handle list \<times> tds \<Rightarrow> error + tds" where
  "clear_walk cur_dim (queue, t) =
     (case queue of
        [] \<Rightarrow> Inr t
      | s # rest \<Rightarrow>
          (case for_range 0 cur_dim (clear_visit s) (rest, t) of
             Inl e \<Rightarrow> Inl e
           | Inr st \<Rightarrow> clear_walk cur_dim st))"
  by pat_completeness auto
termination
proof (relation "measure (\<lambda>(cur_dim, queue, t). 2 * visited_count t + length queue)", goal_cases)
  case 1
  show ?case by simp
next
  case (2 cur_dim queue t s rest st)
  then show ?case using clear_visits_measure[of 0 cur_dim s rest t "fst st" "snd st"]
    by (cases st) auto
qed

declare clear_walk.simps [simp del]

definition clear_visited_marks :: "tds \<Rightarrow> Full_cell_handle \<Rightarrow> error + tds" where
  "clear_visited_marks t start =
     (if \<not> start \<noteq> None then Inl (Precondition_violation ''clear_visited_marks'')
      else bind_r (set_visited t start False) (\<lambda>t1.
           clear_walk (current_dimension t1) ([start], t1)))"

definition gather_full_cells ::
  "tds \<Rightarrow> Full_cell_handle \<Rightarrow> (tds \<Rightarrow> Facet \<Rightarrow> error + bool) \<Rightarrow> Full_cell_handle list \<Rightarrow>
     error + Facet \<times> Full_cell_handle list \<times> tds" where
  "gather_full_cells t start tp out =
     bind_r (set_visited t start True) (\<lambda>t1.
     bind_r (gather_walk tp (current_dimension t1) ([start], out, (None, 0), t1)) (\<lambda>(out', ft, t2).
     bind_r (clear_visited_marks t2 start) (\<lambda>t3.
       Inr (ft, out', t3))))"

section \<open>Dimension increase\<close>

text \<open>The handles of the live full cells, in iteration order
  (\<open>full_cells_begin() .. full_cells_end()\<close>).\<close>

definition full_cell_handles :: "tds \<Rightarrow> Full_cell_handle list" where
  "full_cell_handles t =
     map Some (filter (\<lambda>n. full_cells t ! n \<noteq> None) [0..<length (full_cells t)])"

definition full_cells_begin :: "tds \<Rightarrow> Full_cell_handle" where
  "full_cells_begin t = (case full_cell_handles t of [] \<Rightarrow> None | s # _ \<Rightarrow> s)"

text \<open>The body of the first loop of \<open>do_insert_increase_dimension\<close>; the state of the loop
  is \<open>(swap_me, t)\<close>.\<close>

definition extend_full_cell ::
  "Vertex_handle \<Rightarrow> Vertex_handle \<Rightarrow> int \<Rightarrow> Full_cell_handle \<Rightarrow> Full_cell_handle \<times> tds \<Rightarrow>
     error + Full_cell_handle \<times> tds" where
  "extend_full_cell x star cur_dim S st =
     (case st of (swap_me, t) \<Rightarrow>
      bind_r (get_cell t S) (\<lambda>c.
      bind_r (fc_vertex c cur_dim) (\<lambda>vc.
        if None \<noteq> vc then Inr (swap_me, t)
        else
          bind_r (set_visited t S True) (\<lambda>t1.
          bind_r (associate_vertex_with_full_cell t1 S cur_dim x) (\<lambda>t2.
          bind_r (get_cell t2 S) (\<lambda>c2.
            if \<not> fc_has_vertex c2 star
            then
              (case new_full_cell t2 of (S_new, t3) \<Rightarrow>
                 bind_r (set_neighbors t3 S cur_dim S_new 0) (\<lambda>t4.
                 bind_r (associate_vertex_with_full_cell t4 S_new 0 star) (\<lambda>t5.
                 bind_r (for_range 1 cur_dim (\<lambda>k t'.
                           bind_r (vertex t' S (k - 1)) (\<lambda>vk.
                           associate_vertex_with_full_cell t' S_new k vk)) t5) (\<lambda>t6.
                   Inr (swap_me, t6)))))
            else if cur_dim = 2
            then
              bind_r (fc_index c2 star) (\<lambda>si.
              bind_r (fc_mirror_index c2 si) (\<lambda>mi.
                if mi = 0 then Inr (S, t2) else Inr (swap_me, t2)))
            else Inr (swap_me, t2)))))))"

text \<open>The body of the second loop (the walk that sets the remaining neighbors); the state
  of the loop is \<open>(queue, t)\<close>, the cell \<open>S\<close> has been popped.\<close>

definition connect_full_cell ::
  "Vertex_handle \<Rightarrow> int \<Rightarrow> Full_cell_handle \<Rightarrow> tds \<Rightarrow> error + tds" where
  "connect_full_cell star cur_dim S t =
     bind_r (get_cell t S) (\<lambda>c.
       case fc_has_vertex_idx c star of (has, star_index) \<Rightarrow>
         if has
         then
           bind_r (neighbor t S star_index) (\<lambda>n1.
           bind_r (neighbor t n1 cur_dim) (\<lambda>n2.
           bind_r (mirror_index t S star_index) (\<lambda>mi.
             set_neighbors t S cur_dim n2 (mi + 1))))
         else
           bind_r (neighbor t S cur_dim) (\<lambda>S_new.
             for_range 0 (cur_dim - 1) (\<lambda>k t'.
               bind_r (neighbor t' S k) (\<lambda>S_opp.
               bind_r (get_cell t' S_opp) (\<lambda>c_opp.
                 if \<not> fc_has_vertex c_opp star
                 then
                   bind_r (neighbor t' S_opp cur_dim) (\<lambda>n.
                   bind_r (mirror_index t' S k) (\<lambda>mi.
                     set_neighbors t' S_new (k + 1) n (mi + 1)))
                 else Inr t'))) t))"

definition enqueue_marked_neighbors ::
  "int \<Rightarrow> Full_cell_handle \<Rightarrow> Full_cell_handle list \<times> tds \<Rightarrow>
     error + Full_cell_handle list \<times> tds" where
  "enqueue_marked_neighbors cur_dim S st =
     for_range 0 (cur_dim - 1) (\<lambda>k (queue, t).
       bind_r (neighbor t S k) (\<lambda>n.
       bind_r (get_visited t n) (\<lambda>vis.
         if vis
         then bind_r (set_visited t n False) (\<lambda>t1. Inr (queue @ [n], t1))
         else Inr (queue, t)))) st"

lemma fc_set_neighbor_bits: "fc_set_neighbor i n c = Inr c' \<Longrightarrow> fc_bits c' = fc_bits c"
  by (auto simp: fc_set_neighbor_def)

lemma fc_set_mirror_index_bits: "fc_set_mirror_index i j c = Inr c' \<Longrightarrow> fc_bits c' = fc_bits c"
  by (auto simp: fc_set_mirror_index_def)

lemma fc_set_vertex_bits: "fc_set_vertex i v c = Inr c' \<Longrightarrow> fc_bits c' = fc_bits c"
  by (auto simp: fc_set_vertex_def)

lemma set_neighbors_visited_count:
  assumes "set_neighbors t s i s1 j = Inr t'"
  shows "visited_count t' = visited_count t"
proof -
  from assms obtain t1 t2 t3 where
    "update_cell t s (fc_set_neighbor i s1) = Inr t1"
    "update_cell t1 s1 (fc_set_neighbor j s) = Inr t2"
    "update_cell t2 s (fc_set_mirror_index i j) = Inr t3"
    "update_cell t3 s1 (fc_set_mirror_index j i) = Inr t'"
    by (auto simp: set_neighbors_def split: if_splits)
  then show ?thesis
    using update_cell_visited_count[of t s "fc_set_neighbor i s1" t1, OF _ fc_set_neighbor_bits]
      update_cell_visited_count[of t1 s1 "fc_set_neighbor j s" t2, OF _ fc_set_neighbor_bits]
      update_cell_visited_count[of t2 s "fc_set_mirror_index i j" t3, OF _ fc_set_mirror_index_bits]
      update_cell_visited_count[of t3 s1 "fc_set_mirror_index j i" t', OF _ fc_set_mirror_index_bits]
    by simp
qed

lemma connect_full_cell_visited_count:
  assumes "connect_full_cell star cur_dim S t = Inr t'"
  shows "visited_count t' = visited_count t"
proof -
  from assms obtain c where c: "get_cell t S = Inr c"
    by (auto simp: connect_full_cell_def)
  obtain has star_index where h: "fc_has_vertex_idx c star = (has, star_index)"
    by (cases "fc_has_vertex_idx c star")
  show ?thesis
  proof (cases has)
    case True
    then show ?thesis using assms c h
      by (auto simp: connect_full_cell_def dest: set_neighbors_visited_count)
  next
    case False
    then obtain S_new where
      r: "for_range 0 (cur_dim - 1) (\<lambda>k t'.
               bind_r (neighbor t' S k) (\<lambda>S_opp.
               bind_r (get_cell t' S_opp) (\<lambda>c_opp.
                 if \<not> fc_has_vertex c_opp star
                 then
                   bind_r (neighbor t' S_opp cur_dim) (\<lambda>n.
                   bind_r (mirror_index t' S k) (\<lambda>mi.
                     set_neighbors t' S_new (k + 1) n (mi + 1)))
                 else Inr t'))) t = Inr t'"
      using assms c h by (auto simp: connect_full_cell_def)
    show ?thesis
      by (rule for_range_invariant[OF r, where P = "\<lambda>u. visited_count u = visited_count t"])
        (auto split: if_splits dest: set_neighbors_visited_count)
  qed
qed

lemma enqueue_marked_neighbors_measure:
  assumes "enqueue_marked_neighbors cur_dim S (queue, t) = Inr (queue', t')"
  shows "2 * visited_count t' + length queue' \<le> 2 * visited_count t + length queue"
proof -
  let ?P = "\<lambda>st. case st of (q, u) \<Rightarrow> 2 * visited_count u + length q \<le> 2 * visited_count t + length queue"
  have "?P (queue', t')"
  proof (rule for_range_invariant[OF assms[unfolded enqueue_marked_neighbors_def], where P = ?P])
    show "?P (queue, t)" by simp
  next
    fix k a b
    assume a: "?P a"
      and b: "(case a of (queue, t) \<Rightarrow>
                 bind_r (neighbor t S k) (\<lambda>n.
                 bind_r (get_visited t n) (\<lambda>vis.
                   if vis then bind_r (set_visited t n False) (\<lambda>t1. Inr (queue @ [n], t1))
                   else Inr (queue, t)))) = Inr b"
    obtain q u where [simp]: "a = (q, u)" by (cases a)
    obtain q' u' where [simp]: "b = (q', u')" by (cases b)
    from b obtain n vis where n: "get_visited u n = Inr vis"
      and r: "(if vis then bind_r (set_visited u n False) (\<lambda>t1. Inr (q @ [n], t1)) else Inr (q, u)) = Inr (q', u')"
      by auto
    show "?P b"
    proof (cases vis)
      case True
      then have "set_visited u n False = Inr u'" "q' = q @ [n]" using r by auto
      then show ?thesis using set_visited_False_less[of u n u'] n True a by simp
    next
      case False
      then show ?thesis using r a by simp
    qed
  qed
  then show ?thesis by simp
qed

function connect_walk ::
  "Vertex_handle \<Rightarrow> int \<Rightarrow> Full_cell_handle list \<times> tds \<Rightarrow> error + tds" where
  "connect_walk star cur_dim (queue, t) =
     (case queue of
        [] \<Rightarrow> Inr t
      | S # rest \<Rightarrow>
          (case connect_full_cell star cur_dim S t of
             Inl e \<Rightarrow> Inl e
           | Inr t1 \<Rightarrow>
               (case enqueue_marked_neighbors cur_dim S (rest, t1) of
                  Inl e \<Rightarrow> Inl e
                | Inr st \<Rightarrow> connect_walk star cur_dim st)))"
  by pat_completeness auto
termination
proof (relation "measure (\<lambda>(star, cur_dim, queue, t). 2 * visited_count t + length queue)", goal_cases)
  case 1
  show ?case by simp
next
  case (2 star cur_dim queue t S rest t1 st)
  then show ?case
    using enqueue_marked_neighbors_measure[of cur_dim S rest t1 "fst st" "snd st"]
      connect_full_cell_visited_count[of star cur_dim S t t1]
    by (cases st) auto
qed

declare connect_walk.simps [simp del]

text \<open>The parity loop (source lines 1071--1078).\<close>

definition parity_swap :: "Vertex_handle \<Rightarrow> int \<Rightarrow> Full_cell_handle \<Rightarrow> tds \<Rightarrow> error + tds" where
  "parity_swap x cur_dim S t =
     bind_r (get_cell t S) (\<lambda>c.
     bind_r (fc_vertex c cur_dim) (\<lambda>vc.
       if x \<noteq> vc then swap_vertices t S (cur_dim - 1) cur_dim
       else Inr t))"

definition parity_correction :: "Vertex_handle \<Rightarrow> int \<Rightarrow> tds \<Rightarrow> error + tds" where
  "parity_correction x cur_dim t =
     (if cur_dim mod 2 = 0 \<and> cur_dim > 1
      then for_each (full_cell_handles t) (parity_swap x cur_dim) t
      else Inr t)"

definition do_insert_increase_dimension ::
  "Vertex_handle \<Rightarrow> Vertex_handle \<Rightarrow> tds \<Rightarrow> error + tds" where
  "do_insert_increase_dimension x star t =
     (let start = full_cells_begin t;
          cur_dim = current_dimension t
      in bind_r (for_each (full_cell_handles t) (extend_full_cell x star cur_dim) (None, t))
           (\<lambda>(swap_me, t1).
         bind_r (set_visited t1 start False) (\<lambda>t2.
         bind_r (connect_walk star cur_dim ([start], t2)) (\<lambda>t3.
         bind_r (parity_correction x cur_dim t3) (\<lambda>t4.
           if None \<noteq> swap_me then swap_vertices t4 swap_me 1 2
           else Inr t4)))))"

definition insert_increase_dimension ::
  "Vertex_handle \<Rightarrow> tds \<Rightarrow> error + Vertex_handle \<times> tds" where
  "insert_increase_dimension star t =
     (let prev_cur_dim = current_dimension t in
      if \<not> prev_cur_dim < ambient_dimension t
      then Inl (Precondition_violation ''insert_increase_dimension'')
      else if - 2 \<noteq> current_dimension t \<and> \<not> None \<noteq> star
      then Inl (Precondition_violation ''insert_increase_dimension'')
      else if - 2 \<noteq> current_dimension t \<and> \<not> is_vertex t star
      then Inl (Expensive_precondition_violation ''insert_increase_dimension'')
      else if \<not> - 2 \<noteq> current_dimension t \<and> \<not> None = star
      then Inl (Precondition_violation ''insert_increase_dimension'')
      else
        bind_r (set_current_dimension t (prev_cur_dim + 1)) (\<lambda>t1.
          case new_vertex t1 of (v, t2) \<Rightarrow>
            if prev_cur_dim = - 2
            then
              (case new_full_cell t2 of (s, t3) \<Rightarrow>
                 bind_r (associate_vertex_with_full_cell t3 s 0 v) (\<lambda>t4. Inr (v, t4)))
            else if prev_cur_dim = - 1
            then
              bind_r (get_vertex t2 star) (\<lambda>sv.
                let infinite_full_cell = v_full_cell sv in
                case new_full_cell t2 of (finite_full_cell, t3) \<Rightarrow>
                  bind_r (associate_vertex_with_full_cell t3 finite_full_cell 0 v) (\<lambda>t4.
                  bind_r (set_neighbors t4 infinite_full_cell 0 finite_full_cell 0) (\<lambda>t5.
                    Inr (v, t5))))
            else
              bind_r (do_insert_increase_dimension v star t2) (\<lambda>t3. Inr (v, t3))))"

section \<open>Insertion in a hole\<close>

text \<open>Modelled from the spec: \<open>mirror_vertex(i, cur_dim)\<close> of a full cell is the vertex of
  the neighbor across facet \<open>i\<close> that is opposite the shared facet.\<close>

definition mirror_vertex :: "tds \<Rightarrow> Full_cell_handle \<Rightarrow> int \<Rightarrow> int \<Rightarrow> error + Vertex_handle" where
  "mirror_vertex t s i cur_dim =
     bind_r (get_cell t s) (\<lambda>c.
     bind_r (fc_neighbor c i) (\<lambda>n.
     bind_r (fc_mirror_index c i) (\<lambda>mi.
     bind_r (get_cell t n) (\<lambda>cn.
       fc_vertex cn mi))))"

text \<open>\<open>while( ! is_boundary_facet(rot) ) rot = rotate_rotor(rot);\<close>  The loop need not
  end; \<open>None\<close> is the run that never leaves it.\<close>

partial_function (option) rotate_to_boundary :: "tds \<Rightarrow> Rotor \<Rightarrow> (error + Rotor) option" where
  "rotate_to_boundary t rot =
     (case is_boundary_facet t (facet_of rot) of
        Inl e \<Rightarrow> Some (Inl e)
      | Inr b \<Rightarrow>
          if \<not> b
          then (case rotate_rotor t rot of
                  Inl e \<Rightarrow> Some (Inl e)
                | Inr rot' \<Rightarrow> rotate_to_boundary t rot')
          else Some (Inr rot))"

declare rotate_to_boundary.simps [code]

text \<open>The first part of \<open>insert_in_tagged_hole\<close>, up to and including the emission of
  \<open>new_s\<close> (source lines 893--914).  The output iterator is the list of the cells written
  to it.\<close>

definition tagged_hole_new_cell ::
  "Vertex_handle \<Rightarrow> Facet \<Rightarrow> Full_cell_handle list \<times> tds \<Rightarrow>
     error + Full_cell_handle \<times> Full_cell_handle list \<times> tds" where
  "tagged_hole_new_cell v f st =
     (case st of (new_full_cells, t) \<Rightarrow>
      bind_r (is_boundary_facet t f) (\<lambda>b.
        if \<not> b then Inl (Assertion_violation ''insert_in_tagged_hole'')
        else
          let cur_dim = current_dimension t;
              old_s = full_cell f
          in case new_full_cell t of (new_s, t1) \<Rightarrow>
             let facet_index = index_of_covertex f;
                 copy = (\<lambda>i t'.
                   bind_r (get_cell t' old_s) (\<lambda>c.
                   bind_r (fc_vertex c i) (\<lambda>vi.
                     associate_vertex_with_full_cell t' new_s i vi)))
             in bind_r (for_range 0 (facet_index - 1) copy t1) (\<lambda>t2.
                bind_r (for_range (facet_index + 1) cur_dim copy t2) (\<lambda>t3.
                bind_r (associate_vertex_with_full_cell t3 new_s facet_index v) (\<lambda>t4.
                bind_r (neighbor t4 old_s facet_index) (\<lambda>n.
                bind_r (mirror_index t4 old_s facet_index) (\<lambda>mi.
                bind_r (set_neighbors t4 new_s facet_index n mi) (\<lambda>t5.
                  Inr (new_s, new_full_cells @ [new_s], t5)))))))))"

text \<open>Source lines 931--935: the cell beyond the boundary facet of \<open>rot\<close> and what it has
  as neighbor there; the result is \<open>(new_neighbor, inside)\<close>.\<close>

definition extruded_neighbor :: "tds \<Rightarrow> Rotor \<Rightarrow> error + Full_cell_handle \<times> Full_cell_handle" where
  "extruded_neighbor t rot =
     bind_r (neighbor t (full_cell (facet_of rot)) (index_of_covertex (facet_of rot))) (\<lambda>outside.
       let inside = full_cell (facet_of rot) in
       bind_r (mirror_vertex t inside (index_of_covertex (facet_of rot)) (current_dimension t)) (\<lambda>m.
       bind_r (get_cell t outside) (\<lambda>co.
       bind_r (fc_index co m) (\<lambda>index.
       bind_r (fc_neighbor co index) (\<lambda>new_neighbor.
         Inr (new_neighbor, inside))))))"

text \<open>The loop \<open>for( i = 0; i <= cur_dim; ++i )\<close> of \<open>insert_in_tagged_hole\<close> for the frame
  \<open>(old_s, new_s, facet_index)\<close>, from \<open>i\<close> on.  The recursive call of
  \<open>insert_in_tagged_hole\<close> is \<open>tagged_hole_new_cell\<close> followed by the loop of the new
  frame from \<open>0\<close>.\<close>

partial_function (option) tagged_hole_links ::
  "Vertex_handle \<Rightarrow> int \<Rightarrow> Full_cell_handle \<Rightarrow> Full_cell_handle \<Rightarrow> int \<Rightarrow> int \<Rightarrow>
     Full_cell_handle list \<times> tds \<Rightarrow> (error + Full_cell_handle list \<times> tds) option" where
  "tagged_hole_links v cur_dim old_s new_s facet_index i st =
     (if i \<le> cur_dim
      then
        if facet_index = i
        then tagged_hole_links v cur_dim old_s new_s facet_index (i + 1) st
        else
          Option.bind (rotate_to_boundary (snd st) (old_s, i, facet_index)) (\<lambda>r.
            case r of
              Inl e \<Rightarrow> Some (Inl e)
            | Inr rot \<Rightarrow>
                (case extruded_neighbor (snd st) rot of
                   Inl e \<Rightarrow> Some (Inl e)
                 | Inr (new_neighbor, inside) \<Rightarrow>
                     if new_neighbor = inside
                     then
                       (case tagged_hole_new_cell v (facet_of rot) st of
                          Inl e \<Rightarrow> Some (Inl e)
                        | Inr (new_s', st1) \<Rightarrow>
                            Option.bind
                              (tagged_hole_links v (current_dimension (snd st)) (full_cell (facet_of rot))
                                 new_s' (index_of_covertex (facet_of rot)) 0 st1)
                              (\<lambda>r'. case r' of
                                 Inl e \<Rightarrow> Some (Inl e)
                               | Inr st2 \<Rightarrow>
                                   (case set_neighbors (snd st2) new_s i new_s'
                                           (index_of_second_covertex rot) of
                                      Inl e \<Rightarrow> Some (Inl e)
                                    | Inr t3 \<Rightarrow>
                                        tagged_hole_links v cur_dim old_s new_s facet_index (i + 1)
                                          (fst st2, t3))))
                     else
                       (case set_neighbors (snd st) new_s i new_neighbor
                               (index_of_second_covertex rot) of
                          Inl e \<Rightarrow> Some (Inl e)
                        | Inr t3 \<Rightarrow>
                            tagged_hole_links v cur_dim old_s new_s facet_index (i + 1)
                              (fst st, t3))))
      else Some (Inr st))"

declare tagged_hole_links.simps [code]

definition insert_in_tagged_hole ::
  "Vertex_handle \<Rightarrow> Facet \<Rightarrow> Full_cell_handle list \<times> tds \<Rightarrow>
     (error + Full_cell_handle \<times> Full_cell_handle list \<times> tds) option" where
  "insert_in_tagged_hole v f st =
     (case tagged_hole_new_cell v f st of
        Inl e \<Rightarrow> Some (Inl e)
      | Inr (new_s, st1) \<Rightarrow>
          Option.bind
            (tagged_hole_links v (current_dimension (snd st)) (full_cell f) new_s
               (index_of_covertex f) 0 st1)
            (\<lambda>r. case r of
               Inl e \<Rightarrow> Some (Inl e)
             | Inr st2 \<Rightarrow> Some (Inr (new_s, st2))))"

text \<open>\<open>insert_in_hole(start, end, f, out)\<close>; the range is the list \<open>cells\<close>.  The result is
  the new vertex, the cells written to \<open>out\<close> and the new state.\<close>

definition insert_in_hole ::
  "tds \<Rightarrow> Full_cell_handle list \<Rightarrow> Facet \<Rightarrow>
     (error + Vertex_handle \<times> Full_cell_handle list \<times> tds) option" where
  "insert_in_hole t cells f =
     (if \<not> (length cells = 1 \<or> current_dimension t > 1)
      then Some (Inl (Expensive_precondition_violation ''insert_in_hole''))
      else
        case for_each cells (\<lambda>s t'. set_visited t' s True) t of
          Inl e \<Rightarrow> Some (Inl e)
        | Inr t1 \<Rightarrow>
            (case new_vertex t1 of (v, t2) \<Rightarrow>
               Option.bind (insert_in_tagged_hole v f ([], t2)) (\<lambda>r.
                 case r of
                   Inl e \<Rightarrow> Some (Inl e)
                 | Inr (new_s, out, t3) \<Rightarrow>
                     (case delete_full_cells t3 cells of
                        Inl e \<Rightarrow> Some (Inl e)
                      | Inr t4 \<Rightarrow> Some (Inr (v, out, t4))))))"

section \<open>Insertion in a facet and in a full cell\<close>

text \<open>The arguments that \<open>insert_in_facet\<close> hands to \<open>insert_in_hole\<close>: the array \<open>s\<close> and
  the facet \<open>Facet(s[0], i)\<close>.  The remainder \<open>%\<close> of C++ truncates towards zero (\<open>smod\<close>)
  and is undefined for a zero divisor.\<close>

definition insert_in_facet_hole :: "tds \<Rightarrow> Facet \<Rightarrow> error + Full_cell_handle list \<times> Facet" where
  "insert_in_facet_hole t ft =
     (let s0 = full_cell ft;
          i = index_of_covertex ft
      in bind_r (get_cell t s0) (\<lambda>c.
         bind_r (fc_neighbor c i) (\<lambda>s1.
           if current_dimension t = 0 then Inl Division_by_zero
           else Inr ([s0, s1], (s0, (i + 1) smod current_dimension t)))))"

definition insert_in_facet ::
  "tds \<Rightarrow> Facet \<Rightarrow> (error + Vertex_handle \<times> Full_cell_handle list \<times> tds) option" where
  "insert_in_facet t ft =
     (case insert_in_facet_hole t ft of
        Inl e \<Rightarrow> Some (Inl e)
      | Inr (s, f) \<Rightarrow> insert_in_hole t s f)"

text \<open>\<open>insert_in_full_cell\<close>.  The local full cell \<open>fc\<close> only stores the handles of the new
  cells in its neighbor slots; it is the list \<open>fc\<close> of the model.\<close>

definition clone_full_cell ::
  "Full_cell_handle \<Rightarrow> Vertex_handle \<Rightarrow> int \<Rightarrow> Full_cell_handle list \<times> tds \<Rightarrow>
     error + Full_cell_handle list \<times> tds" where
  "clone_full_cell s v i st =
     (case st of (fc, t) \<Rightarrow>
      bind_r (new_full_cell_copy t s) (\<lambda>(new_s, t1).
      bind_r (slot_set fc i new_s) (\<lambda>fc1.
      bind_r (associate_vertex_with_full_cell t1 new_s i v) (\<lambda>t2.
      bind_r (get_cell t2 s) (\<lambda>c.
      bind_r (fc_vertex c (i - 1)) (\<lambda>w.
      bind_r (set_full_cell t2 w new_s) (\<lambda>t3.
      bind_r (neighbor t3 s i) (\<lambda>n.
      bind_r (mirror_index t3 s i) (\<lambda>mi.
      bind_r (set_neighbors t3 new_s i n mi) (\<lambda>t4.
        Inr (fc1, t4)))))))))))"

definition cross_link :: "Full_cell_handle list \<Rightarrow> int \<Rightarrow> int \<Rightarrow> tds \<Rightarrow> error + tds" where
  "cross_link fc i j t =
     (if j = i then Inr t
      else
        bind_r (slot_get fc i) (\<lambda>a.
        bind_r (slot_get fc j) (\<lambda>b.
          set_neighbors t a j b i)))"

definition insert_in_full_cell :: "tds \<Rightarrow> Full_cell_handle \<Rightarrow> error + Vertex_handle \<times> tds" where
  "insert_in_full_cell t s =
     (if \<not> 0 < current_dimension t then Inl (Precondition_violation ''insert_in_full_cell'')
      else if \<not> None \<noteq> s then Inl (Precondition_violation ''insert_in_full_cell'')
      else
        let cur_dim = current_dimension t in
        case new_vertex t of (v, t1) \<Rightarrow>
          let fc = replicate (nat (ambient_dimension t + 1)) None in
          bind_r (for_range 1 cur_dim (clone_full_cell s v) (fc, t1)) (\<lambda>(fc1, t2).
          bind_r (slot_set fc1 0 s) (\<lambda>fc2.
          bind_r (associate_vertex_with_full_cell t2 s 0 v) (\<lambda>t3.
          bind_r (for_range 0 cur_dim (\<lambda>i. for_range 0 cur_dim (cross_link fc2 i)) t3) (\<lambda>t4.
            Inr (v, t4))))))"

section \<open>Faces incident to a vertex\<close>

text \<open>Modelled from the spec: a face of feature dimension \<open>k\<close> is a full cell plus the
  ordered list of \<open>k + 1\<close> slot indices into that cell's vertex array (class
  \<open>Triangulation_face\<close>, not part of the source).\<close>

record Face =
  face_full_cell :: Full_cell_handle
  face_indices :: "int list"

definition Face_init :: "Full_cell_handle \<Rightarrow> Face" where
  "Face_init s = \<lparr> face_full_cell = s, face_indices = [] \<rparr>"

definition feature_dimension :: "Face \<Rightarrow> int" where
  "feature_dimension f = int (length (face_indices f)) - 1"

definition face_index :: "Face \<Rightarrow> int \<Rightarrow> error + int" where
  "face_index f i =
     (if 0 \<le> i \<and> i \<le> feature_dimension f then Inr (face_indices f ! nat i)
      else Inl (Precondition_violation ''Face''))"

definition face_set_index :: "Face \<Rightarrow> int \<Rightarrow> int \<Rightarrow> error + Face" where
  "face_set_index f i idx =
     (if 0 \<le> i \<and> i \<le> feature_dimension f
      then Inr (f\<lparr>face_indices := (face_indices f)[nat i := idx]\<rparr>)
      else if i = feature_dimension f + 1
      then Inr (f\<lparr>face_indices := face_indices f @ [idx]\<rparr>)
      else Inl (Precondition_violation ''Face''))"

definition face_vertex :: "tds \<Rightarrow> Face \<Rightarrow> int \<Rightarrow> error + Vertex_handle" where
  "face_vertex t f i =
     bind_r (face_index f i) (\<lambda>j.
     bind_r (get_cell t (face_full_cell f)) (\<lambda>c.
       fc_vertex c j))"

text \<open>\<open>Incident_full_cell_traversal_predicate\<close>: the facet is crossed unless its covertex is
  a vertex of the face.  The loop returns at the first match; \<open>found\<close> is that return.\<close>

definition Incident_full_cell_traversal_predicate :: "Face \<Rightarrow> tds \<Rightarrow> Facet \<Rightarrow> error + bool" where
  "Incident_full_cell_traversal_predicate f t facet =
     bind_r (get_cell t (full_cell facet)) (\<lambda>c.
     bind_r (fc_vertex c (index_of_covertex facet)) (\<lambda>v.
     bind_r (for_range 0 (feature_dimension f) (\<lambda>i found.
               if found then Inr True
               else bind_r (face_vertex t f i) (\<lambda>w. Inr (v = w))) False) (\<lambda>found.
       Inr (\<not> found))))"

definition incident_full_cells_face ::
  "tds \<Rightarrow> Face \<Rightarrow> Full_cell_handle list \<Rightarrow> error + Full_cell_handle list \<times> tds" where
  "incident_full_cells_face t f out =
     bind_r (gather_full_cells t (face_full_cell f) (Incident_full_cell_traversal_predicate f) out)
       (\<lambda>(ft, out', t'). Inr (out', t'))"

definition incident_full_cells ::
  "tds \<Rightarrow> Vertex_handle \<Rightarrow> Full_cell_handle list \<Rightarrow> error + Full_cell_handle list \<times> tds" where
  "incident_full_cells t v out =
     (if \<not> None \<noteq> v then Inl (Precondition_violation ''incident_full_cells'')
      else
        bind_r (get_vertex t v) (\<lambda>x.
        bind_r (get_cell t (v_full_cell x)) (\<lambda>c.
        bind_r (fc_index c v) (\<lambda>i.
        bind_r (face_set_index (Face_init (v_full_cell x)) 0 i) (\<lambda>f.
          incident_full_cells_face t f out)))))"

text \<open>Modelled from the spec: \<open>std::sort\<close> with the comparator \<open>cmp\<close> (insertion into the
  sorted prefix), the enumeration of all combinations of \<open>k\<close> slot indices in increasing
  lexicographic order (\<open>Combination_enumerator\<close>), and the ordered set of faces keyed by the
  vertex handles of the slots \<open>1 .. d\<close>, compared lexicographically by handle order
  (\<open>Compare_faces_with_common_first_vertex\<close>).\<close>

fun insert_sorted :: "('a \<Rightarrow> 'a \<Rightarrow> bool) \<Rightarrow> 'a \<Rightarrow> 'a list \<Rightarrow> 'a list" where
  "insert_sorted cmp x [] = [x]"
| "insert_sorted cmp x (y # ys) = (if cmp x y then x # y # ys else y # insert_sorted cmp x ys)"

definition sort_with :: "('a \<Rightarrow> 'a \<Rightarrow> bool) \<Rightarrow> 'a list \<Rightarrow> 'a list" where
  "sort_with cmp xs = foldr (insert_sorted cmp) xs []"

fun combinations :: "nat \<Rightarrow> 'a list \<Rightarrow> 'a list list" where
  "combinations 0 xs = [[]]"
| "combinations (Suc k) [] = []"
| "combinations (Suc k) (x # xs) = map ((#) x) (combinations k xs) @ combinations (Suc k) xs"

fun handles_less :: "Vertex_handle list \<Rightarrow> Vertex_handle list \<Rightarrow> bool" where
  "handles_less [] [] = False"
| "handles_less [] (y # ys) = True"
| "handles_less (x # xs) [] = False"
| "handles_less (x # xs) (y # ys) =
     (case (x, y) of
        (None, None) \<Rightarrow> handles_less xs ys
      | (None, Some b) \<Rightarrow> True
      | (Some a, None) \<Rightarrow> False
      | (Some a, Some b) \<Rightarrow> a < b \<or> (a = b \<and> handles_less xs ys))"

fun face_set_insert ::
  "Vertex_handle list \<times> Face \<Rightarrow> (Vertex_handle list \<times> Face) list \<Rightarrow>
     (Vertex_handle list \<times> Face) list" where
  "face_set_insert f [] = [f]"
| "face_set_insert f (g # gs) =
     (if handles_less (fst f) (fst g) then f # g # gs
      else if handles_less (fst g) (fst f) then g # face_set_insert f gs
      else g # gs)"

text \<open>The body of the loop over the incident full cells (source lines 684--726).\<close>

definition faces_of_full_cell ::
  "tds \<Rightarrow> Vertex_handle \<Rightarrow> int \<Rightarrow> (Vertex_handle \<Rightarrow> Vertex_handle \<Rightarrow> bool) \<Rightarrow> bool \<Rightarrow>
     Full_cell_handle \<Rightarrow> (Vertex_handle list \<times> Face) list \<Rightarrow>
     error + (Vertex_handle list \<times> Face) list" where
  "faces_of_full_cell t v d cmp upper_faces s face_set =
     bind_r (get_cell t s) (\<lambda>c.
     bind_r (for_range 0 (current_dimension t) (\<lambda>i vs.
               bind_r (fc_vertex c i) (\<lambda>w. Inr (vs @ [w]))) []) (\<lambda>vs.
       case first_index (if upper_faces then sort_with cmp vs else vs) v of
         None \<Rightarrow> Inl Invalid_handle
       | Some p \<Rightarrow>
           let sorted = (if upper_faces then sort_with cmp vs
                         else v # sort_with cmp (tl (vs[p := hd vs])));
               v_idx = (if upper_faces then int p else 0)
           in if v_idx + d > current_dimension t then Inr face_set
              else
                bind_r (for_each sorted (\<lambda>w idx. bind_r (fc_index c w) (\<lambda>k. Inr (idx @ [k]))) [])
                  (\<lambda>sorted_idx.
                bind_r (face_set_index (Face_init s) 0 v_idx) (\<lambda>f0.
                  for_each (combinations (nat d) [nat v_idx + 1 ..< nat (current_dimension t) + 1])
                    (\<lambda>f_idx fs.
                       bind_r (for_each (zip [1 ..< nat d + 1] f_idx) (\<lambda>(i, k) f.
                                 face_set_index f (int i) (sorted_idx ! k)) f0) (\<lambda>f.
                       bind_r (for_each [1 ..< nat d + 1] (\<lambda>i key.
                                 bind_r (face_vertex t f (int i)) (\<lambda>w. Inr (key @ [w]))) []) (\<lambda>key.
                         Inr (face_set_insert (key, f) fs))))
                    face_set))))"

text \<open>\<open>incident_faces(v, d, out, cmp, upper_faces)\<close>; the faces written to \<open>out\<close> are appended
  to the list \<open>out\<close>.\<close>

definition incident_faces ::
  "tds \<Rightarrow> Vertex_handle \<Rightarrow> int \<Rightarrow> Face list \<Rightarrow> (Vertex_handle \<Rightarrow> Vertex_handle \<Rightarrow> bool) \<Rightarrow> bool \<Rightarrow>
     error + Face list \<times> tds" where
  "incident_faces t v d out cmp upper_faces =
     (if \<not> 0 < d then Inl (Precondition_violation ''incident_faces'')
      else if d \<ge> current_dimension t then Inr (out, t)
      else
        bind_r (incident_full_cells t v []) (\<lambda>(simps, t1).
        bind_r (for_each simps (faces_of_full_cell t1 v d cmp upper_faces) []) (\<lambda>face_set.
          Inr (out @ map snd face_set, t1))))"

section \<open>Example triangulations\<close>

text \<open>The empty triangulation of ambient dimension \<open>D\<close>, as the constructor leaves it.\<close>

definition empty_tds :: "int \<Rightarrow> tds" where
  "empty_tds D = \<lparr> dmax = D, dcur = - 2, vertices = [], full_cells = [] \<rparr>"

text \<open>\<open>n\<close> calls of \<open>insert_increase_dimension\<close>: the first with the null handle, the
  later ones with the first vertex (the infinite vertex) as \<open>star\<close>.\<close>

fun increase_dimension_times :: "nat \<Rightarrow> Vertex_handle \<Rightarrow> tds \<Rightarrow> error + Vertex_handle \<times> tds" where
  "increase_dimension_times 0 star t = Inr (star, t)"
| "increase_dimension_times (Suc n) star t =
     bind_r (insert_increase_dimension star t) (\<lambda>(v, t').
       increase_dimension_times n (if star = None then v else star) t')"

definition dimension_and_counts :: "error + Vertex_handle \<times> tds \<Rightarrow> error + int \<times> nat \<times> nat" where
  "dimension_and_counts r =
     bind_r r (\<lambda>(v, t). Inr (current_dimension t, number_of_vertices t, number_of_full_cells t))"

text \<open>The triangulations of dimension \<open>-1\<close>, 1 and 2 that one, three and four calls build
  in ambient dimension 2: vertex 0 is the infinite vertex; in \<open>triangle_tds\<close> cell 1 is the
  finite triangle.\<close>

definition point_tds :: tds where
  "point_tds =
     \<lparr> dmax = 2, dcur = - 1,
       vertices = [Some \<lparr>v_full_cell = Some 0\<rparr>],
       full_cells =
         [Some \<lparr>fc_vertices = [Some 0, None, None], fc_neighbors = [None, None, None],
                 fc_mirror_indices = [- 1, - 1, - 1], fc_bits = 0\<rparr>] \<rparr>"

definition segment_tds :: tds where
  "segment_tds =
     \<lparr> dmax = 2, dcur = 1,
       vertices = [Some \<lparr>v_full_cell = Some 2\<rparr>, Some \<lparr>v_full_cell = Some 2\<rparr>,
                   Some \<lparr>v_full_cell = Some 1\<rparr>],
       full_cells =
         [Some \<lparr>fc_vertices = [Some 0, Some 2, None], fc_neighbors = [Some 1, Some 2, None],
                 fc_mirror_indices = [0, 1, - 1], fc_bits = 0\<rparr>,
          Some \<lparr>fc_vertices = [Some 1, Some 2, None], fc_neighbors = [Some 0, Some 2, None],
                 fc_mirror_indices = [0, 0, - 1], fc_bits = 0\<rparr>,
          Some \<lparr>fc_vertices = [Some 0, Some 1, None], fc_neighbors = [Some 1, Some 0, None],
                 fc_mirror_indices = [1, 1, - 1], fc_bits = 0\<rparr>] \<rparr>"

definition triangle_tds :: tds where
  "triangle_tds =
     \<lparr> dmax = 2, dcur = 2,
       vertices = [Some \<lparr>v_full_cell = Some 3\<rparr>, Some \<lparr>v_full_cell = Some 3\<rparr>,
                   Some \<lparr>v_full_cell = Some 3\<rparr>, Some \<lparr>v_full_cell = Some 2\<rparr>],
       full_cells =
         [Some \<lparr>fc_vertices = [Some 0, Some 3, Some 2], fc_neighbors = [Some 1, Some 3, Some 2],
                 fc_mirror_indices = [0, 2, 1], fc_bits = 0\<rparr>,
          Some \<lparr>fc_vertices = [Some 1, Some 2, Some 3], fc_neighbors = [Some 0, Some 2, Some 3],
                 fc_mirror_indices = [0, 0, 0], fc_bits = 0\<rparr>,
          Some \<lparr>fc_vertices = [Some 0, Some 1, Some 3], fc_neighbors = [Some 1, Some 0, Some 3],
                 fc_mirror_indices = [1, 2, 1], fc_bits = 0\<rparr>,
          Some \<lparr>fc_vertices = [Some 0, Some 2, Some 1], fc_neighbors = [Some 1, Some 2, Some 0],
                 fc_mirror_indices = [2, 2, 1], fc_bits = 0\<rparr>] \<rparr>"

text \<open>The triangulation of dimension 0 that two calls build.\<close>

definition pair_tds :: tds where
  "pair_tds =
     \<lparr> dmax = 2, dcur = 0,
       vertices = [Some \<lparr>v_full_cell = Some 0\<rparr>, Some \<lparr>v_full_cell = Some 1\<rparr>],
       full_cells =
         [Some \<lparr>fc_vertices = [Some 0, None, None], fc_neighbors = [Some 1, None, None],
                 fc_mirror_indices = [0, - 1, - 1], fc_bits = 0\<rparr>,
          Some \<lparr>fc_vertices = [Some 1, None, None], fc_neighbors = [Some 0, None, None],
                 fc_mirror_indices = [0, - 1, - 1], fc_bits = 0\<rparr>] \<rparr>"

text \<open>The same triangulation in an ambient dimension larger by \<open>k\<close>: every array of every
  full cell has \<open>k\<close> more slots, which hold what the constructor of a full cell writes.\<close>

definition pad_cell :: "nat \<Rightarrow> Full_cell \<Rightarrow> Full_cell" where
  "pad_cell k c = c\<lparr> fc_vertices := fc_vertices c @ replicate k None,
                     fc_neighbors := fc_neighbors c @ replicate k None,
                     fc_mirror_indices := fc_mirror_indices c @ replicate k (- 1) \<rparr>"

definition pad :: "nat \<Rightarrow> tds \<Rightarrow> tds" where
  "pad k t = t\<lparr> dmax := dmax t + int k, full_cells := map (map_option (pad_cell k)) (full_cells t) \<rparr>"

text \<open>The vertex array of a full cell, before and after a call of
  \<open>insert_increase_dimension\<close>.\<close>

definition vertices_of :: "tds \<Rightarrow> Full_cell_handle \<Rightarrow> error + Vertex_handle list" where
  "vertices_of t s = bind_r (get_cell t s) (\<lambda>c. Inr (fc_vertices c))"

definition vertices_after_increase ::
  "Vertex_handle \<Rightarrow> tds \<Rightarrow> Full_cell_handle \<Rightarrow> error + Vertex_handle list" where
  "vertices_after_increase star t s =
     bind_r (insert_increase_dimension star t) (\<lambda>(v, t').
     bind_r (get_cell t' s) (\<lambda>c. Inr (fc_vertices c)))"

text \<open>The array \<open>xs\<close> with the entries at \<open>a\<close> and \<open>b\<close> exchanged (what \<open>swap_vertices\<close> makes
  of a vertex array), and the vertex arrays of all slots of the pool.\<close>

definition swapped :: "'a list \<Rightarrow> nat \<Rightarrow> nat \<Rightarrow> 'a list" where
  "swapped xs a b = xs[a := xs ! b, b := xs ! a]"

definition cell_vertices :: "tds \<Rightarrow> Vertex_handle list option list" where
  "cell_vertices t = map (map_option fc_vertices) (full_cells t)"

text \<open>The order of vertex handles (\<open>std::less\<close>), and the violations that the checks of
  \<open>insert_increase_dimension\<close> itself report: those of its three \<open>CGAL_precondition\<close>s and
  that of its \<open>CGAL_expensive_precondition\<close>.\<close>

definition handle_less :: "Vertex_handle \<Rightarrow> Vertex_handle \<Rightarrow> bool" where
  "handle_less a b = handles_less [a] [b]"

definition own_violation :: "error \<Rightarrow> bool" where
  "own_violation e \<longleftrightarrow> e = Precondition_violation ''insert_increase_dimension''
     \<or> e = Expensive_precondition_violation ''insert_increase_dimension''"

text \<open>The rotation as the specification words it: across the facet opposite the second
  covertex \<open>j\<close>.\<close>

definition rotate_rotor_as_specified :: "tds \<Rightarrow> Rotor \<Rightarrow> error + Rotor" where
  "rotate_rotor_as_specified t r =
     (case r of (s, i, j) \<Rightarrow>
      bind_r (mirror_index t s j) (\<lambda>k.
      bind_r (neighbor t s j) (\<lambda>s'.
      bind_r (vertex t s i) (\<lambda>v.
      bind_r (get_cell t s') (\<lambda>c.
      bind_r (fc_index c v) (\<lambda>j'.
        Inr (s', j', k)))))))"

text \<open>A full cell whose three arrays have one entry per index \<open>0 .. d\<close>.\<close>

definition fc_sized :: "Full_cell \<Rightarrow> int \<Rightarrow> bool" where
  "fc_sized c d \<longleftrightarrow>
     length (fc_vertices c) = nat (d + 1) \<and> length (fc_neighbors c) = nat (d + 1)
     \<and> length (fc_mirror_indices c) = nat (d + 1)"

section \<open>Predicates on the visited marks\<close>

text \<open>All visited bits are 0; every scratch byte is 0 or 1; the cell has its visited bit
  set.\<close>

definition all_clear :: "tds \<Rightarrow> bool" where
  "all_clear t \<longleftrightarrow> (\<forall>x \<in> set (full_cells t). case x of None \<Rightarrow> True | Some c \<Rightarrow> fc_bits c = 0)"

definition binary_marks :: "tds \<Rightarrow> bool" where
  "binary_marks t \<longleftrightarrow>
     (\<forall>x \<in> set (full_cells t). case x of None \<Rightarrow> True | Some c \<Rightarrow> fc_bits c = 0 \<or> fc_bits c = 1)"

definition marked :: "tds \<Rightarrow> Full_cell_handle \<Rightarrow> bool" where
  "marked t s \<longleftrightarrow> get_visited t s = Inr True"

text \<open>\<open>s->neighbor(i)\<close> for a handle \<open>s\<close>, and the cells that a walk from \<open>start\<close> over marked
  cells reaches along the neighbor slots \<open>0 .. cur_dim\<close>.\<close>

definition nbr :: "tds \<Rightarrow> Full_cell_handle \<Rightarrow> int \<Rightarrow> error + Full_cell_handle" where
  "nbr t s i = bind_r (get_cell t s) (\<lambda>c. fc_neighbor c i)"

inductive reach :: "tds \<Rightarrow> int \<Rightarrow> Full_cell_handle \<Rightarrow> Full_cell_handle \<Rightarrow> bool"
  for t :: tds and cur_dim :: int and start :: Full_cell_handle where
  reach_start: "marked t start \<Longrightarrow> reach t cur_dim start start"
| reach_step: "reach t cur_dim start a \<Longrightarrow> 0 \<le> i \<Longrightarrow> i \<le> cur_dim \<Longrightarrow> nbr t a i = Inr b \<Longrightarrow>
     marked t b \<Longrightarrow> reach t cur_dim start b"

text \<open>The neighbor slots \<open>0 .. current_dimension\<close> of every full cell hold handles of full
  cells of the triangulation; the traversal predicate returns a value on every facet.\<close>

definition links_closed :: "tds \<Rightarrow> bool" where
  "links_closed t \<longleftrightarrow>
     (\<forall>x \<in> set (full_cells t). case x of
        None \<Rightarrow> True
      | Some c \<Rightarrow> (\<forall>i \<in> set [0..current_dimension t].
          case fc_neighbor c i of Inl e \<Rightarrow> False | Inr n \<Rightarrow> is_full_cell t n))"

definition live_links :: "int \<Rightarrow> tds \<Rightarrow> bool" where
  "live_links d t \<longleftrightarrow>
     (\<forall>s i. is_full_cell t s \<and> 0 \<le> i \<and> i \<le> d \<longrightarrow> (\<exists>n. nbr t s i = Inr n \<and> is_full_cell t n))"

definition total_predicate :: "(tds \<Rightarrow> Facet \<Rightarrow> error + bool) \<Rightarrow> bool" where
  "total_predicate tp \<longleftrightarrow> (\<forall>u f. \<exists>b. tp u f = Inr b)"

definition walk_ok :: "int \<Rightarrow> Full_cell_handle list \<Rightarrow> tds \<Rightarrow> bool" where
  "walk_ok d queue t \<longleftrightarrow> live_links d t \<and> (\<forall>q \<in> set queue. is_full_cell t q)"

text \<open>The invariants of the two walks of \<open>gather_full_cells\<close>.\<close>

definition gather_inv :: "int \<Rightarrow> Full_cell_handle \<Rightarrow> Full_cell_handle list \<Rightarrow> tds \<Rightarrow> bool" where
  "gather_inv d start queue t \<longleftrightarrow>
     binary_marks t \<and> (\<forall>b. marked t b \<longrightarrow> reach t d start b) \<and> (\<forall>q \<in> set queue. marked t q)"

definition clear_inv ::
  "int \<Rightarrow> Full_cell_handle \<Rightarrow> tds \<Rightarrow> Full_cell_handle set \<Rightarrow> tds \<Rightarrow> bool" where
  "clear_inv d start u1 pending u \<longleftrightarrow>
     binary_marks u \<and> (\<forall>b j. nbr u b j = nbr u1 b j) \<and> (\<forall>b. marked u b \<longrightarrow> marked u1 b)
     \<and> \<not> marked u start
     \<and> (\<forall>a i b. marked u1 a \<and> \<not> marked u a \<and> a \<notin> pending \<and> 0 \<le> i \<and> i \<le> d \<and> nbr u a i = Inr b
          \<longrightarrow> \<not> marked u b)"

text \<open>A traversal predicate that crosses exactly the facets with covertex index 0.\<close>

definition crosses_facet_zero :: "tds \<Rightarrow> Facet \<Rightarrow> error + bool" where
  "crosses_facet_zero t f = Inr (index_of_covertex f = 0)"

section \<open>Predicates on the links, and the cone of a full cell\<close>

text \<open>The vertex and the mirror index in slot \<open>i\<close> of a full cell, read without the range check of
  the container (as \<open>nbr\<close> reads the neighbor).\<close>

definition vtx :: "tds \<Rightarrow> Full_cell_handle \<Rightarrow> int \<Rightarrow> error + Vertex_handle" where
  "vtx t s i = bind_r (get_cell t s) (\<lambda>c. fc_vertex c i)"

definition mir :: "tds \<Rightarrow> Full_cell_handle \<Rightarrow> int \<Rightarrow> error + int" where
  "mir t s i = bind_r (get_cell t s) (\<lambda>c. fc_mirror_index c i)"

text \<open>The dimensions of a triangulation and, for every slot of the pool of full cells, the lengths
  of the three arrays of the cell: what decides whether an access is in range.\<close>

definition shape :: "tds \<Rightarrow> int \<times> int \<times> (nat \<times> nat \<times> nat) option list" where
  "shape t = (dmax t, dcur t,
     map (map_option (\<lambda>c. (length (fc_vertices c), length (fc_neighbors c), length (fc_mirror_indices c))))
       (full_cells t))"

text \<open>Which slots of the pool of vertices are free.\<close>

definition vertex_liveness :: "tds \<Rightarrow> bool list" where
  "vertex_liveness t = map (\<lambda>x. x = None) (vertices t)"

text \<open>Every full cell has \<open>maximal_dimension + 1\<close> slots, as \<open>Full_cell_init\<close> makes them.\<close>

definition sized :: "tds \<Rightarrow> bool" where
  "sized t \<longleftrightarrow> (\<forall>z c. get_cell t z = Inr c \<longrightarrow> fc_sized c (dmax t))"

text \<open>The mirror indices in slots \<open>0 .. d\<close> of every full cell lie in \<open>0 .. d\<close>.\<close>

definition mirrors_ok :: "int \<Rightarrow> tds \<Rightarrow> bool" where
  "mirrors_ok d t \<longleftrightarrow>
     (\<forall>s i. is_full_cell t s \<and> 0 \<le> i \<and> i \<le> d \<longrightarrow> (\<exists>m. mir t s i = Inr m \<and> 0 \<le> m \<and> m \<le> d))"

text \<open>What \<open>set_neighbors\<close> and \<open>associate_vertex_with_full_cell\<close> need in order to return, and
  keep: current dimension \<open>d\<close> with \<open>0 < d \<le> maximal_dimension\<close>, cells of full size, neighbor
  slots \<open>0 .. d\<close> that hold full cells, and mirror indices in range.\<close>

definition well_linked :: "int \<Rightarrow> tds \<Rightarrow> bool" where
  "well_linked d t \<longleftrightarrow> dcur t = d \<and> 0 < d \<and> d \<le> dmax t \<and> sized t \<and> live_links d t \<and> mirrors_ok d t"

text \<open>The same three conditions as predicates that can be evaluated on a given triangulation.\<close>

definition cells_sized :: "tds \<Rightarrow> bool" where
  "cells_sized t \<longleftrightarrow>
     (\<forall>x \<in> set (full_cells t). case x of None \<Rightarrow> True | Some c \<Rightarrow> fc_sized c (ambient_dimension t))"

definition mirrors_in_range :: "tds \<Rightarrow> bool" where
  "mirrors_in_range t \<longleftrightarrow>
     (\<forall>x \<in> set (full_cells t). case x of
        None \<Rightarrow> True
      | Some c \<Rightarrow> (\<forall>i \<in> set [0..current_dimension t].
          case fc_mirror_index c i of Inl e \<Rightarrow> False
          | Inr m \<Rightarrow> 0 \<le> m \<and> m \<le> current_dimension t))"

text \<open>The vertices \<open>0 .. current_dimension - 1\<close> of the full cell \<open>s\<close> are vertices of the
  triangulation (\<open>insert_in_full_cell\<close> sets their full-cell pointers).\<close>

definition vertices_live :: "tds \<Rightarrow> Full_cell_handle \<Rightarrow> bool" where
  "vertices_live t s \<longleftrightarrow>
     (\<forall>i \<in> set [0..current_dimension t - 1].
        case vertex t s i of Inl e \<Rightarrow> False | Inr w \<Rightarrow> is_vertex t w)"

definition live_vertices :: "int \<Rightarrow> tds \<Rightarrow> Full_cell_handle \<Rightarrow> bool" where
  "live_vertices d t s \<longleftrightarrow> (\<forall>k. 0 \<le> k \<and> k < d \<longrightarrow> (\<exists>w. vtx t s k = Inr w \<and> is_vertex t w))"

text \<open>The cells around the vertex inserted in the full cell \<open>s\<close>: \<open>s\<close> itself for \<open>k = 0\<close> and, for
  \<open>k \<ge> 1\<close>, the \<open>k\<close>-th copy of \<open>s\<close>, which \<open>new_full_cell\<close> puts in slot \<open>L + k - 1\<close> of a pool that
  had \<open>L\<close> slots.\<close>

definition cone_cell :: "Full_cell_handle \<Rightarrow> nat \<Rightarrow> int \<Rightarrow> Full_cell_handle" where
  "cone_cell s L k = (if k = 0 then s else Some (L + nat k - 1))"

text \<open>The vertex array of \<open>s\<close> with \<open>v\<close> in slot \<open>k\<close>.\<close>

definition coned :: "tds \<Rightarrow> Full_cell_handle \<Rightarrow> Vertex_handle \<Rightarrow> int \<Rightarrow> Vertex_handle list option" where
  "coned t s v k = map_option (\<lambda>vs. vs[nat k := v]) (cell_vertices t ! the s)"

text \<open>The state of the first loop of \<open>insert_in_full_cell\<close> before iteration \<open>i\<close>: the copies
  \<open>1 .. i - 1\<close> are at the end of the pool and recorded in \<open>fc\<close>, copy \<open>k\<close> has \<open>v\<close> in slot \<open>k\<close>, and
  the vertex array of \<open>s\<close> is untouched.\<close>

definition clone_inv ::
  "tds \<Rightarrow> Full_cell_handle \<Rightarrow> Vertex_handle \<Rightarrow> int \<Rightarrow> int \<Rightarrow> Full_cell_handle list \<times> tds \<Rightarrow> bool" where
  "clone_inv t s v d i st \<longleftrightarrow> (case st of (fc, u) \<Rightarrow>
     well_linked d u \<and> dmax u = dmax t \<and> length fc = nat (dmax t + 1)
     \<and> (\<forall>k. 1 \<le> k \<and> k < i \<longrightarrow> fc ! nat k = cone_cell s (length (full_cells t)) k)
     \<and> cell_vertices u = cell_vertices t @ map (coned t s v) [1..i - 1]
     \<and> vertex_liveness u = vertex_liveness t @ [False]
     \<and> (\<forall>k. vtx u s k = vtx t s k))"

text \<open>Cell \<open>a\<close> of the cone has cell \<open>b\<close> as neighbor \<open>b\<close>, with mirror index \<open>a\<close>.\<close>

definition linked :: "Full_cell_handle \<Rightarrow> nat \<Rightarrow> tds \<Rightarrow> int \<Rightarrow> int \<Rightarrow> bool" where
  "linked s L u a b \<longleftrightarrow>
     nbr u (cone_cell s L a) b = Inr (cone_cell s L b) \<and> mir u (cone_cell s L a) b = Inr a"

text \<open>The state of the double loop of \<open>insert_in_full_cell\<close> before iteration \<open>(i, j)\<close>: all pairs
  \<open>(a, b)\<close> before \<open>(i, j)\<close> are linked.\<close>

definition cross_inv :: "tds \<Rightarrow> Full_cell_handle \<Rightarrow> nat \<Rightarrow> int \<Rightarrow> int \<Rightarrow> int \<Rightarrow> tds \<Rightarrow> bool" where
  "cross_inv t3 s L d i j u \<longleftrightarrow>
     well_linked d u \<and> shape u = shape t3 \<and> cell_vertices u = cell_vertices t3 \<and> vertices u = vertices t3
     \<and> (\<forall>a b. 0 \<le> a \<and> a \<le> d \<and> 0 \<le> b \<and> b \<le> d \<and> a \<noteq> b \<and> (a < i \<or> (a = i \<and> b < j))
          \<longrightarrow> linked s L u a b)"

text \<open>The local full cell \<open>fc\<close> holds the cells of the cone, which are distinct full cells.\<close>

definition cone_ok :: "tds \<Rightarrow> Full_cell_handle \<Rightarrow> nat \<Rightarrow> int \<Rightarrow> Full_cell_handle list \<Rightarrow> bool" where
  "cone_ok t3 s L d fc \<longleftrightarrow>
     (\<forall>k. 0 \<le> k \<and> k \<le> d \<longrightarrow> slot_get fc k = Inr (cone_cell s L k) \<and> is_full_cell t3 (cone_cell s L k))
     \<and> (\<forall>a b. 0 \<le> a \<and> a \<le> d \<and> 0 \<le> b \<and> b \<le> d \<and> cone_cell s L a = cone_cell s L b \<longrightarrow> a = b)"

text \<open>\<open>triangle_tds\<close> after a vertex has been inserted in its bounded cell, cell 1: the new
  vertex is 4, the new cells are 4 and 5.\<close>

definition coned_triangle_tds :: tds where
  "coned_triangle_tds =
     \<lparr> dmax = 2, dcur = 2,
       vertices = [Some \<lparr>v_full_cell = Some 3\<rparr>, Some \<lparr>v_full_cell = Some 4\<rparr>,
                   Some \<lparr>v_full_cell = Some 5\<rparr>, Some \<lparr>v_full_cell = Some 2\<rparr>,
                   Some \<lparr>v_full_cell = Some 1\<rparr>],
       full_cells =
         [Some \<lparr>fc_vertices = [Some 0, Some 3, Some 2], fc_neighbors = [Some 1, Some 3, Some 2],
                 fc_mirror_indices = [0, 2, 1], fc_bits = 0\<rparr>,
          Some \<lparr>fc_vertices = [Some 4, Some 2, Some 3], fc_neighbors = [Some 0, Some 4, Some 5],
                 fc_mirror_indices = [0, 0, 0], fc_bits = 0\<rparr>,
          Some \<lparr>fc_vertices = [Some 0, Some 1, Some 3], fc_neighbors = [Some 4, Some 0, Some 3],
                 fc_mirror_indices = [1, 2, 1], fc_bits = 0\<rparr>,
          Some \<lparr>fc_vertices = [Some 0, Some 2, Some 1], fc_neighbors = [Some 5, Some 2, Some 0],
                 fc_mirror_indices = [2, 2, 1], fc_bits = 0\<rparr>,
          Some \<lparr>fc_vertices = [Some 1, Some 4, Some 3], fc_neighbors = [Some 1, Some 2, Some 5],
                 fc_mirror_indices = [1, 0, 1], fc_bits = 0\<rparr>,
          Some \<lparr>fc_vertices = [Some 1, Some 2, Some 4], fc_neighbors = [Some 1, Some 4, Some 3],
                 fc_mirror_indices = [2, 2, 0], fc_bits = 0\<rparr>] \<rparr>"

section \<open>The twin of a full cell\<close>

text \<open>The vertices of the twin \<open>S_new\<close> that \<open>do_insert_increase_dimension\<close> creates for a full
  cell \<open>S\<close> with vertices \<open>vs\<close> (source lines 1022--1027): \<open>new_full_cell()\<close> has \<open>D + 1\<close> null
  slots, slot 0 gets \<open>star\<close> and slot \<open>k\<close> gets \<open>vertex(S, k - 1)\<close> for \<open>k = 1 .. cur_dim\<close>.
  \<open>twin_prefix\<close> is the array before iteration \<open>k\<close> of that loop.\<close>

definition twin_vertices :: "int \<Rightarrow> Vertex_handle \<Rightarrow> int \<Rightarrow> Vertex_handle list \<Rightarrow> Vertex_handle list" where
  "twin_vertices D star cur_dim vs =
     map (\<lambda>j. if j = 0 then star else if int j \<le> cur_dim then vs ! (j - 1) else None)
       [0..<nat (D + 1)]"

definition twin_prefix :: "int \<Rightarrow> Vertex_handle \<Rightarrow> int \<Rightarrow> Vertex_handle list \<Rightarrow> Vertex_handle list" where
  "twin_prefix D star k vs =
     map (\<lambda>j. if j = 0 then star else if int j < k then vs ! (j - 1) else None)
       [0..<nat (D + 1)]"

text \<open>In a triangulation of current dimension \<open>d\<close> the slot \<open>d + 1\<close> of every full cell is
  null (the first loop of \<open>do_insert_increase_dimension\<close> skips a cell whose slot is taken),
  and the vertex slots of the full cells hold null or vertices of the triangulation.\<close>

definition last_slot_free :: "tds \<Rightarrow> bool" where
  "last_slot_free t \<longleftrightarrow>
     (\<forall>x \<in> set (full_cells t). case x of
        None \<Rightarrow> True
      | Some c \<Rightarrow> fc_vertex c (current_dimension t + 1) = Inr None)"

definition cells_hold_vertices :: "tds \<Rightarrow> bool" where
  "cells_hold_vertices t \<longleftrightarrow>
     (\<forall>x \<in> set (full_cells t). case x of
        None \<Rightarrow> True
      | Some c \<Rightarrow> (\<forall>v \<in> set (fc_vertices c). v = None \<or> is_vertex t v))"

section \<open>The examples are what the code builds\<close>

lemma point_tds_built:
  "increase_dimension_times 1 None (empty_tds 2) = Inr (Some 0, point_tds)"
  by code_simp

lemma segment_tds_built:
  "increase_dimension_times 3 None (empty_tds 2) = Inr (Some 0, segment_tds)"
  by code_simp

lemma triangle_tds_built:
  "increase_dimension_times 4 None (empty_tds 2) = Inr (Some 0, triangle_tds)"
  by code_simp

section \<open>C2: the rotation of a rotor\<close>

text \<open>
  C2 as stated fails: for the rotor \<open>(s, i, j)\<close> the code crosses the facet opposite the
  first covertex \<open>i\<close> (\<open>index_of_covertex\<close>), not the facet opposite \<open>j\<close>.  In the triangle
  the rotor \<open>(cell 1, 0, 1)\<close> goes to \<open>(cell 0, 2, 0)\<close>, while the stated rule gives
  \<open>(cell 2, 1, 0)\<close>.
\<close>

theorem rotate_rotor_counterexample:
  "rotate_rotor triangle_tds (Some 1, 0, 1) = Inr (Some 0, 2, 0)
   \<and> rotate_rotor_as_specified triangle_tds (Some 1, 0, 1) = Inr (Some 2, 1, 0)
   \<and> rotate_rotor triangle_tds (Some 1, 0, 1) \<noteq> rotate_rotor_as_specified triangle_tds (Some 1, 0, 1)"
  by code_simp

text \<open>
  C2, amended: \<open>rotate_rotor (s, i, j)\<close> returns \<open>(s', j', k)\<close> exactly when
  \<open>s' = s.neighbor[i]\<close>, \<open>k = s.mirror_index[i]\<close> and \<open>j' = s'.index(s.vertex[j])\<close>: the
  rotation crosses the facet of \<open>s\<close> opposite the first covertex \<open>i\<close>, and the second
  covertex \<open>j\<close> is followed into the neighbor.
\<close>

theorem rotate_rotor_crosses_covertex:
  "rotate_rotor t (s, i, j) = Inr (s', j', k) \<longleftrightarrow>
     neighbor t s i = Inr s' \<and> mirror_index t s i = Inr k
     \<and> (\<exists>v c'. vertex t s j = Inr v \<and> get_cell t s' = Inr c' \<and> fc_index c' v = Inr j')"
  by (auto simp: rotate_rotor_def facet_of_def full_cell_def index_of_covertex_def
      index_of_second_covertex_def)

theorem rotate_rotor_crosses_covertex_witness:
  "rotate_rotor triangle_tds (Some 1, 0, 1) = Inr (Some 0, 2, 0)
   \<and> neighbor triangle_tds (Some 1) 0 = Inr (Some 0)
   \<and> mirror_index triangle_tds (Some 1) 0 = Inr 0"
proof -
  have "rotate_rotor triangle_tds (Some 1, 0, 1) = Inr (Some 0, 2, 0)"
    by code_simp
  then show ?thesis
    using rotate_rotor_crosses_covertex [of triangle_tds "Some 1" 0 1 "Some 0" 2 0] by simp
qed

section \<open>C10: the range check of the accessors\<close>

text \<open>
  C10: for a full cell \<open>s\<close> of the triangulation, \<open>vertex(s, i)\<close>, \<open>neighbor(s, i)\<close> and
  \<open>mirror_index(s, i)\<close> return a value exactly for \<open>i = 0\<close> when the current dimension is
  negative, and exactly for \<open>0 \<le> i \<le> current_dimension()\<close> otherwise; every other index
  is a precondition violation.
\<close>

theorem accessors_check_range:
  assumes "get_cell t s = Inr c" and "fc_sized c (dmax t)"
    and "0 < ambient_dimension t" and "current_dimension t \<le> ambient_dimension t"
  shows "((\<exists>v. vertex t s i = Inr v) \<longleftrightarrow>
            (if current_dimension t < 0 then i = 0 else 0 \<le> i \<and> i \<le> current_dimension t))
       \<and> ((\<exists>n. neighbor t s i = Inr n) \<longleftrightarrow>
            (if current_dimension t < 0 then i = 0 else 0 \<le> i \<and> i \<le> current_dimension t))
       \<and> ((\<exists>m. mirror_index t s i = Inr m) \<longleftrightarrow>
            (if current_dimension t < 0 then i = 0 else 0 \<le> i \<and> i \<le> current_dimension t))
       \<and> (\<not> (if current_dimension t < 0 then i = 0 else 0 \<le> i \<and> i \<le> current_dimension t) \<longrightarrow>
            vertex t s i = Inl (Precondition_violation ''vertex'')
            \<and> neighbor t s i = Inl (Precondition_violation ''neighbor'')
            \<and> mirror_index t s i = Inl (Precondition_violation ''mirror_index''))"
proof -
  have s: "s \<noteq> None" using assms(1) by (auto simp: get_cell_Inr)
  show ?thesis
    using assms s
    by (auto simp: vertex_def neighbor_def mirror_index_def check_range_def fc_vertex_def
        fc_neighbor_def fc_mirror_index_def slot_get_def fc_sized_def current_dimension_def
        ambient_dimension_def)
qed

theorem accessors_check_range_witness:
  "get_cell point_tds (Some 0) =
     Inr \<lparr>fc_vertices = [Some 0, None, None], fc_neighbors = [None, None, None],
          fc_mirror_indices = [- 1, - 1, - 1], fc_bits = 0\<rparr>
   \<and> current_dimension point_tds < 0
   \<and> vertex point_tds (Some 0) 1 = Inl (Precondition_violation ''vertex'')
   \<and> (\<exists>v. vertex point_tds (Some 0) 0 = Inr v)"
proof -
  let ?c = "\<lparr>fc_vertices = [Some 0, None, None], fc_neighbors = [None, None, None],
          fc_mirror_indices = [- 1, - 1, - 1], fc_bits = 0\<rparr>"
  have c: "get_cell point_tds (Some 0) = Inr ?c"
    by (simp add: get_cell_def point_tds_def)
  have z: "fc_sized ?c (dmax point_tds)" by (simp add: fc_sized_def point_tds_def)
  have a: "0 < ambient_dimension point_tds" "current_dimension point_tds \<le> ambient_dimension point_tds"
    "current_dimension point_tds < 0"
    by (simp_all add: ambient_dimension_def current_dimension_def point_tds_def)
  show ?thesis
    using accessors_check_range [OF c z a(1,2), of 1] accessors_check_range [OF c z a(1,2), of 0] c a(3)
    by simp
qed

section \<open>C7: the hole of insert\_in\_facet\<close>

lemma smod_nonneg: "0 \<le> a \<Longrightarrow> 0 < b \<Longrightarrow> (a::int) smod b = a mod b"
  by (simp add: smod_int_alt_def sgn_if)

lemma next_index_differs:
  assumes "2 \<le> d" "0 \<le> i" "i \<le> (d::int)"
  shows "(i + 1) smod d \<noteq> i \<and> 0 \<le> (i + 1) smod d \<and> (i + 1) smod d < d"
proof -
  have e: "(i + 1) smod d = (i + 1) mod d" using assms by (intro smod_nonneg) auto
  consider "i + 1 < d" | "i + 1 = d" | "i = d" using assms by linarith
  then have "(i + 1) mod d \<noteq> i"
  proof cases
    case 1 then show ?thesis using assms by simp
  next
    case 2 then show ?thesis using assms by simp
  next
    case 3
    then have "(i + 1) mod d = 1" using assms by simp
    then show ?thesis using 3 assms by simp
  qed
  then show ?thesis using e assms by simp
qed

text \<open>
  C7 as stated fails in dimension 1: the new index is \<open>(i + 1) % current_dimension()\<close>, which
  is \<open>0\<close> for every \<open>i\<close> when the dimension is 1.  For the facet \<open>(cell 1, 0)\<close> of the
  segment triangulation the starting facet handed on is the facet itself, and
  \<open>insert_in_hole\<close> rejects the two-cell hole in dimension 1.
\<close>

theorem insert_in_facet_counterexample:
  "insert_in_facet_hole segment_tds (Some 1, 0) = Inr ([Some 1, Some 0], (Some 1, 0))
   \<and> insert_in_facet segment_tds (Some 1, 0)
       = Some (Inl (Expensive_precondition_violation ''insert_in_hole''))"
  by code_simp

text \<open>
  C7, amended: in current dimension \<open>d \<ge> 2\<close>, for every facet \<open>f = (s0, i)\<close> with
  \<open>0 \<le> i \<le> d\<close> of a full cell \<open>s0\<close> whose neighbor across \<open>i\<close> is \<open>s1\<close>,
  \<open>insert_in_facet(f)\<close> is \<open>insert_in_hole\<close> on the range \<open>[s0, s1]\<close> with a starting facet
  \<open>(s0, i')\<close> of the first cell, \<open>i' = (i + 1) mod d\<close>, and \<open>i'\<close> differs from \<open>i\<close>.
\<close>

theorem insert_in_facet_start_facet:
  assumes "2 \<le> current_dimension t" and "0 \<le> i" and "i \<le> current_dimension t"
    and "get_cell t s0 = Inr c" and "fc_neighbor c i = Inr s1"
  shows "\<exists>i'. i' = (i + 1) mod current_dimension t \<and> i' \<noteq> i \<and> 0 \<le> i' \<and> i' < current_dimension t
           \<and> insert_in_facet_hole t (s0, i) = Inr ([s0, s1], (s0, i'))
           \<and> insert_in_facet t (s0, i) = insert_in_hole t [s0, s1] (s0, i')"
proof -
  have "(i + 1) smod current_dimension t = (i + 1) mod current_dimension t"
    using assms by (intro smod_nonneg) auto
  then show ?thesis
    using assms next_index_differs[of "current_dimension t" i]
    by (auto simp: insert_in_facet_def insert_in_facet_hole_def full_cell_def index_of_covertex_def)
qed

theorem insert_in_facet_start_facet_witness:
  "2 \<le> current_dimension triangle_tds
   \<and> insert_in_facet_hole triangle_tds (Some 1, 2) = Inr ([Some 1, Some 3], (Some 1, 1))
   \<and> insert_in_facet triangle_tds (Some 1, 2) = insert_in_hole triangle_tds [Some 1, Some 3] (Some 1, 1)"
proof -
  let ?c = "\<lparr>fc_vertices = [Some 1, Some 2, Some 3], fc_neighbors = [Some 0, Some 2, Some 3],
                 fc_mirror_indices = [0, 0, 0], fc_bits = 0\<rparr>"
  have d: "current_dimension triangle_tds = 2"
    by (simp add: current_dimension_def triangle_tds_def)
  have c: "get_cell triangle_tds (Some 1) = Inr ?c"
    by (simp add: get_cell_def triangle_tds_def)
  have n: "fc_neighbor ?c 2 = Inr (Some 3)"
    by (simp add: fc_neighbor_def slot_get_def)
  show ?thesis
    using insert_in_facet_start_facet [of triangle_tds 2 "Some 1" ?c "Some 3"] d c n by simp
qed

section \<open>C9: faces of the current dimension or more\<close>

text \<open>
  C9: for every vertex \<open>v\<close>, comparator and feature dimension \<open>k\<close> with \<open>0 < k\<close> (the
  precondition) and \<open>k \<ge> current_dimension()\<close>, \<open>incident_faces\<close> returns the output
  unchanged and leaves the triangulation as it was: nothing is enumerated, also not for
  \<open>k\<close> equal to the current dimension.
\<close>

theorem incident_faces_high_dimension:
  assumes "0 < k" and "current_dimension t \<le> k"
  shows "incident_faces t v k out cmp upper_faces = Inr (out, t)"
  using assms by (simp add: incident_faces_def)

theorem incident_faces_high_dimension_witness:
  "(0::int) < 2 \<and> current_dimension triangle_tds \<le> 2
   \<and> incident_faces triangle_tds (Some 1) 2 [] handle_less False = Inr ([], triangle_tds)"
  using incident_faces_high_dimension [of 2 triangle_tds "Some 1" "[]" handle_less False]
  by (simp add: current_dimension_def triangle_tds_def)

section \<open>C5: from the empty triangulation to the triangle\<close>

lemma first_index_replicate_None: "first_index (replicate k None) (Some v) = None"
  by (induction k) auto

lemma replicate_3: "replicate (nat (int k + 3)) x = x # x # x # replicate k x"
proof -
  have "nat (int k + 3) = Suc (Suc (Suc k))" by simp
  then show ?thesis by simp
qed

lemma list_update_2: "(a # b # c # xs)[2 := v] = a # b # v # xs"
  by (simp add: numeral_2_eq_2)

lemmas increase_defs = insert_increase_dimension_def current_dimension_def ambient_dimension_def
  set_current_dimension_def new_vertex_def new_full_cell_def associate_vertex_with_full_cell_def
  check_range_def update_cell_def get_cell_def fc_set_vertex_def slot_set_def set_full_cell_def
  update_vertex_def get_vertex_def Full_cell_init_def is_vertex_def set_neighbors_def
  fc_set_neighbor_def fc_set_mirror_index_def do_insert_increase_dimension_def
  full_cells_begin_def full_cell_handles_def extend_full_cell_def fc_vertex_def slot_get_def
  set_visited_def mark_visited_def clear_visited_def fc_has_vertex_def fc_has_vertex_idx_def
  vertex_def neighbor_def mirror_index_def fc_neighbor_def fc_mirror_index_def fc_index_def
  connect_full_cell_def enqueue_marked_neighbors_def get_visited_def is_visited_def
  parity_correction_def parity_swap_def swap_vertices_def fc_swap_vertices_def swap_slots_def
  maximal_dimension_def Let_def pad_def pad_cell_def for_range.simps connect_walk.simps
  first_index_replicate_None replicate_3 list_update_2 add.commute

lemma increase_to_point:
  "insert_increase_dimension None (empty_tds (int k + 2)) = Inr (Some 0, pad k point_tds)"
  by (simp add: increase_defs empty_tds_def point_tds_def)

lemma increase_to_pair:
  "insert_increase_dimension (Some 0) (pad k point_tds) = Inr (Some 1, pad k pair_tds)"
  by (simp add: increase_defs point_tds_def pair_tds_def)

lemma increase_to_segment:
  "insert_increase_dimension (Some 0) (pad k pair_tds) = Inr (Some 2, pad k segment_tds)"
  by (simp add: increase_defs pair_tds_def segment_tds_def)

lemma increase_to_triangle:
  "insert_increase_dimension (Some 0) (pad k segment_tds) = Inr (Some 3, pad k triangle_tds)"
  by (simp add: increase_defs triangle_tds_def segment_tds_def)

text \<open>
  C5 as stated fails: five calls end in dimension 3 with 5 vertices and 5 full cells when
  the ambient dimension is 3, and the fifth call breaks the precondition
  \<open>current_dimension() < ambient_dimension()\<close> when the ambient dimension is 2.
\<close>

theorem increase_dimension_five_times_counterexample:
  "dimension_and_counts (increase_dimension_times 5 None (empty_tds 3)) = Inr (3, 5, 5)
   \<and> dimension_and_counts (increase_dimension_times 5 None (empty_tds 2))
       = Inl (Precondition_violation ''insert_increase_dimension'')"
  by code_simp

text \<open>
  C5, amended: starting from the empty triangulation of any ambient dimension \<open>D \<ge> 2\<close>,
  four calls of \<open>insert_increase_dimension\<close> (the first with the null handle, the others
  with the first vertex as star) produce a triangulation of current dimension 2 with
  exactly 4 vertices and exactly 4 full cells.
\<close>

theorem increase_dimension_four_times:
  assumes "2 \<le> D"
  shows "dimension_and_counts (increase_dimension_times 4 None (empty_tds D)) = Inr (2, 4, 4)"
proof -
  obtain k where D: "D = int k + 2"
    using assms by (metis add.commute nonneg_int_cases diff_ge_0_iff_ge diff_add_cancel)
  have "increase_dimension_times 4 None (empty_tds D) = Inr (Some 0, pad k triangle_tds)"
    unfolding D
    by (simp add: eval_nat_numeral increase_to_point increase_to_pair increase_to_segment
        increase_to_triangle)
  then show ?thesis
    by (simp add: dimension_and_counts_def current_dimension_def number_of_vertices_def
        number_of_full_cells_def pad_def triangle_tds_def)
qed

theorem increase_dimension_four_times_witness:
  "(2::int) \<le> 2 \<and> dimension_and_counts (increase_dimension_times 4 None (empty_tds 2)) = Inr (2, 4, 4)"
  using increase_dimension_four_times [of 2] by simp

section \<open>C4: the parity correction\<close>

text \<open>
  C4 as stated fails: the loop is guarded by the parity of the new dimension, and it skips
  the cells whose last slot holds the new vertex.  Raising the triangle (prior dimension 2,
  even) to dimension 3 leaves the vertex slots 1 and 2 of the finite cell 1 as they were.
\<close>

theorem parity_correction_counterexample:
  "current_dimension (pad 1 triangle_tds) = 2
   \<and> vertices_of (pad 1 triangle_tds) (Some 1) = Inr [Some 1, Some 2, Some 3, None]
   \<and> vertices_after_increase (Some 0) (pad 1 triangle_tds) (Some 1) = Inr [Some 1, Some 2, Some 3, Some 4]"
  by code_simp

lemma swap_slots_Inr:
  "swap_slots xs d1 d2 = Inr ys \<longleftrightarrow>
     0 \<le> d1 \<and> d1 < int (length xs) \<and> 0 \<le> d2 \<and> d2 < int (length xs)
     \<and> ys = swapped xs (nat d1) (nat d2)"
  by (auto simp: swap_slots_def slot_get_def slot_set_def swapped_def split: if_splits)

lemma update_cell_cell_vertices_same:
  assumes "update_cell t s f = Inr t'" "\<And>c c'. f c = Inr c' \<Longrightarrow> fc_vertices c' = fc_vertices c"
  shows "cell_vertices t' = cell_vertices t"
proof -
  from assms(1) obtain n c c' where n: "n < length (full_cells t)" "full_cells t ! n = Some c" "f c = Inr c'"
    and t': "t' = t\<lparr>full_cells := (full_cells t)[n := Some c']\<rparr>"
    by (auto simp: update_cell_Inr)
  have "(map (map_option fc_vertices) (full_cells t))[n := Some (fc_vertices c')] = map (map_option fc_vertices) (full_cells t)"
    using n assms(2)[OF n(3)] by (intro list_update_same_conv[THEN iffD2]) simp_all
  then show ?thesis by (simp add: cell_vertices_def t' map_update)
qed

lemma fc_set_mirror_index_vertices: "fc_set_mirror_index i j c = Inr c' \<Longrightarrow> fc_vertices c' = fc_vertices c"
  by (auto simp: fc_set_mirror_index_def)

lemma swap_vertices_cell_vertices:
  assumes "swap_vertices t s d1 d2 = Inr t'"
  shows "\<exists>n c. s = Some n \<and> n < length (full_cells t) \<and> full_cells t ! n = Some c
           \<and> 0 \<le> d1 \<and> d1 < int (length (fc_vertices c)) \<and> 0 \<le> d2 \<and> d2 < int (length (fc_vertices c))
           \<and> cell_vertices t' = (cell_vertices t)[n := Some (swapped (fc_vertices c) (nat d1) (nat d2))]"
proof -
  from assms obtain t1 t2 n1 m1 n2 m2 where
    t1: "update_cell t s (fc_swap_vertices d1 d2) = Inr t1"
    and t2: "update_cell t1 n1 (fc_set_mirror_index m1 d1) = Inr t2"
    and t': "update_cell t2 n2 (fc_set_mirror_index m2 d2) = Inr t'"
    by (auto simp: swap_vertices_def)
  from t1 obtain n c c' where n: "s = Some n" "n < length (full_cells t)" "full_cells t ! n = Some c"
    and c': "fc_swap_vertices d1 d2 c = Inr c'"
    and e1: "t1 = t\<lparr>full_cells := (full_cells t)[n := Some c']\<rparr>"
    by (auto simp: update_cell_Inr)
  from c' have r: "0 \<le> d1 \<and> d1 < int (length (fc_vertices c)) \<and> 0 \<le> d2 \<and> d2 < int (length (fc_vertices c))"
    and v: "fc_vertices c' = swapped (fc_vertices c) (nat d1) (nat d2)"
    by (auto simp: fc_swap_vertices_def swap_slots_Inr)
  have "cell_vertices t1 = (cell_vertices t)[n := Some (swapped (fc_vertices c) (nat d1) (nat d2))]"
    by (simp add: cell_vertices_def e1 map_update v)
  moreover have "cell_vertices t2 = cell_vertices t1"
    using update_cell_cell_vertices_same[OF t2 fc_set_mirror_index_vertices] .
  moreover have "cell_vertices t' = cell_vertices t2"
    using update_cell_cell_vertices_same[OF t' fc_set_mirror_index_vertices] .
  ultimately show ?thesis using n r by auto
qed

lemma parity_swap_cell_vertices:
  assumes "parity_swap x c s t = Inr t'"
  shows "\<exists>n vs. s = Some n \<and> n < length (cell_vertices t) \<and> cell_vertices t ! n = Some vs
           \<and> cell_vertices t' = (cell_vertices t)
                [n := Some (if vs ! nat c \<noteq> x then swapped vs (nat (c - 1)) (nat c) else vs)]"
proof -
  from assms obtain cell vc where cell: "get_cell t s = Inr cell" and vc: "fc_vertex cell c = Inr vc"
    and r: "(if x \<noteq> vc then swap_vertices t s (c - 1) c else Inr t) = Inr t'"
    by (auto simp: parity_swap_def)
  from cell obtain n where n: "s = Some n" "n < length (full_cells t)" "full_cells t ! n = Some cell"
    by (auto simp: get_cell_Inr)
  have vc': "vc = fc_vertices cell ! nat c"
    using vc by (auto simp: fc_vertex_def slot_get_def split: if_splits)
  have cv: "cell_vertices t ! n = Some (fc_vertices cell)" "n < length (cell_vertices t)"
    using n by (simp_all add: cell_vertices_def)
  show ?thesis
  proof (cases "x \<noteq> vc")
    case True
    then have "swap_vertices t s (c - 1) c = Inr t'" using r by simp
    from swap_vertices_cell_vertices[OF this] n cv True vc' show ?thesis by auto
  next
    case False
    then have "t' = t" using r by simp
    moreover have "(cell_vertices t)[n := Some (fc_vertices cell)] = cell_vertices t"
      using cv by (intro list_update_same_conv[THEN iffD2]) simp_all
    ultimately show ?thesis using n cv False vc' by auto
  qed
qed

lemma parity_swaps_cell_vertices:
  assumes "for_each hs (parity_swap x c) t = Inr t'" "distinct hs"
  shows "length (cell_vertices t') = length (cell_vertices t)
         \<and> (\<forall>n < length (cell_vertices t). cell_vertices t' ! n =
              (if Some n \<in> set hs
               then map_option (\<lambda>vs. if vs ! nat c \<noteq> x then swapped vs (nat (c - 1)) (nat c) else vs)
                      (cell_vertices t ! n)
               else cell_vertices t ! n))"
  using assms
proof (induction hs arbitrary: t)
  case Nil
  then show ?case by simp
next
  case (Cons h hs)
  from Cons.prems(1) obtain t1 where t1: "parity_swap x c h t = Inr t1"
    and r: "for_each hs (parity_swap x c) t1 = Inr t'"
    by (auto split: sum.splits)
  from parity_swap_cell_vertices[OF t1] obtain k vs where k: "h = Some k" "k < length (cell_vertices t)"
    "cell_vertices t ! k = Some vs"
    and e: "cell_vertices t1 = (cell_vertices t)
                [k := Some (if vs ! nat c \<noteq> x then swapped vs (nat (c - 1)) (nat c) else vs)]"
    by blast
  have d: "distinct hs" "h \<notin> set hs" using Cons.prems(2) by auto
  note IH = Cons.IH[OF r d(1)]
  have len: "length (cell_vertices t1) = length (cell_vertices t)" using e by simp
  show ?case
  proof (intro conjI allI impI)
    show "length (cell_vertices t') = length (cell_vertices t)" using IH len by simp
  next
    fix n assume n: "n < length (cell_vertices t)"
    then have n1: "n < length (cell_vertices t1)" using len by simp
    show "cell_vertices t' ! n =
         (if Some n \<in> set (h # hs)
          then map_option (\<lambda>vs. if vs ! nat c \<noteq> x then swapped vs (nat (c - 1)) (nat c) else vs)
                (cell_vertices t ! n)
          else cell_vertices t ! n)"
    proof (cases "n = k")
      case True
      then have "Some n \<notin> set hs" using d(2) k(1) by simp
      then have "cell_vertices t' ! n = cell_vertices t1 ! n" using IH n1 by simp
      then show ?thesis using True k e by simp
    next
      case False
      then have "cell_vertices t1 ! n = cell_vertices t ! n" using e by simp
      then show ?thesis using IH n1 False k(1) by simp
    qed
  qed
qed

lemma distinct_full_cell_handles: "distinct (full_cell_handles t)"
  by (simp add: full_cell_handles_def distinct_map)

lemma Some_in_full_cell_handles:
  "Some n \<in> set (full_cell_handles t) \<longleftrightarrow> n < length (full_cells t) \<and> full_cells t ! n \<noteq> None"
  by (auto simp: full_cell_handles_def)

section \<open>C8: the preconditions of insert\_increase\_dimension\<close>

lemma bind_r_Inl_iff: "bind_r m f = Inl e \<longleftrightarrow> m = Inl e \<or> (\<exists>x. m = Inr x \<and> f x = Inl e)"
  by (cases m) auto

lemma for_range_error:
  assumes "for_range i n body s = Inl e"
  shows "\<exists>k a. body k a = Inl e"
  using assms
proof (induction i n body s rule: for_range.induct)
  case (1 i n body s)
  then show ?case
    by (subst (asm) (2) for_range.simps) (auto split: if_splits sum.splits)
qed

lemma for_each_error:
  assumes "for_each xs body s = Inl e"
  shows "\<exists>x a. body x a = Inl e"
  using assms by (induction xs arbitrary: s) (auto split: sum.splits)

text \<open>No callee reports a violation of the checks of \<open>insert_increase_dimension\<close>.\<close>

lemma slot_get_not_own [simp]: "own_violation e \<Longrightarrow> slot_get xs i \<noteq> Inl e"
  by (auto simp: slot_get_def own_violation_def)

lemma slot_set_not_own [simp]: "own_violation e \<Longrightarrow> slot_set xs i v \<noteq> Inl e"
  by (auto simp: slot_set_def own_violation_def)

lemma get_cell_not_own [simp]: "own_violation e \<Longrightarrow> get_cell t s \<noteq> Inl e"
  by (auto simp: get_cell_def own_violation_def split: option.splits)

lemma get_vertex_not_own [simp]: "own_violation e \<Longrightarrow> get_vertex t s \<noteq> Inl e"
  by (auto simp: get_vertex_def own_violation_def split: option.splits)

lemma update_cell_not_own:
  assumes "own_violation e" "\<And>c. f c \<noteq> Inl e"
  shows "update_cell t s f \<noteq> Inl e"
  using assms by (auto simp: update_cell_def bind_r_Inl_iff)

lemma fc_set_not_own [simp]:
  assumes "own_violation e"
  shows "fc_set_vertex i v c \<noteq> Inl e"
    "fc_set_neighbor i n c \<noteq> Inl e"
    "fc_set_mirror_index i j c \<noteq> Inl e"
    "fc_swap_vertices d1 d2 c \<noteq> Inl e"
    "fc_vertex c i \<noteq> Inl e"
    "fc_neighbor c i \<noteq> Inl e"
    "fc_mirror_index c i \<noteq> Inl e"
  using assms
  by (auto simp: fc_set_vertex_def fc_set_neighbor_def fc_set_mirror_index_def fc_swap_vertices_def
      swap_slots_def fc_vertex_def fc_neighbor_def fc_mirror_index_def bind_r_Inl_iff)

lemma fc_index_not_own [simp]: "own_violation e \<Longrightarrow> fc_index c v \<noteq> Inl e"
  by (auto simp: fc_index_def own_violation_def split: option.splits)

lemma accessors_not_own [simp]:
  assumes "own_violation e"
  shows "vertex t s i \<noteq> Inl e"
    "neighbor t s i \<noteq> Inl e"
    "mirror_index t s i \<noteq> Inl e"
    "get_visited t s \<noteq> Inl e"
  using assms
  by (auto simp: vertex_def neighbor_def mirror_index_def get_visited_def bind_r_Inl_iff)
     (simp_all add: own_violation_def)

lemma set_visited_not_own [simp]: "own_violation e \<Longrightarrow> set_visited t s m \<noteq> Inl e"
  unfolding set_visited_def by (rule update_cell_not_own) simp_all

lemma set_full_cell_not_own [simp]: "own_violation e \<Longrightarrow> set_full_cell t v s \<noteq> Inl e"
  by (auto simp: set_full_cell_def update_vertex_def bind_r_Inl_iff)

lemma associate_not_own [simp]:
  "own_violation e \<Longrightarrow> associate_vertex_with_full_cell t s i v \<noteq> Inl e"
  using update_cell_not_own[of e "fc_set_vertex i v" t s]
  by (auto simp: associate_vertex_with_full_cell_def bind_r_Inl_iff)
     (simp_all add: own_violation_def)

lemma set_neighbors_not_own [simp]: "own_violation e \<Longrightarrow> set_neighbors t s i s1 j \<noteq> Inl e"
  using update_cell_not_own[of e "fc_set_neighbor i s1"] update_cell_not_own[of e "fc_set_neighbor j s"]
    update_cell_not_own[of e "fc_set_mirror_index i j"] update_cell_not_own[of e "fc_set_mirror_index j i"]
  by (auto simp: set_neighbors_def bind_r_Inl_iff)
     (simp_all add: own_violation_def)

lemma swap_vertices_not_own [simp]: "own_violation e \<Longrightarrow> swap_vertices t s d1 d2 \<noteq> Inl e"
  using update_cell_not_own[of e "fc_swap_vertices d1 d2"] update_cell_not_own[of e "fc_set_mirror_index _ _"]
  by (auto simp: swap_vertices_def bind_r_Inl_iff)

lemma extend_full_cell_not_own [simp]:
  "own_violation e \<Longrightarrow> extend_full_cell x star cur_dim S st \<noteq> Inl e"
  by (auto simp: extend_full_cell_def bind_r_Inl_iff new_full_cell_def
      split: prod.splits if_splits dest!: for_range_error)

lemma connect_full_cell_not_own [simp]:
  "own_violation e \<Longrightarrow> connect_full_cell star cur_dim S t \<noteq> Inl e"
  by (auto simp: connect_full_cell_def bind_r_Inl_iff
      split: prod.splits if_splits dest!: for_range_error)

lemma enqueue_marked_neighbors_not_own [simp]:
  "own_violation e \<Longrightarrow> enqueue_marked_neighbors cur_dim S st \<noteq> Inl e"
  by (auto simp: enqueue_marked_neighbors_def bind_r_Inl_iff
      split: prod.splits if_splits dest!: for_range_error)

lemma connect_walk_not_own [simp]: "own_violation e \<Longrightarrow> connect_walk star cur_dim st \<noteq> Inl e"
proof (induction star cur_dim st rule: connect_walk.induct)
  case (1 star cur_dim queue t)
  then show ?case
    by (subst connect_walk.simps) (auto split: list.splits sum.splits)
qed

lemma parity_correction_not_own [simp]:
  "own_violation e \<Longrightarrow> parity_correction x cur_dim t \<noteq> Inl e"
  by (auto simp: parity_correction_def parity_swap_def bind_r_Inl_iff
      split: if_splits dest!: for_each_error)

lemma do_insert_increase_dimension_not_own [simp]:
  "own_violation e \<Longrightarrow> do_insert_increase_dimension x star t \<noteq> Inl e"
  by (auto simp: do_insert_increase_dimension_def bind_r_Inl_iff Let_def
      split: if_splits prod.splits dest!: for_each_error)






section \<open>C3: the visited marks after gather\_full\_cells\<close>

lemma for_range_invariant_indexed:
  assumes "for_range i n body s = Inr s'" and "P i s"
    and "\<And>k a b. i \<le> k \<Longrightarrow> k \<le> n \<Longrightarrow> P k a \<Longrightarrow> body k a = Inr b \<Longrightarrow> P (k + 1) b"
  shows "P (if i \<le> n then n + 1 else i) s'"
  using assms
proof (induction i n body s rule: for_range.induct)
  case (1 i n body s)
  show ?case
  proof (cases "i \<le> n")
    case True
    then obtain s1 where b: "body i s = Inr s1" and r: "for_range (i + 1) n body s1 = Inr s'"
      using "1.prems"(1) by (subst (asm) for_range.simps) (auto split: sum.splits)
    have p1: "P (i + 1) s1" using "1.prems"(3)[OF _ True "1.prems"(2) b] by simp
    have "P (if i + 1 \<le> n then n + 1 else i + 1) s'"
    proof (rule "1.IH"[OF True b r p1])
      fix k a b assume "i + 1 \<le> k" "k \<le> n" "P k a" "body k a = Inr b"
      then show "P (k + 1) b" using "1.prems"(3)[of k a b] by simp
    qed
    moreover have "(if i + 1 \<le> n then n + 1 else i + 1) = n + 1" using True by auto
    ultimately show ?thesis using True by simp
  next
    case False
    then show ?thesis using "1.prems"(1,2) by (subst (asm) for_range.simps) simp
  qed
qed

lemma set_visited_Inr:
  "set_visited t s m = Inr t' \<longleftrightarrow>
     (\<exists>n c. s = Some n \<and> n < length (full_cells t) \<and> full_cells t ! n = Some c
        \<and> t' = t\<lparr>full_cells := (full_cells t)[n := Some (c\<lparr>fc_bits := (if m then 1 else 0)\<rparr>)]\<rparr>)"
  by (auto simp: set_visited_def update_cell_Inr mark_visited_def clear_visited_def)

lemma get_cell_set_visited_other:
  assumes "set_visited t s m = Inr t'" "a \<noteq> s"
  shows "get_cell t' a = get_cell t a"
proof (cases a)
  case None
  then show ?thesis by (simp add: get_cell_def)
next
  case (Some k)
  from assms(1) obtain n c where n: "s = Some n"
    and t': "t' = t\<lparr>full_cells := (full_cells t)[n := Some (c\<lparr>fc_bits := (if m then 1 else 0)\<rparr>)]\<rparr>"
    by (auto simp: set_visited_Inr)
  have "k \<noteq> n" using assms(2) Some n by simp
  then show ?thesis by (simp add: get_cell_def Some t')
qed

lemma get_cell_set_visited_same:
  assumes "set_visited t s m = Inr t'"
  shows "\<exists>c. get_cell t s = Inr c \<and> get_cell t' s = Inr (c\<lparr>fc_bits := (if m then 1 else 0)\<rparr>)"
  using assms by (auto simp: set_visited_Inr get_cell_def)

lemma marked_set_visited:
  assumes "set_visited t s m = Inr t'"
  shows "marked t' a \<longleftrightarrow> (if a = s then m else marked t a)"
proof (cases "a = s")
  case True
  then show ?thesis using get_cell_set_visited_same[OF assms]
    by (cases m) (auto simp: marked_def get_visited_def is_visited_def)
next
  case False
  then show ?thesis using get_cell_set_visited_other[OF assms False]
    by (simp add: marked_def get_visited_def)
qed

lemma nbr_set_visited:
  assumes "set_visited t s m = Inr t'"
  shows "nbr t' a i = nbr t a i"
proof (cases "a = s")
  case True
  then show ?thesis using get_cell_set_visited_same[OF assms]
    by (auto simp: nbr_def fc_neighbor_def)
next
  case False
  then show ?thesis using get_cell_set_visited_other[OF assms False]
    by (simp add: nbr_def)
qed

lemma binary_set_visited:
  assumes "set_visited t s m = Inr t'" "binary_marks t"
  shows "binary_marks t'"
proof -
  from assms(1) obtain n c where n: "n < length (full_cells t)"
    and t': "t' = t\<lparr>full_cells := (full_cells t)[n := Some (c\<lparr>fc_bits := (if m then 1 else 0)\<rparr>)]\<rparr>"
    by (auto simp: set_visited_Inr)
  show ?thesis unfolding binary_marks_def t'
  proof
    fix x assume "x \<in> set (full_cells (t\<lparr>full_cells := (full_cells t)[n := Some (c\<lparr>fc_bits := (if m then 1 else 0)\<rparr>)]\<rparr>))"
    then have "x \<in> insert (Some (c\<lparr>fc_bits := (if m then 1 else 0)\<rparr>)) (set (full_cells t))"
      using set_update_subset_insert by fastforce
    then show "case x of None \<Rightarrow> True | Some c \<Rightarrow> fc_bits c = 0 \<or> fc_bits c = 1"
      using assms(2) by (auto simp: binary_marks_def)
  qed
qed

lemma reach_marked: "reach t d start a \<Longrightarrow> marked t a"
  by (induction rule: reach.induct) auto

lemma reach_mono:
  assumes "reach t d start a" "\<And>b. marked t b \<Longrightarrow> marked t' b" "\<And>b i. nbr t' b i = nbr t b i"
  shows "reach t' d start a"
  using assms(1)
proof (induction rule: reach.induct)
  case reach_start
  then show ?case using assms(2) by (auto intro: reach.reach_start)
next
  case (reach_step a i b)
  then show ?case using assms(2,3) by (auto intro: reach.reach_step)
qed

subsection \<open>The first walk: every marked cell is reached from the start over marked cells\<close>

lemma gather_visit_inv:
  assumes "gather_visit tp s i (queue, ft, t) = Inr (queue', ft', t')"
    and "gather_inv d start queue t" "marked t s" "0 \<le> i" "i \<le> d"
  shows "gather_inv d start queue' t' \<and> marked t' s \<and> (\<forall>b j. nbr t' b j = nbr t b j)"
proof -
  from assms(1) obtain n vis where n: "nbr t s i = Inr n" and vis: "get_visited t n = Inr vis"
    by (auto simp: gather_visit_def nbr_def)
  show ?thesis
  proof (cases vis)
    case True
    then have "queue' = queue" "t' = t" using assms(1) n vis by (auto simp: gather_visit_def nbr_def)
    then show ?thesis using assms by simp
  next
    case False
    then obtain b where t': "set_visited t n True = Inr t'" and b: "tp t' (s, i) = Inr b"
      and q: "queue' = (if b then queue @ [n] else queue)"
      using assms(1) n vis by (auto simp: gather_visit_def nbr_def split: if_splits)
    have m: "\<And>a. marked t' a \<longleftrightarrow> a = n \<or> marked t a"
      using marked_set_visited[OF t'] by auto
    have nb: "\<And>b j. nbr t' b j = nbr t b j" using nbr_set_visited[OF t'] by simp
    have mono: "\<And>a. reach t d start a \<Longrightarrow> reach t' d start a"
      by (rule reach_mono) (auto simp: m nb)
    have "reach t' d start s" using assms(2,3) mono by (auto simp: gather_inv_def)
    then have rn: "reach t' d start n"
      using assms(4,5) n by (intro reach.reach_step[of t' d start s i n]) (auto simp: nb m)
    have "gather_inv d start queue' t'"
      unfolding gather_inv_def
      using assms(2) binary_set_visited[OF t'] rn mono
      by (auto simp: gather_inv_def m q)
    then show ?thesis using m assms(3) nb by auto
  qed
qed

lemma gather_visits_inv:
  assumes "for_range 0 d (gather_visit tp s) (queue, ft, t) = Inr (queue', ft', t')"
    and "gather_inv d start queue t" "marked t s"
  shows "gather_inv d start queue' t' \<and> (\<forall>b j. nbr t' b j = nbr t b j)"
proof -
  let ?P = "\<lambda>st. case st of (q, f, u) \<Rightarrow> gather_inv d start q u \<and> marked u s \<and> (\<forall>b j. nbr u b j = nbr t b j)"
  have "?P (queue', ft', t')"
  proof (rule for_range_invariant[OF assms(1), where P = ?P])
    show "?P (queue, ft, t)" using assms by simp
  next
    fix k a b assume k: "0 \<le> k" "k \<le> d" and a: "?P a" and b: "gather_visit tp s k a = Inr b"
    obtain q f u where [simp]: "a = (q, f, u)" by (cases a)
    obtain q' f' u' where [simp]: "b = (q', f', u')" by (cases b)
    from gather_visit_inv[of tp s k q f u q' f' u' d start] a b k
    show "?P b" by simp
  qed
  then show ?thesis by simp
qed

lemma gather_walk_inv:
  assumes "gather_walk tp d (queue, out, ft, t) = Inr (out', ft', t')"
    and "gather_inv d start queue t"
  shows "gather_inv d start [] t' \<and> (\<forall>b j. nbr t' b j = nbr t b j)"
  using assms
proof (induction tp d "(queue, out, ft, t)" arbitrary: queue out ft t rule: gather_walk.induct)
  case (1 tp d queue out ft t)
  show ?case
  proof (cases queue)
    case Nil
    then show ?thesis using "1.prems" by (subst (asm) gather_walk.simps) (simp add: gather_inv_def)
  next
    case (Cons s rest)
    then obtain q1 f1 t1 where r: "for_range 0 d (gather_visit tp s) (rest, ft, t) = Inr (q1, f1, t1)"
      and w: "gather_walk tp d (q1, out @ [s], f1, t1) = Inr (out', ft', t')"
      using "1.prems"(1) by (subst (asm) gather_walk.simps) (auto split: sum.splits)
    have "gather_inv d start rest t" "marked t s"
      using "1.prems"(2) Cons by (auto simp: gather_inv_def)
    from gather_visits_inv[OF r this]
    have i1: "gather_inv d start q1 t1" and n1: "\<forall>b j. nbr t1 b j = nbr t b j" by auto
    from "1.hyps"[OF Cons r refl refl w i1] n1
    show ?thesis by simp
  qed
qed


lemma set_visited_dcur: "set_visited t s m = Inr t' \<Longrightarrow> dcur t' = dcur t"
  by (auto simp: set_visited_Inr)

lemma gather_visits_dcur:
  assumes "for_range i n (gather_visit tp s) (queue, ft, t) = Inr (queue', ft', t')"
  shows "dcur t' = dcur t"
proof -
  let ?P = "\<lambda>st. case st of (q, f, u) \<Rightarrow> dcur u = dcur t"
  have "?P (queue', ft', t')"
  proof (rule for_range_invariant[OF assms, where P = ?P])
    show "?P (queue, ft, t)" by simp
  next
    fix k a b assume a: "?P a" and b: "gather_visit tp s k a = Inr b"
    obtain q f u where [simp]: "a = (q, f, u)" by (cases a)
    obtain q' f' u' where [simp]: "b = (q', f', u')" by (cases b)
    from b have "dcur u' = dcur u"
      by (auto simp: gather_visit_def split: if_splits dest: set_visited_dcur)
    then show "?P b" using a by simp
  qed
  then show ?thesis by simp
qed

lemma gather_walk_dcur:
  assumes "gather_walk tp d (queue, out, ft, t) = Inr (out', ft', t')"
  shows "dcur t' = dcur t"
  using assms
proof (induction tp d "(queue, out, ft, t)" arbitrary: queue out ft t rule: gather_walk.induct)
  case (1 tp d queue out ft t)
  show ?case
  proof (cases queue)
    case Nil
    then show ?thesis using "1.prems" by (subst (asm) gather_walk.simps) simp
  next
    case (Cons s rest)
    then obtain q1 f1 t1 where r: "for_range 0 d (gather_visit tp s) (rest, ft, t) = Inr (q1, f1, t1)"
      and w: "gather_walk tp d (q1, out @ [s], f1, t1) = Inr (out', ft', t')"
      using "1.prems"(1) by (subst (asm) gather_walk.simps) (auto split: sum.splits)
    from "1.hyps"[OF Cons r refl refl w] gather_visits_dcur[OF r]
    show ?thesis by simp
  qed
qed

subsection \<open>The second walk: what it has cleared is closed under the neighbor slots\<close>

lemma clear_inv_closed:
  assumes "clear_inv d start u1 pending u"
    and "marked u1 a" "\<not> marked u a" "a \<notin> pending" "0 \<le> i" "i \<le> d" "nbr u a i = Inr b"
  shows "\<not> marked u b"
proof -
  have "\<forall>a i b. marked u1 a \<and> \<not> marked u a \<and> a \<notin> pending \<and> 0 \<le> i \<and> i \<le> d \<and> nbr u a i = Inr b
          \<longrightarrow> \<not> marked u b"
    using assms(1) unfolding clear_inv_def by (elim conjE)
  then show ?thesis using assms(2-) by blast
qed

lemma clear_invI:
  assumes "binary_marks u" "\<And>b j. nbr u b j = nbr u1 b j" "\<And>b. marked u b \<Longrightarrow> marked u1 b"
    "\<not> marked u start"
    "\<And>a i b. marked u1 a \<Longrightarrow> \<not> marked u a \<Longrightarrow> a \<notin> pending \<Longrightarrow> 0 \<le> i \<Longrightarrow> i \<le> d \<Longrightarrow>
       nbr u a i = Inr b \<Longrightarrow> \<not> marked u b"
  shows "clear_inv d start u1 pending u"
  unfolding clear_inv_def using assms by blast

lemma clear_invD:
  assumes "clear_inv d start u1 pending u"
  shows "binary_marks u" "\<And>b j. nbr u b j = nbr u1 b j" "\<And>b. marked u b \<Longrightarrow> marked u1 b"
    "\<not> marked u start"
  using assms unfolding clear_inv_def by blast+

lemma clear_visit_inv:
  assumes "clear_visit s i (queue, u) = Inr (queue', u')"
    and "clear_inv d start u1 (insert s (set queue)) u"
    and "\<forall>j b. 0 \<le> j \<and> j < i \<and> nbr u s j = Inr b \<longrightarrow> \<not> marked u b"
  shows "clear_inv d start u1 (insert s (set queue')) u'
       \<and> (\<forall>j b. 0 \<le> j \<and> j < i + 1 \<and> nbr u' s j = Inr b \<longrightarrow> \<not> marked u' b)"
proof -
  from assms(1) obtain n vis where n: "nbr u s i = Inr n" and vis: "get_visited u n = Inr vis"
    by (auto simp: clear_visit_def nbr_def)
  show ?thesis
  proof (cases vis)
    case False
    then have e: "queue' = queue" "u' = u" using assms(1) n vis by (auto simp: clear_visit_def nbr_def)
    have nm: "\<not> marked u n" using vis False by (simp add: marked_def)
    have "\<forall>j b. 0 \<le> j \<and> j < i + 1 \<and> nbr u s j = Inr b \<longrightarrow> \<not> marked u b"
    proof (intro allI impI)
      fix j b assume h: "0 \<le> j \<and> j < i + 1 \<and> nbr u s j = Inr b"
      show "\<not> marked u b"
      proof (cases "j = i")
        case True
        then have "b = n" using h n by simp
        then show ?thesis using nm by simp
      next
        case False
        then have "0 \<le> j \<and> j < i \<and> nbr u s j = Inr b" using h by simp
        then show ?thesis using assms(3) by blast
      qed
    qed
    then show ?thesis using assms(2) unfolding e by (rule conjI[rotated])
  next
    case True
    then have u': "set_visited u n False = Inr u'" and q: "queue' = queue @ [n]"
      using assms(1) n vis by (auto simp: clear_visit_def nbr_def)
    have m: "marked u' a \<longleftrightarrow> a \<noteq> n \<and> marked u a" for a
      using marked_set_visited[OF u', of a] by auto
    have nb: "nbr u' b j = nbr u b j" for b j using nbr_set_visited[OF u'] by simp
    note D = clear_invD[OF assms(2)]
    have 1: "clear_inv d start u1 (insert s (set queue')) u'"
    proof (rule clear_invI)
      show "binary_marks u'" using binary_set_visited[OF u' D(1)] .
      show "nbr u' b j = nbr u1 b j" for b j using D(2)[of b j] nb[of b j] by simp
      show "marked u' b \<Longrightarrow> marked u1 b" for b using D(3)[of b] m[of b] by simp
      show "\<not> marked u' start" using D(4) m[of start] by simp
    next
      fix a k b
      assume h: "marked u1 a" "\<not> marked u' a" "a \<notin> insert s (set queue')" "0 \<le> k" "k \<le> d"
        "nbr u' a k = Inr b"
      have "a \<noteq> n" using h(3) q by simp
      then have 1: "\<not> marked u a" using h(2) m[of a] by simp
      have 2: "a \<notin> insert s (set queue)" using h(3) q by simp
      have 3: "nbr u a k = Inr b" using h(6) nb[of a k] by simp
      have "\<not> marked u b" using clear_inv_closed[OF assms(2) h(1) 1 2 h(4,5) 3] .
      then show "\<not> marked u' b" using m[of b] by simp
    qed
    have 2: "\<forall>j b. 0 \<le> j \<and> j < i + 1 \<and> nbr u' s j = Inr b \<longrightarrow> \<not> marked u' b"
    proof (intro allI impI)
      fix j b assume h: "0 \<le> j \<and> j < i + 1 \<and> nbr u' s j = Inr b"
      then have hb: "nbr u s j = Inr b" using nb[of s j] by simp
      show "\<not> marked u' b"
      proof (cases "j = i")
        case True
        then have "b = n" using hb n by simp
        then show ?thesis using m[of b] by simp
      next
        case False
        then have "0 \<le> j \<and> j < i \<and> nbr u s j = Inr b" using h hb by simp
        then have "\<not> marked u b" using assms(3) by blast
        then show ?thesis using m[of b] by simp
      qed
    qed
    show ?thesis using 1 2 by (rule conjI)
  qed
qed

lemma clear_visits_inv:
  assumes "for_range 0 d (clear_visit s) (queue, u) = Inr (queue', u')"
    and "clear_inv d start u1 (insert s (set queue)) u"
  shows "clear_inv d start u1 (set queue') u'"
proof -
  let ?P = "\<lambda>k st. case st of (q, w) \<Rightarrow> clear_inv d start u1 (insert s (set q)) w
      \<and> (\<forall>j b. 0 \<le> j \<and> j < k \<and> nbr w s j = Inr b \<longrightarrow> \<not> marked w b)"
  have "?P (if 0 \<le> d then d + 1 else 0) (queue', u')"
  proof (rule for_range_invariant_indexed[OF assms(1), where P = ?P])
    show "?P 0 (queue, u)" using assms(2) by auto
  next
    fix k a b assume k: "0 \<le> k" "k \<le> d" and a: "?P k a" and b: "clear_visit s k a = Inr b"
    obtain q w where [simp]: "a = (q, w)" by (cases a)
    obtain q' w' where [simp]: "b = (q', w')" by (cases b)
    from clear_visit_inv[of s k q w q' w' d start u1] a b
    show "?P (k + 1) b" by simp
  qed
  then have c: "clear_inv d start u1 (insert s (set queue')) u'"
    and n: "\<forall>j b. 0 \<le> j \<and> j < (if 0 \<le> d then d + 1 else 0) \<and> nbr u' s j = Inr b \<longrightarrow> \<not> marked u' b"
    by auto
  have n': "\<forall>j b. 0 \<le> j \<and> j \<le> d \<and> nbr u' s j = Inr b \<longrightarrow> \<not> marked u' b"
    using n by auto
  note D = clear_invD[OF c]
  show ?thesis
  proof (rule clear_invI)
    show "binary_marks u'" using D(1) .
    show "nbr u' b j = nbr u1 b j" for b j using D(2) .
    show "marked u' b \<Longrightarrow> marked u1 b" for b using D(3) .
    show "\<not> marked u' start" using D(4) .
  next
    fix a i b
    assume h: "marked u1 a" "\<not> marked u' a" "a \<notin> set queue'" "0 \<le> i" "i \<le> d" "nbr u' a i = Inr b"
    show "\<not> marked u' b"
    proof (cases "a = s")
      case True
      then have "0 \<le> i \<and> i \<le> d \<and> nbr u' s i = Inr b" using h by simp
      then show ?thesis using n' by blast
    next
      case False
      then have "a \<notin> insert s (set queue')" using h(3) by simp
      then show ?thesis using clear_inv_closed[OF c h(1,2) _ h(4,5,6)] by simp
    qed
  qed
qed

lemma clear_walk_inv:
  assumes "clear_walk d (queue, u) = Inr u'" and "clear_inv d start u1 (set queue) u"
  shows "clear_inv d start u1 {} u'"
  using assms
proof (induction d "(queue, u)" arbitrary: queue u rule: clear_walk.induct)
  case (1 d queue u)
  show ?case
  proof (cases queue)
    case Nil
    then show ?thesis using "1.prems" by (subst (asm) clear_walk.simps) simp
  next
    case (Cons s rest)
    then obtain q1 w1 where r: "for_range 0 d (clear_visit s) (rest, u) = Inr (q1, w1)"
      and w: "clear_walk d (q1, w1) = Inr u'"
      using "1.prems"(1) by (subst (asm) clear_walk.simps) (auto split: sum.splits)
    have "clear_inv d start u1 (insert s (set rest)) u" using "1.prems"(2) Cons by simp
    from clear_visits_inv[OF r this] have "clear_inv d start u1 (set q1) w1" .
    from "1.hyps"[OF Cons r w this] show ?thesis .
  qed
qed

lemma clear_inv_final:
  assumes "clear_inv d start u1 {} u'" and "reach u1 d start a"
  shows "\<not> marked u' a"
  using assms(2)
proof (induction rule: reach.induct)
  case reach_start
  then show ?case using clear_invD(4)[OF assms(1)] by simp
next
  case (reach_step a i b)
  have 1: "marked u1 a" using reach_step(1) by (rule reach_marked)
  have 2: "nbr u' a i = Inr b" using clear_invD(2)[OF assms(1), of a i] reach_step(4) by simp
  show ?case
    using clear_inv_closed[OF assms(1) 1 reach_step.IH _ reach_step(2,3) 2] by simp
qed

lemma all_clear_binary: "all_clear t \<Longrightarrow> binary_marks t"
  by (auto simp: all_clear_def binary_marks_def split: option.splits)

lemma all_clear_not_marked: "all_clear t \<Longrightarrow> \<not> marked t a"
  by (auto simp: all_clear_def marked_def get_visited_def get_cell_Inr is_visited_def
      dest!: nth_mem split: option.splits)

lemma unmarked_all_clear:
  assumes "binary_marks t" "\<And>a. \<not> marked t a"
  shows "all_clear t"
  unfolding all_clear_def
proof
  fix x assume x: "x \<in> set (full_cells t)"
  then obtain n where n: "n < length (full_cells t)" "full_cells t ! n = x"
    by (auto simp: in_set_conv_nth)
  show "case x of None \<Rightarrow> True | Some c \<Rightarrow> fc_bits c = 0"
  proof (cases x)
    case None
    then show ?thesis by simp
  next
    case (Some c)
    then have "get_cell t (Some n) = Inr c" using n by (simp add: get_cell_def)
    then have "fc_bits c \<noteq> 1" using assms(2)[of "Some n"]
      by (simp add: marked_def get_visited_def is_visited_def)
    moreover have "fc_bits c = 0 \<or> fc_bits c = 1" using assms(1) x Some
      by (auto simp: binary_marks_def)
    ultimately show ?thesis using Some by simp
  qed
qed


subsection \<open>Both walks return on a triangulation with closed links\<close>

lemma is_full_cell_iff: "is_full_cell t s \<longleftrightarrow> (\<exists>c. get_cell t s = Inr c)"
  by (auto simp: is_full_cell_def get_cell_def split: option.splits)

lemma links_closed_live_links:
  assumes "links_closed t"
  shows "live_links (current_dimension t) t"
  unfolding live_links_def
proof (intro allI impI)
  fix s i assume h: "is_full_cell t s \<and> 0 \<le> i \<and> i \<le> current_dimension t"
  then obtain c where c: "get_cell t s = Inr c" by (auto simp: is_full_cell_iff)
  then have "Some c \<in> set (full_cells t)" by (auto simp: get_cell_Inr dest: nth_mem)
  moreover have "i \<in> set [0..current_dimension t]" using h by simp
  ultimately have "case fc_neighbor c i of Inl e \<Rightarrow> False | Inr n \<Rightarrow> is_full_cell t n"
    using assms unfolding links_closed_def by fastforce
  then show "\<exists>n. nbr t s i = Inr n \<and> is_full_cell t n"
    using c by (auto simp: nbr_def split: sum.splits)
qed

lemma is_full_cell_set_visited:
  assumes "set_visited t s m = Inr t'"
  shows "is_full_cell t' a \<longleftrightarrow> is_full_cell t a"
proof (cases "a = s")
  case True
  then show ?thesis using get_cell_set_visited_same[OF assms] by (auto simp: is_full_cell_iff)
next
  case False
  then show ?thesis using get_cell_set_visited_other[OF assms False] by (simp add: is_full_cell_iff)
qed

lemma live_links_set_visited:
  assumes "set_visited t s m = Inr t'" "live_links d t"
  shows "live_links d t'"
  using assms(2) unfolding live_links_def
  by (simp add: is_full_cell_set_visited[OF assms(1)] nbr_set_visited[OF assms(1)])

lemma set_visited_total:
  assumes "is_full_cell t s"
  shows "\<exists>t'. set_visited t s m = Inr t'"
  using assms by (auto simp: is_full_cell_iff set_visited_Inr get_cell_Inr)

lemma get_visited_total:
  assumes "is_full_cell t s"
  shows "\<exists>b. get_visited t s = Inr b"
  using assms by (auto simp: is_full_cell_iff get_visited_def)

lemma for_range_total:
  assumes "P s" and "\<And>k a. i \<le> k \<Longrightarrow> k \<le> n \<Longrightarrow> P a \<Longrightarrow> \<exists>b. body k a = Inr b \<and> P b"
  shows "\<exists>s'. for_range i n body s = Inr s' \<and> P s'"
  using assms
proof (induction i n body s rule: for_range.induct)
  case (1 i n body s)
  show ?case
  proof (cases "i \<le> n")
    case True
    then obtain s1 where b: "body i s = Inr s1" and p: "P s1"
      using "1.prems"(2)[of i s] "1.prems"(1) by auto
    have "\<exists>s'. for_range (i + 1) n body s1 = Inr s' \<and> P s'"
    proof (rule "1.IH"[OF True b p])
      fix k a assume "i + 1 \<le> k" "k \<le> n" "P a"
      then show "\<exists>b. body k a = Inr b \<and> P b" using "1.prems"(2)[of k a] by simp
    qed
    then show ?thesis using True b by (subst for_range.simps) simp
  next
    case False
    then show ?thesis using "1.prems"(1) by (subst for_range.simps) simp
  qed
qed

lemma gather_visit_total:
  assumes "walk_ok d (s # queue) t" "0 \<le> i" "i \<le> d" "total_predicate tp"
  shows "\<exists>queue' ft' t'. gather_visit tp s i (queue, ft, t) = Inr (queue', ft', t')
           \<and> walk_ok d (s # queue') t' \<and> (\<forall>a. is_full_cell t' a \<longleftrightarrow> is_full_cell t a)"
proof -
  have s: "is_full_cell t s" and ll: "live_links d t" and qs: "\<forall>q \<in> set queue. is_full_cell t q"
    using assms(1) by (auto simp: walk_ok_def)
  from ll s assms(2,3) obtain n where n: "nbr t s i = Inr n" "is_full_cell t n"
    unfolding live_links_def by blast
  from get_visited_total[OF n(2)] obtain vis where vis: "get_visited t n = Inr vis" by blast
  from n(1) obtain c where c: "get_cell t s = Inr c" "fc_neighbor c i = Inr n"
    by (auto simp: nbr_def)
  show ?thesis
  proof (cases vis)
    case True
    then have "gather_visit tp s i (queue, ft, t) = Inr (queue, ft, t)"
      using c vis by (simp add: gather_visit_def)
    then show ?thesis using assms(1) by simp
  next
    case False
    from set_visited_total[OF n(2)] obtain t1 where t1: "set_visited t n True = Inr t1" by blast
    from assms(4) obtain b where b: "tp t1 (s, i) = Inr b" unfolding total_predicate_def by blast
    have g: "gather_visit tp s i (queue, ft, t) =
        Inr (if b then queue @ [n] else queue, if b then ft else (s, i), t1)"
      using c vis False t1 b by (simp add: gather_visit_def)
    have "walk_ok d (s # (if b then queue @ [n] else queue)) t1"
      using live_links_set_visited[OF t1 ll] s qs n(2)
      by (auto simp: walk_ok_def is_full_cell_set_visited[OF t1])
    then show ?thesis using g is_full_cell_set_visited[OF t1] by blast
  qed
qed

lemma gather_visits_total:
  assumes "walk_ok d (s # queue) t" "total_predicate tp"
  shows "\<exists>queue' ft' t'. for_range 0 d (gather_visit tp s) (queue, ft, t) = Inr (queue', ft', t')
           \<and> walk_ok d queue' t' \<and> (\<forall>a. is_full_cell t' a \<longleftrightarrow> is_full_cell t a)"
proof -
  let ?P = "\<lambda>st. case st of (q, f, u) \<Rightarrow> walk_ok d (s # q) u \<and> (\<forall>a. is_full_cell u a \<longleftrightarrow> is_full_cell t a)"
  have "\<exists>s'. for_range 0 d (gather_visit tp s) (queue, ft, t) = Inr s' \<and> ?P s'"
  proof (rule for_range_total[where P = ?P])
    show "?P (queue, ft, t)" using assms(1) by simp
  next
    fix k and a :: "Full_cell_handle list \<times> Facet \<times> tds"
    assume k: "0 \<le> k" "k \<le> d" and a: "?P a"
    obtain q f u where [simp]: "a = (q, f, u)" by (cases a)
    from gather_visit_total[where d = d and s = s and queue = q and t = u and i = k and tp = tp and ft = f]
      a k assms(2)
    show "\<exists>b. gather_visit tp s k a = Inr b \<and> ?P b" by auto
  qed
  then show ?thesis by (auto simp: walk_ok_def)
qed

lemma gather_walk_total:
  assumes "walk_ok d queue t" "total_predicate tp"
  shows "\<exists>out' ft' t'. gather_walk tp d (queue, out, ft, t) = Inr (out', ft', t')
           \<and> walk_ok d [] t' \<and> (\<forall>a. is_full_cell t' a \<longleftrightarrow> is_full_cell t a)"
  using assms
proof (induction tp d "(queue, out, ft, t)" arbitrary: queue out ft t rule: gather_walk.induct)
  case (1 tp d queue out ft t)
  show ?case
  proof (cases queue)
    case Nil
    then show ?thesis using "1.prems"(1) by (subst gather_walk.simps) simp
  next
    case (Cons s rest)
    from gather_visits_total[where d = d and s = s and queue = rest and t = t and tp = tp and ft = ft]
      "1.prems" Cons
    obtain q1 f1 t1 where r: "for_range 0 d (gather_visit tp s) (rest, ft, t) = Inr (q1, f1, t1)"
      and ok: "walk_ok d q1 t1" and live: "\<forall>a. is_full_cell t1 a \<longleftrightarrow> is_full_cell t a" by auto
    from "1.hyps"[OF Cons r refl refl ok "1.prems"(2)] live
    show ?thesis using Cons r by (subst gather_walk.simps) simp
  qed
qed

lemma clear_visit_total:
  assumes "walk_ok d (s # queue) t" "0 \<le> i" "i \<le> d"
  shows "\<exists>queue' t'. clear_visit s i (queue, t) = Inr (queue', t') \<and> walk_ok d (s # queue') t'"
proof -
  have s: "is_full_cell t s" and ll: "live_links d t" and qs: "\<forall>q \<in> set queue. is_full_cell t q"
    using assms(1) by (auto simp: walk_ok_def)
  from ll s assms(2,3) obtain n where n: "nbr t s i = Inr n" "is_full_cell t n"
    unfolding live_links_def by blast
  from get_visited_total[OF n(2)] obtain vis where vis: "get_visited t n = Inr vis" by blast
  from n(1) obtain c where c: "get_cell t s = Inr c" "fc_neighbor c i = Inr n"
    by (auto simp: nbr_def)
  show ?thesis
  proof (cases vis)
    case False
    then have "clear_visit s i (queue, t) = Inr (queue, t)"
      using c vis by (simp add: clear_visit_def)
    then show ?thesis using assms(1) by simp
  next
    case True
    from set_visited_total[OF n(2)] obtain t1 where t1: "set_visited t n False = Inr t1" by blast
    have g: "clear_visit s i (queue, t) = Inr (queue @ [n], t1)"
      using c vis True t1 by (simp add: clear_visit_def)
    have "walk_ok d (s # (queue @ [n])) t1"
      using live_links_set_visited[OF t1 ll] s qs n(2)
      by (auto simp: walk_ok_def is_full_cell_set_visited[OF t1])
    then show ?thesis using g by blast
  qed
qed

lemma clear_visits_total:
  assumes "walk_ok d (s # queue) t"
  shows "\<exists>queue' t'. for_range 0 d (clear_visit s) (queue, t) = Inr (queue', t') \<and> walk_ok d queue' t'"
proof -
  let ?P = "\<lambda>st. case st of (q, u) \<Rightarrow> walk_ok d (s # q) u"
  have "\<exists>s'. for_range 0 d (clear_visit s) (queue, t) = Inr s' \<and> ?P s'"
  proof (rule for_range_total[where P = ?P])
    show "?P (queue, t)" using assms(1) by simp
  next
    fix k and a :: "Full_cell_handle list \<times> tds"
    assume k: "0 \<le> k" "k \<le> d" and a: "?P a"
    obtain q u where [simp]: "a = (q, u)" by (cases a)
    from clear_visit_total[where d = d and s = s and queue = q and t = u and i = k] a k
    show "\<exists>b. clear_visit s k a = Inr b \<and> ?P b" by auto
  qed
  then show ?thesis by (auto simp: walk_ok_def)
qed

lemma clear_walk_total:
  assumes "walk_ok d queue t"
  shows "\<exists>t'. clear_walk d (queue, t) = Inr t'"
  using assms
proof (induction d "(queue, t)" arbitrary: queue t rule: clear_walk.induct)
  case (1 d queue t)
  show ?case
  proof (cases queue)
    case Nil
    then show ?thesis by (subst clear_walk.simps) simp
  next
    case (Cons s rest)
    from clear_visits_total[where d = d and s = s and queue = rest and t = t] "1.prems" Cons
    obtain q1 t1 where r: "for_range 0 d (clear_visit s) (rest, t) = Inr (q1, t1)"
      and ok: "walk_ok d q1 t1" by auto
    from "1.hyps"[OF Cons r ok]
    show ?thesis using Cons r by (subst clear_walk.simps) simp
  qed
qed

lemma gather_full_cells_total:
  assumes "links_closed t" "is_full_cell t start" "total_predicate tp"
  shows "\<exists>r. gather_full_cells t start tp out = Inr r"
proof -
  let ?d = "current_dimension t"
  from set_visited_total[OF assms(2)] obtain t1 where t1: "set_visited t start True = Inr t1" by blast
  have d1: "current_dimension t1 = ?d" using t1 by (auto simp: set_visited_Inr current_dimension_def)
  have s1: "is_full_cell t1 start" using assms(2) by (simp add: is_full_cell_set_visited[OF t1])
  have "walk_ok ?d [start] t1"
    using live_links_set_visited[OF t1 links_closed_live_links[OF assms(1)]] s1
    by (simp add: walk_ok_def)
  from gather_walk_total[OF this assms(3), where out = out and ft = "(None, 0)"]
  obtain out' ft' t2 where t2: "gather_walk tp ?d ([start], out, (None, 0), t1) = Inr (out', ft', t2)"
    and ok2: "walk_ok ?d [] t2" and live2: "\<forall>a. is_full_cell t2 a \<longleftrightarrow> is_full_cell t1 a" by blast
  have s2: "is_full_cell t2 start" using live2 s1 by simp
  from set_visited_total[OF s2] obtain u0 where u0: "set_visited t2 start False = Inr u0" by blast
  have d0: "current_dimension u0 = ?d"
  proof -
    have "dcur t2 = dcur t1" using gather_walk_dcur[OF t2] .
    then show ?thesis using u0 d1 by (auto simp: set_visited_Inr current_dimension_def)
  qed
  have "walk_ok ?d [start] u0"
    using live_links_set_visited[OF u0] ok2 s2
    by (simp add: walk_ok_def is_full_cell_set_visited[OF u0])
  from clear_walk_total[OF this] obtain t3 where t3: "clear_walk ?d ([start], u0) = Inr t3" by blast
  have "start \<noteq> None" using assms(2) by (cases start) (simp_all add: is_full_cell_def)
  then have "clear_visited_marks t2 start = Inr t3"
    using u0 t3 d0 by (simp add: clear_visited_marks_def)
  then show ?thesis using t1 t2 d1 by (simp add: gather_full_cells_def)
qed

lemma gather_full_cells_all_clear:
  assumes "all_clear t" and "gather_full_cells t start tp out = Inr (ft, out', t')"
  shows "all_clear t'"
proof -
  let ?d = "current_dimension t"
  from assms(2) obtain t1 t2 where
    t1: "set_visited t start True = Inr t1"
    and t2: "gather_walk tp (current_dimension t1) ([start], out, (None, 0), t1) = Inr (out', ft, t2)"
    and t3: "clear_visited_marks t2 start = Inr t'"
    by (auto simp: gather_full_cells_def)
  have d1: "current_dimension t1 = ?d" using t1 by (auto simp: set_visited_Inr current_dimension_def)
  have m1: "\<And>a. marked t1 a \<longleftrightarrow> a = start"
    using marked_set_visited[OF t1] all_clear_not_marked[OF assms(1)] by auto
  have "gather_inv ?d start [start] t1"
    unfolding gather_inv_def
    using binary_set_visited[OF t1 all_clear_binary[OF assms(1)]] m1
    by (auto intro: reach.reach_start)
  from gather_walk_inv[OF t2[unfolded d1] this]
  have i2: "gather_inv ?d start [] t2" by simp
  from t3 obtain u0 where u0: "set_visited t2 start False = Inr u0"
    and w: "clear_walk (current_dimension u0) ([start], u0) = Inr t'"
    by (auto simp: clear_visited_marks_def split: if_splits)
  have d0: "current_dimension u0 = ?d"
  proof -
    have "dcur t2 = dcur t1" using gather_walk_dcur[OF t2] .
    then show ?thesis using u0 d1 by (auto simp: set_visited_Inr current_dimension_def)
  qed
  have m0: "\<And>a. marked u0 a \<longleftrightarrow> a \<noteq> start \<and> marked t2 a"
    using marked_set_visited[OF u0] by auto
  have b2: "binary_marks t2" and r2: "\<And>b. marked t2 b \<Longrightarrow> reach t2 ?d start b"
    using i2 by (simp_all add: gather_inv_def)
  have "clear_inv ?d start t2 (set [start]) u0"
  proof (rule clear_invI)
    show "binary_marks u0" using binary_set_visited[OF u0 b2] .
    show "nbr u0 b j = nbr t2 b j" for b j using nbr_set_visited[OF u0] .
    show "marked u0 b \<Longrightarrow> marked t2 b" for b using m0[of b] by simp
    show "\<not> marked u0 start" using m0[of start] by simp
  next
    fix a i b assume "marked t2 a" "\<not> marked u0 a" "a \<notin> set [start]"
    then have False using m0[of a] by simp
    then show "\<not> marked u0 b" ..
  qed
  from clear_walk_inv[OF w[unfolded d0] this]
  have c: "clear_inv ?d start t2 {} t'" .
  have "\<And>a. \<not> marked t' a"
  proof
    fix a assume a: "marked t' a"
    then have "marked t2 a" using clear_invD(3)[OF c] by simp
    then have "reach t2 ?d start a" using r2 by simp
    from clear_inv_final[OF c this] a show False by simp
  qed
  moreover have "binary_marks t'" using clear_invD(1)[OF c] .
  ultimately show ?thesis by (rule unmarked_all_clear[rotated])
qed


text \<open>
  C3: if all visited bits are 0 before the call, then for every start cell and traversal
  predicate every full cell's visited bit is 0 again when \<open>gather_full_cells\<close> has
  returned; and it does return when the neighbor slots of the triangulation hold full
  cells, \<open>start\<close> is a full cell and the predicate returns a value on every facet.
\<close>

theorem gather_full_cells_clears_marks:
  assumes "all_clear t"
  shows "(gather_full_cells t start tp out = Inr (ft, out', t') \<longrightarrow> all_clear t')
       \<and> (links_closed t \<and> is_full_cell t start \<and> total_predicate tp \<longrightarrow>
            (\<exists>r. gather_full_cells t start tp out = Inr r))"
  using gather_full_cells_all_clear [OF assms] gather_full_cells_total by blast

theorem gather_full_cells_clears_marks_witness:
  "all_clear triangle_tds \<and> links_closed triangle_tds \<and> is_full_cell triangle_tds (Some 1)
   \<and> total_predicate crosses_facet_zero
   \<and> gather_full_cells triangle_tds (Some 1) crosses_facet_zero []
       = Inr ((Some 1, 2), [Some 1, Some 0], triangle_tds)"
proof -
  have a: "all_clear triangle_tds" by code_simp
  have l: "links_closed triangle_tds" by code_simp
  have f: "is_full_cell triangle_tds (Some 1)" by code_simp
  have p: "total_predicate crosses_facet_zero"
    by (simp add: total_predicate_def crosses_facet_zero_def)
  have "\<exists>r. gather_full_cells triangle_tds (Some 1) crosses_facet_zero [] = Inr r"
    using gather_full_cells_clears_marks [OF a, of "Some 1" crosses_facet_zero "[]"] l f p by blast
  moreover have "gather_full_cells triangle_tds (Some 1) crosses_facet_zero []
       = Inr ((Some 1, 2), [Some 1, Some 0], triangle_tds)"
    by code_simp
  ultimately show ?thesis using a l f p by simp
qed

section \<open>C6: insertion in a full cell\<close>

subsection \<open>What the mutators change\<close>

lemma get_cell_update:
  "k < length (full_cells t) \<Longrightarrow>
   get_cell (t\<lparr>full_cells := (full_cells t)[k := Some c']\<rparr>) a = (if a = Some k then Inr c' else get_cell t a)"
  by (cases a) (auto simp: get_cell_def)

lemma slot_set_Inr: "slot_set xs i v = Inr ys \<longleftrightarrow> 0 \<le> i \<and> i < int (length xs) \<and> ys = xs[nat i := v]"
  by (auto simp: slot_set_def)

lemma slot_get_Inr: "slot_get xs i = Inr v \<longleftrightarrow> 0 \<le> i \<and> i < int (length xs) \<and> v = xs ! nat i"
  by (auto simp: slot_get_def)

lemma slot_get_update:
  "0 \<le> i \<Longrightarrow> slot_get (xs[nat i := v]) k = (if k = i \<and> i < int (length xs) then Inr v else slot_get xs k)"
  by (auto simp: slot_get_def nat_eq_iff)

lemma shape_is_full_cell:
  assumes "shape t' = shape t"
  shows "is_full_cell t' z = is_full_cell t z"
proof (cases z)
  case None
  then show ?thesis by (simp add: is_full_cell_def)
next
  case (Some n)
  let ?f = "map_option (\<lambda>c. (length (fc_vertices c), length (fc_neighbors c), length (fc_mirror_indices c)))"
  have m: "map ?f (full_cells t') = map ?f (full_cells t)" using assms by (simp add: shape_def)
  then have l: "length (full_cells t') = length (full_cells t)" by (rule map_eq_imp_length_eq)
  show ?thesis
  proof (cases "n < length (full_cells t)")
    case True
    have "map ?f (full_cells t') ! n = map ?f (full_cells t) ! n" by (simp only: m)
    then have "?f (full_cells t' ! n) = ?f (full_cells t ! n)"
      using True l by simp
    then have "full_cells t' ! n = None \<longleftrightarrow> full_cells t ! n = None"
      by (cases "full_cells t' ! n"; cases "full_cells t ! n") simp_all
    then show ?thesis using Some l by (simp add: is_full_cell_def)
  next
    case False
    then show ?thesis using Some l by (simp add: is_full_cell_def)
  qed
qed

lemma update_neighbor_effect:
  assumes "update_cell t x (fc_set_neighbor i y) = Inr t'"
  shows "nbr t' z k = (if z = x \<and> k = i then Inr y else nbr t z k)"
    and "mir t' z k = mir t z k" and "vtx t' z k = vtx t z k"
    and "shape t' = shape t" and "cell_vertices t' = cell_vertices t" and "vertices t' = vertices t"
proof -
  from assms obtain n c where n: "x = Some n" "n < length (full_cells t)" "full_cells t ! n = Some c"
    and i: "0 \<le> i" "i < int (length (fc_neighbors c))"
    and t': "t' = t\<lparr>full_cells := (full_cells t)[n := Some (c\<lparr>fc_neighbors := (fc_neighbors c)[nat i := y]\<rparr>)]\<rparr>"
    by (auto simp: update_cell_Inr fc_set_neighbor_def slot_set_Inr)
  have c: "get_cell t (Some n) = Inr c" using n by (simp add: get_cell_def)
  show "nbr t' z k = (if z = x \<and> k = i then Inr y else nbr t z k)"
    using n i c by (auto simp: nbr_def t' get_cell_update fc_neighbor_def slot_get_update)
  show "mir t' z k = mir t z k" "vtx t' z k = vtx t z k"
    using n i c by (auto simp: mir_def vtx_def t' get_cell_update fc_mirror_index_def fc_vertex_def)
  show "shape t' = shape t"
    using n by (simp add: shape_def t' map_update list_update_same_conv)
  show "cell_vertices t' = cell_vertices t"
    using n by (simp add: cell_vertices_def t' map_update list_update_same_conv)
  show "vertices t' = vertices t" by (simp add: t')
qed

lemma update_mirror_effect:
  assumes "update_cell t x (fc_set_mirror_index i j) = Inr t'"
  shows "mir t' z k = (if z = x \<and> k = i then Inr j else mir t z k)"
    and "nbr t' z k = nbr t z k" and "vtx t' z k = vtx t z k"
    and "shape t' = shape t" and "cell_vertices t' = cell_vertices t" and "vertices t' = vertices t"
proof -
  from assms obtain n c where n: "x = Some n" "n < length (full_cells t)" "full_cells t ! n = Some c"
    and i: "0 \<le> i" "i < int (length (fc_mirror_indices c))"
    and t': "t' = t\<lparr>full_cells := (full_cells t)[n := Some (c\<lparr>fc_mirror_indices := (fc_mirror_indices c)[nat i := j]\<rparr>)]\<rparr>"
    by (auto simp: update_cell_Inr fc_set_mirror_index_def slot_set_Inr)
  have c: "get_cell t (Some n) = Inr c" using n by (simp add: get_cell_def)
  show "mir t' z k = (if z = x \<and> k = i then Inr j else mir t z k)"
    using n i c by (auto simp: mir_def t' get_cell_update fc_mirror_index_def slot_get_update)
  show "nbr t' z k = nbr t z k" "vtx t' z k = vtx t z k"
    using n i c by (auto simp: nbr_def vtx_def t' get_cell_update fc_neighbor_def fc_vertex_def)
  show "shape t' = shape t"
    using n by (simp add: shape_def t' map_update list_update_same_conv)
  show "cell_vertices t' = cell_vertices t"
    using n by (simp add: cell_vertices_def t' map_update list_update_same_conv)
  show "vertices t' = vertices t" by (simp add: t')
qed

lemma update_vertex_slot_effect:
  assumes "update_cell t x (fc_set_vertex i v) = Inr t'"
  shows "vtx t' z k = (if z = x \<and> k = i then Inr v else vtx t z k)"
    and "nbr t' z k = nbr t z k" and "mir t' z k = mir t z k"
    and "shape t' = shape t" and "vertices t' = vertices t"
    and "\<exists>n vs. x = Some n \<and> n < length (cell_vertices t) \<and> cell_vertices t ! n = Some vs
           \<and> cell_vertices t' = (cell_vertices t)[n := Some (vs[nat i := v])]"
proof -
  from assms obtain n c where n: "x = Some n" "n < length (full_cells t)" "full_cells t ! n = Some c"
    and i: "0 \<le> i" "i < int (length (fc_vertices c))"
    and t': "t' = t\<lparr>full_cells := (full_cells t)[n := Some (c\<lparr>fc_vertices := (fc_vertices c)[nat i := v]\<rparr>)]\<rparr>"
    by (auto simp: update_cell_Inr fc_set_vertex_def slot_set_Inr)
  have c: "get_cell t (Some n) = Inr c" using n by (simp add: get_cell_def)
  show "vtx t' z k = (if z = x \<and> k = i then Inr v else vtx t z k)"
    using n i c by (auto simp: vtx_def t' get_cell_update fc_vertex_def slot_get_update)
  show "nbr t' z k = nbr t z k" "mir t' z k = mir t z k"
    using n i c by (auto simp: nbr_def mir_def t' get_cell_update fc_neighbor_def fc_mirror_index_def)
  show "shape t' = shape t"
    using n by (simp add: shape_def t' map_update list_update_same_conv)
  show "vertices t' = vertices t" by (simp add: t')
  show "\<exists>n vs. x = Some n \<and> n < length (cell_vertices t) \<and> cell_vertices t ! n = Some vs
           \<and> cell_vertices t' = (cell_vertices t)[n := Some (vs[nat i := v])]"
    using n by (auto simp: cell_vertices_def t' map_update)
qed

lemma set_neighbors_effect:
  assumes "set_neighbors t x i y j = Inr t'"
  shows "nbr t' z k = (if z = y \<and> k = j then Inr x else if z = x \<and> k = i then Inr y else nbr t z k)"
    and "mir t' z k = (if z = y \<and> k = j then Inr i else if z = x \<and> k = i then Inr j else mir t z k)"
    and "vtx t' z k = vtx t z k"
    and "shape t' = shape t" and "cell_vertices t' = cell_vertices t" and "vertices t' = vertices t"
proof -
  from assms obtain t1 t2 t3 where
    1: "update_cell t x (fc_set_neighbor i y) = Inr t1"
    and 2: "update_cell t1 y (fc_set_neighbor j x) = Inr t2"
    and 3: "update_cell t2 x (fc_set_mirror_index i j) = Inr t3"
    and 4: "update_cell t3 y (fc_set_mirror_index j i) = Inr t'"
    by (auto simp: set_neighbors_def split: if_splits)
  note e1 = update_neighbor_effect[OF 1] and e2 = update_neighbor_effect[OF 2]
    and e3 = update_mirror_effect[OF 3] and e4 = update_mirror_effect[OF 4]
  show "nbr t' z k = (if z = y \<and> k = j then Inr x else if z = x \<and> k = i then Inr y else nbr t z k)"
    by (simp add: e4(2) e3(2) e2(1) e1(1))
  show "mir t' z k = (if z = y \<and> k = j then Inr i else if z = x \<and> k = i then Inr j else mir t z k)"
    by (simp add: e4(1) e3(1) e2(2) e1(2))
  show "vtx t' z k = vtx t z k" by (simp add: e4(3) e3(3) e2(3) e1(3))
  show "shape t' = shape t" by (simp add: e4(4) e3(4) e2(4) e1(4))
  show "cell_vertices t' = cell_vertices t" by (simp add: e4(5) e3(5) e2(5) e1(5))
  show "vertices t' = vertices t" by (simp add: e4(6) e3(6) e2(6) e1(6))
qed

lemma shape_get_cell:
  assumes "shape t' = shape t" "get_cell t z = Inr c"
  shows "\<exists>c'. get_cell t' z = Inr c' \<and> length (fc_vertices c') = length (fc_vertices c)
            \<and> length (fc_neighbors c') = length (fc_neighbors c)
            \<and> length (fc_mirror_indices c') = length (fc_mirror_indices c)"
proof -
  let ?f = "map_option (\<lambda>c. (length (fc_vertices c), length (fc_neighbors c), length (fc_mirror_indices c)))"
  from assms(2) obtain n where n: "z = Some n" "n < length (full_cells t)" "full_cells t ! n = Some c"
    by (auto simp: get_cell_Inr)
  have m: "map ?f (full_cells t') = map ?f (full_cells t)" using assms(1) by (simp add: shape_def)
  then have l: "length (full_cells t') = length (full_cells t)" by (rule map_eq_imp_length_eq)
  have "map ?f (full_cells t') ! n = map ?f (full_cells t) ! n" by (simp only: m)
  then have "?f (full_cells t' ! n) = ?f (full_cells t ! n)" using n l by simp
  then obtain c' where "full_cells t' ! n = Some c'" "length (fc_vertices c') = length (fc_vertices c)"
    "length (fc_neighbors c') = length (fc_neighbors c)"
    "length (fc_mirror_indices c') = length (fc_mirror_indices c)"
    using n(3) by (cases "full_cells t' ! n") auto
  then show ?thesis using n l by (auto simp: get_cell_Inr)
qed

lemma shape_sized:
  assumes "shape t' = shape t" "sized t"
  shows "sized t'"
  unfolding sized_def
proof (intro allI impI)
  fix z c' assume c': "get_cell t' z = Inr c'"
  from shape_get_cell[OF assms(1)[symmetric] c'] obtain c where
    "get_cell t z = Inr c" "length (fc_vertices c) = length (fc_vertices c')"
    "length (fc_neighbors c) = length (fc_neighbors c')"
    "length (fc_mirror_indices c) = length (fc_mirror_indices c')" by blast
  moreover have "dmax t' = dmax t" using assms(1) by (simp add: shape_def)
  ultimately show "fc_sized c' (dmax t')" using assms(2) by (auto simp: sized_def fc_sized_def)
qed

lemma shape_dims: "shape t' = shape t \<Longrightarrow> dcur t' = dcur t \<and> dmax t' = dmax t
    \<and> length (full_cells t') = length (full_cells t)"
  by (auto simp: shape_def dest: map_eq_imp_length_eq)

lemma is_full_cell_not_None: "is_full_cell t x \<Longrightarrow> x \<noteq> None"
  by (cases x) (simp_all add: is_full_cell_def)

lemma update_cell_total:
  assumes "get_cell t z = Inr c" "f c = Inr c'"
  shows "\<exists>t'. update_cell t z f = Inr t'"
  using assms by (auto simp: update_cell_Inr get_cell_Inr)

lemma sized_slot:
  assumes "sized t" "get_cell t z = Inr c" "0 \<le> i" "i \<le> dmax t"
  shows "i < int (length (fc_vertices c))" "i < int (length (fc_neighbors c))"
    "i < int (length (fc_mirror_indices c))"
  using assms by (auto simp: sized_def fc_sized_def)

lemma set_neighbors_total:
  assumes "well_linked d t" "is_full_cell t x" "is_full_cell t y" "0 \<le> i" "i \<le> d" "0 \<le> j" "j \<le> d"
  shows "\<exists>t'. set_neighbors t x i y j = Inr t'"
proof -
  have d: "dcur t = d" "0 < d" "d \<le> dmax t" and sz: "sized t" using assms(1) by (auto simp: well_linked_def)
  have xy: "x \<noteq> None" "y \<noteq> None" using assms(2,3) by (auto dest: is_full_cell_not_None)
  have cr: "check_range t i" "check_range t j" using assms(4-7) d by (auto simp: check_range_def)
  have im: "i \<le> dmax t" "j \<le> dmax t" using assms(5,7) d by auto
  from assms(2) obtain cx where cx: "get_cell t x = Inr cx" by (auto simp: is_full_cell_iff)
  have "\<exists>c'. fc_set_neighbor i y cx = Inr c'"
    using sized_slot[OF sz cx assms(4) im(1)] assms(4) by (simp add: fc_set_neighbor_def slot_set_def)
  from update_cell_total[OF cx] this obtain t1 where 1: "update_cell t x (fc_set_neighbor i y) = Inr t1"
    by blast
  note e1 = update_neighbor_effect[OF 1]
  have sz1: "sized t1" using shape_sized[OF e1(4) sz] .
  have d1: "dmax t1 = dmax t" using shape_dims[OF e1(4)] by simp
  have l1: "is_full_cell t1 z = is_full_cell t z" for z using shape_is_full_cell[OF e1(4)] .
  have "is_full_cell t1 y" using assms(3) l1 by simp
  then obtain cy where cy: "get_cell t1 y = Inr cy" unfolding is_full_cell_iff by blast
  have "\<exists>c'. fc_set_neighbor j x cy = Inr c'"
    using sized_slot[OF sz1 cy assms(6)] im(2) d1 assms(6) by (simp add: fc_set_neighbor_def slot_set_def)
  from update_cell_total[OF cy] this obtain t2 where 2: "update_cell t1 y (fc_set_neighbor j x) = Inr t2"
    by blast
  note e2 = update_neighbor_effect[OF 2]
  have sz2: "sized t2" using shape_sized[OF e2(4) sz1] .
  have d2: "dmax t2 = dmax t" using shape_dims[OF e2(4)] d1 by simp
  have l2: "is_full_cell t2 z = is_full_cell t z" for z using shape_is_full_cell[OF e2(4)] l1 by simp
  have "is_full_cell t2 x" using assms(2) l2 by simp
  then obtain cx2 where cx2: "get_cell t2 x = Inr cx2" unfolding is_full_cell_iff by blast
  have "\<exists>c'. fc_set_mirror_index i j cx2 = Inr c'"
    using sized_slot[OF sz2 cx2 assms(4)] im(1) d2 assms(4) by (simp add: fc_set_mirror_index_def slot_set_def)
  from update_cell_total[OF cx2] this obtain t3 where 3: "update_cell t2 x (fc_set_mirror_index i j) = Inr t3"
    by blast
  note e3 = update_mirror_effect[OF 3]
  have sz3: "sized t3" using shape_sized[OF e3(4) sz2] .
  have d3: "dmax t3 = dmax t" using shape_dims[OF e3(4)] d2 by simp
  have l3: "is_full_cell t3 z = is_full_cell t z" for z using shape_is_full_cell[OF e3(4)] l2 by simp
  have "is_full_cell t3 y" using assms(3) l3 by simp
  then obtain cy3 where cy3: "get_cell t3 y = Inr cy3" unfolding is_full_cell_iff by blast
  have "\<exists>c'. fc_set_mirror_index j i cy3 = Inr c'"
    using sized_slot[OF sz3 cy3 assms(6)] im(2) d3 assms(6) by (simp add: fc_set_mirror_index_def slot_set_def)
  from update_cell_total[OF cy3] this obtain t4 where 4: "update_cell t3 y (fc_set_mirror_index j i) = Inr t4"
    by blast
  show ?thesis using cr xy 1 2 3 4 by (simp add: set_neighbors_def)
qed

lemma set_neighbors_well_linked:
  assumes "set_neighbors t x i y j = Inr t'" "well_linked d t" "is_full_cell t x" "is_full_cell t y"
    "0 \<le> i" "i \<le> d" "0 \<le> j" "j \<le> d"
  shows "well_linked d t'"
proof -
  note e = set_neighbors_effect[OF assms(1)]
  have live: "is_full_cell t' z = is_full_cell t z" for z using shape_is_full_cell[OF e(4)] .
  have "live_links d t'"
    unfolding live_links_def
  proof (intro allI impI)
    fix s k assume h: "is_full_cell t' s \<and> 0 \<le> k \<and> k \<le> d"
    then obtain n where "nbr t s k = Inr n" "is_full_cell t n"
      using assms(2) live unfolding well_linked_def live_links_def by blast
    then show "\<exists>n. nbr t' s k = Inr n \<and> is_full_cell t' n"
      using assms(3,4) by (simp add: e(1) live)
  qed
  moreover have "mirrors_ok d t'"
    unfolding mirrors_ok_def
  proof (intro allI impI)
    fix s k assume h: "is_full_cell t' s \<and> 0 \<le> k \<and> k \<le> d"
    then obtain m where "mir t s k = Inr m" "0 \<le> m" "m \<le> d"
      using assms(2) live unfolding well_linked_def mirrors_ok_def by blast
    then show "\<exists>m. mir t' s k = Inr m \<and> 0 \<le> m \<and> m \<le> d"
      using assms(5-8) by (simp add: e(2))
  qed
  ultimately show ?thesis
    using assms(2) shape_sized[OF e(4)] shape_dims[OF e(4)] by (simp add: well_linked_def)
qed

lemma is_vertex_liveness:
  assumes "vertex_liveness t' = vertex_liveness t"
  shows "is_vertex t' w = is_vertex t w"
proof (cases w)
  case None
  then show ?thesis by (simp add: is_vertex_def)
next
  case (Some n)
  have l: "length (vertices t') = length (vertices t)"
    using assms unfolding vertex_liveness_def by (rule map_eq_imp_length_eq)
  show ?thesis
  proof (cases "n < length (vertices t)")
    case True
    have "map (\<lambda>x. x = None) (vertices t') ! n = map (\<lambda>x. x = None) (vertices t) ! n"
      using assms by (simp add: vertex_liveness_def)
    then have "(vertices t' ! n = None) = (vertices t ! n = None)" using True l by simp
    then show ?thesis using Some l by (simp add: is_vertex_def)
  next
    case False
    then show ?thesis using Some l by (simp add: is_vertex_def)
  qed
qed

lemma same_cells:
  assumes "full_cells t' = full_cells t" "dcur t' = dcur t" "dmax t' = dmax t"
  shows "get_cell t' z = get_cell t z" "nbr t' z k = nbr t z k" "mir t' z k = mir t z k"
    "vtx t' z k = vtx t z k" "is_full_cell t' z = is_full_cell t z" "shape t' = shape t"
    "cell_vertices t' = cell_vertices t" "well_linked d t' = well_linked d t"
proof -
  have g: "get_cell t' z = get_cell t z" for z by (cases z) (simp_all add: get_cell_def assms(1))
  show "get_cell t' z = get_cell t z" using g .
  show n: "nbr t' z k = nbr t z k" for z k by (simp add: nbr_def g)
  show m: "mir t' z k = mir t z k" for z k by (simp add: mir_def g)
  show "vtx t' z k = vtx t z k" by (simp add: vtx_def g)
  show f: "is_full_cell t' z = is_full_cell t z" for z by (cases z) (simp_all add: is_full_cell_def assms(1))
  show "shape t' = shape t" by (simp add: shape_def assms)
  show "cell_vertices t' = cell_vertices t" by (simp add: cell_vertices_def assms)
  show "well_linked d t' = well_linked d t"
    by (simp add: well_linked_def sized_def live_links_def mirrors_ok_def g n m f assms)
qed

lemma set_full_cell_effect:
  assumes "set_full_cell t w z = Inr t'"
  shows "full_cells t' = full_cells t" "dcur t' = dcur t" "dmax t' = dmax t"
    "vertex_liveness t' = vertex_liveness t"
proof -
  from assms obtain n x where n: "w = Some n" "n < length (vertices t)" "vertices t ! n = Some x"
    and t': "t' = t\<lparr>vertices := (vertices t)[n := Some (x\<lparr>v_full_cell := z\<rparr>)]\<rparr>"
    by (auto simp: set_full_cell_def update_vertex_def get_vertex_def split: option.splits if_splits)
  show "full_cells t' = full_cells t" "dcur t' = dcur t" "dmax t' = dmax t" by (simp_all add: t')
  show "vertex_liveness t' = vertex_liveness t"
    using n by (simp add: vertex_liveness_def t' map_update list_update_same_conv)
qed

lemma set_full_cell_total:
  assumes "is_vertex t w"
  shows "\<exists>t'. set_full_cell t w z = Inr t'"
proof (cases w)
  case None
  then show ?thesis using assms by (simp add: is_vertex_def)
next
  case (Some n)
  then obtain x where "n < length (vertices t)" "vertices t ! n = Some x"
    using assms by (auto simp: is_vertex_def)
  then show ?thesis using Some by (simp add: set_full_cell_def update_vertex_def get_vertex_def)
qed

lemma associate_effect:
  assumes "associate_vertex_with_full_cell t s i v = Inr t'"
  shows "vtx t' z k = (if z = s \<and> k = i then Inr v else vtx t z k)"
    and "nbr t' z k = nbr t z k" and "mir t' z k = mir t z k"
    and "shape t' = shape t" and "vertex_liveness t' = vertex_liveness t"
    and "\<exists>n vs. s = Some n \<and> n < length (cell_vertices t) \<and> cell_vertices t ! n = Some vs
           \<and> cell_vertices t' = (cell_vertices t)[n := Some (vs[nat i := v])]"
    and "well_linked d t' = well_linked d t"
proof -
  from assms obtain t1 where 1: "update_cell t s (fc_set_vertex i v) = Inr t1"
    and 2: "set_full_cell t1 v s = Inr t'"
    by (auto simp: associate_vertex_with_full_cell_def split: if_splits)
  note e1 = update_vertex_slot_effect[OF 1] and e2 = set_full_cell_effect[OF 2]
  note sc = same_cells[OF e2(1,2,3)]
  show "vtx t' z k = (if z = s \<and> k = i then Inr v else vtx t z k)" by (simp add: sc(4) e1(1))
  show "nbr t' z k = nbr t z k" by (simp add: sc(2) e1(2))
  show "mir t' z k = mir t z k" by (simp add: sc(3) e1(3))
  show sh: "shape t' = shape t" by (simp add: sc(6) e1(4))
  show "vertex_liveness t' = vertex_liveness t" using e2(4) e1(5) by (simp add: vertex_liveness_def)
  show "\<exists>n vs. s = Some n \<and> n < length (cell_vertices t) \<and> cell_vertices t ! n = Some vs
           \<and> cell_vertices t' = (cell_vertices t)[n := Some (vs[nat i := v])]"
    using e1(6) by (simp add: sc(7))
  have live: "is_full_cell t1 z = is_full_cell t z" for z using shape_is_full_cell[OF e1(4)] .
  have "well_linked d t1 = well_linked d t"
    using shape_dims[OF e1(4)] shape_sized[OF e1(4)] shape_sized[OF e1(4)[symmetric]]
    by (auto simp: well_linked_def live_links_def mirrors_ok_def e1(2) e1(3) live)
  then show "well_linked d t' = well_linked d t" by (simp add: sc(8))
qed

lemma associate_total:
  assumes "well_linked d t" "is_full_cell t s" "0 \<le> i" "i \<le> d" "is_vertex t v"
  shows "\<exists>t'. associate_vertex_with_full_cell t s i v = Inr t'"
proof -
  have d: "dcur t = d" "0 < d" "d \<le> dmax t" and sz: "sized t" using assms(1) by (auto simp: well_linked_def)
  have cr: "check_range t i" using assms(3,4) d by (auto simp: check_range_def)
  have nn: "s \<noteq> None" "v \<noteq> None"
    using assms(2,5) by (auto simp: is_vertex_def is_full_cell_def split: option.splits)
  from assms(2) obtain c where c: "get_cell t s = Inr c" unfolding is_full_cell_iff by blast
  have im: "i \<le> dmax t" using assms(4) d by simp
  have "\<exists>c'. fc_set_vertex i v c = Inr c'"
    using sized_slot[OF sz c assms(3) im] assms(3) by (simp add: fc_set_vertex_def slot_set_def)
  from update_cell_total[OF c] this obtain t1 where 1: "update_cell t s (fc_set_vertex i v) = Inr t1"
    by blast
  have "vertex_liveness t1 = vertex_liveness t"
    using update_vertex_slot_effect(5)[OF 1] by (simp add: vertex_liveness_def)
  from is_vertex_liveness[OF this] have "is_vertex t1 v" using assms(5) by simp
  from set_full_cell_total[OF this] obtain t' where "set_full_cell t1 v s = Inr t'" by blast
  then show ?thesis using cr nn 1 by (simp add: associate_vertex_with_full_cell_def)
qed

lemma new_full_cell_copy_effect:
  assumes "new_full_cell_copy t s = Inr (h, t')"
  shows "h = Some (length (full_cells t))"
    and "\<exists>c. get_cell t s = Inr c \<and> t' = t\<lparr>full_cells := full_cells t @ [Some c]\<rparr>
           \<and> cell_vertices t' = cell_vertices t @ [Some (fc_vertices c)]"
    and "get_cell t' z = (if z = h then get_cell t s else get_cell t z)"
    and "nbr t' z k = (if z = h then nbr t s k else nbr t z k)"
    and "mir t' z k = (if z = h then mir t s k else mir t z k)"
    and "vtx t' z k = (if z = h then vtx t s k else vtx t z k)"
    and "is_full_cell t' z \<longleftrightarrow> z = h \<or> is_full_cell t z"
    and "vertices t' = vertices t" and "dcur t' = dcur t" and "dmax t' = dmax t"
    and "length (full_cells t') = length (full_cells t) + 1"
proof -
  from assms obtain c where c: "get_cell t s = Inr c"
    and h: "h = Some (length (full_cells t))" and t': "t' = t\<lparr>full_cells := full_cells t @ [Some c]\<rparr>"
    by (auto simp: new_full_cell_copy_def)
  show "h = Some (length (full_cells t))" using h .
  show "\<exists>c. get_cell t s = Inr c \<and> t' = t\<lparr>full_cells := full_cells t @ [Some c]\<rparr>
           \<and> cell_vertices t' = cell_vertices t @ [Some (fc_vertices c)]"
    using c t' by (simp add: cell_vertices_def)
  show g: "get_cell t' z = (if z = h then get_cell t s else get_cell t z)" for z
  proof (cases z)
    case None
    then show ?thesis by (simp add: get_cell_def h)
  next
    case (Some n)
    consider "n < length (full_cells t)" | "n = length (full_cells t)" | "n > length (full_cells t)"
      by linarith
    then show ?thesis
      using c by cases (simp_all add: get_cell_def Some h t' nth_append)
  qed
  show "nbr t' z k = (if z = h then nbr t s k else nbr t z k)" by (simp add: nbr_def g)
  show "mir t' z k = (if z = h then mir t s k else mir t z k)" by (simp add: mir_def g)
  show "vtx t' z k = (if z = h then vtx t s k else vtx t z k)" by (simp add: vtx_def g)
  show "is_full_cell t' z \<longleftrightarrow> z = h \<or> is_full_cell t z"
    using c by (auto simp: is_full_cell_iff g)
  show "vertices t' = vertices t" "dcur t' = dcur t" "dmax t' = dmax t"
    "length (full_cells t') = length (full_cells t) + 1" by (simp_all add: t')
qed

lemma new_full_cell_copy_well_linked:
  assumes "new_full_cell_copy t s = Inr (h, t')" "well_linked d t"
  shows "well_linked d t'"
proof -
  note e = new_full_cell_copy_effect[OF assms(1)]
  from e(2) obtain c where c: "get_cell t s = Inr c" by blast
  then have s: "is_full_cell t s" unfolding is_full_cell_iff by blast
  have I: "dcur t = d" "0 < d" "d \<le> dmax t" "sized t" "live_links d t" "mirrors_ok d t"
    using assms(2) by (auto simp: well_linked_def)
  have "sized t'"
    unfolding sized_def using I(4) c by (auto simp: e(3) e(10) sized_def)
  moreover have "live_links d t'"
    unfolding live_links_def
  proof (intro allI impI)
    fix z k assume h: "is_full_cell t' z \<and> 0 \<le> k \<and> k \<le> d"
    let ?z = "if z = h then s else z"
    have "is_full_cell t ?z" using h s by (auto simp: e(7))
    then obtain n where "nbr t ?z k = Inr n" "is_full_cell t n"
      using I(5) h unfolding live_links_def by blast
    then show "\<exists>n. nbr t' z k = Inr n \<and> is_full_cell t' n"
      by (auto simp: e(4) e(7))
  qed
  moreover have "mirrors_ok d t'"
    unfolding mirrors_ok_def
  proof (intro allI impI)
    fix z k assume h: "is_full_cell t' z \<and> 0 \<le> k \<and> k \<le> d"
    let ?z = "if z = h then s else z"
    have "is_full_cell t ?z" using h s by (auto simp: e(7))
    then obtain m where "mir t ?z k = Inr m" "0 \<le> m" "m \<le> d"
      using I(6) h unfolding mirrors_ok_def by blast
    then show "\<exists>m. mir t' z k = Inr m \<and> 0 \<le> m \<and> m \<le> d"
      by (auto simp: e(5))
  qed
  ultimately show ?thesis using I by (simp add: well_linked_def e(9) e(10))
qed

lemma get_cell_cell_vertices:
  assumes "get_cell t (Some n) = Inr c"
  shows "n < length (full_cells t)" "cell_vertices t ! n = Some (fc_vertices c)"
  using assms by (auto simp: get_cell_def cell_vertices_def split: if_splits option.splits)

lemma is_full_cell_cell_vertices:
  "is_full_cell t (Some n) \<longleftrightarrow> n < length (cell_vertices t) \<and> cell_vertices t ! n \<noteq> None"
  by (auto simp: is_full_cell_def cell_vertices_def)

subsection \<open>The first loop: the copies of the cell\<close>

lemma liveness_length:
  assumes "vertex_liveness u = vertex_liveness t @ [False]"
  shows "length (vertices u) = length (vertices t) + 1"
proof -
  have "length (vertex_liveness u) = length (vertex_liveness t @ [False])" by (simp only: assms)
  then show ?thesis by (simp add: vertex_liveness_def)
qed

lemma liveness_nth:
  assumes "vertex_liveness u = vertex_liveness t @ [False]" "n < length (vertices u)"
  shows "(vertices u ! n = None) = ((vertex_liveness t @ [False]) ! n)"
proof -
  have "vertex_liveness u ! n = (vertex_liveness t @ [False]) ! n" by (simp only: assms(1))
  then show ?thesis using assms(2) by (simp add: vertex_liveness_def)
qed

lemma liveness_new:
  assumes "vertex_liveness u = vertex_liveness t @ [False]"
  shows "is_vertex u (Some (length (vertices t)))"
proof -
  have l: "length (vertices t) < length (vertices u)" using liveness_length[OF assms] by simp
  have "(vertices u ! length (vertices t) = None) = ((vertex_liveness t @ [False]) ! length (vertices t))"
    using liveness_nth[OF assms l] .
  also have "\<dots> = False" by (simp add: nth_append vertex_liveness_def)
  finally show ?thesis using l by (simp add: is_vertex_def)
qed

lemma liveness_old:
  assumes "vertex_liveness u = vertex_liveness t @ [False]" "is_vertex t w"
  shows "is_vertex u w"
proof -
  from assms(2) obtain n where n: "w = Some n" "n < length (vertices t)" "vertices t ! n \<noteq> None"
    by (cases w) (auto simp: is_vertex_def)
  have l: "n < length (vertices u)" using liveness_length[OF assms(1)] n(2) by simp
  have "(vertices u ! n = None) = ((vertex_liveness t @ [False]) ! n)"
    using liveness_nth[OF assms(1) l] .
  also have "\<dots> = False" using n by (simp add: nth_append vertex_liveness_def)
  finally show ?thesis using l n(1) by (simp add: is_vertex_def)
qed

lemma clone_full_cell_step:
  assumes inv: "clone_inv t s v d k (fc, u)" and k: "1 \<le> k" "k \<le> d"
    and s: "is_full_cell t s" and lv: "live_vertices d t s" and v: "v = Some (length (vertices t))"
  shows "\<exists>b. clone_full_cell s v k (fc, u) = Inr b \<and> clone_inv t s v d (k + 1) b"
proof -
  let ?L = "length (full_cells t)"
  from inv have I: "well_linked d u" and dm: "dmax u = dmax t" and lf: "length fc = nat (dmax t + 1)"
    and fcs: "\<And>j. 1 \<le> j \<Longrightarrow> j < k \<Longrightarrow> fc ! nat j = cone_cell s ?L j"
    and cv: "cell_vertices u = cell_vertices t @ map (coned t s v) [1..k - 1]"
    and vl: "vertex_liveness u = vertex_liveness t @ [False]"
    and vx: "\<And>j. vtx u s j = vtx t s j"
    by (simp_all add: clone_inv_def)
  have d: "dcur u = d" "0 < d" "d \<le> dmax u" using I by (auto simp: well_linked_def)
  from s obtain ns where ns: "s = Some ns" "ns < ?L" "full_cells t ! ns \<noteq> None"
    by (cases s) (auto simp: is_full_cell_def)
  have lu: "length (full_cells u) = ?L + nat (k - 1)"
  proof -
    have "length (cell_vertices u) = length (cell_vertices t) + length [1..k - 1]" by (simp add: cv)
    then show ?thesis using k by (simp add: cell_vertices_def)
  qed
  have "ns < length (cell_vertices t)" using ns by (simp add: cell_vertices_def)
  then have cvs: "cell_vertices u ! ns = cell_vertices t ! ns"
    by (simp add: cv nth_append)
  have "is_full_cell t (Some ns)" using s ns(1) by simp
  then have su: "is_full_cell u s"
    unfolding ns(1) is_full_cell_cell_vertices using cvs lu ns(2) by (simp add: cell_vertices_def)
  then obtain c where c: "get_cell u s = Inr c" unfolding is_full_cell_iff by blast
  define h where "h = Some (length (full_cells u))"
  define u1 where "u1 = u\<lparr>full_cells := full_cells u @ [Some c]\<rparr>"
  have 1: "new_full_cell_copy u s = Inr (h, u1)"
    by (simp add: new_full_cell_copy_def c h_def u1_def)
  note e1 = new_full_cell_copy_effect[OF 1]
  have I1: "well_linked d u1" using new_full_cell_copy_well_linked[OF 1 I] .
  have sh: "s \<noteq> h" using ns lu by (simp add: h_def)
  have 2: "slot_set fc k h = Inr (fc[nat k := h])" using k d dm lf by (simp add: slot_set_def)
  have h1: "is_full_cell u1 h" by (simp add: e1(7))
  have vl1: "vertex_liveness u1 = vertex_liveness t @ [False]"
    using vl by (simp add: vertex_liveness_def e1(8))
  have v1: "is_vertex u1 v" unfolding v using liveness_new[OF vl1] .
  have k0: "0 \<le> k" using k by simp
  from associate_total[OF I1 h1 k0 k(2) v1]
  obtain u2 where 3: "associate_vertex_with_full_cell u1 h k v = Inr u2" by blast
  note e2 = associate_effect[OF 3]
  have I2: "well_linked d u2" using e2(7)[of d] I1 by simp
  have live2: "is_full_cell u2 z = is_full_cell u1 z" for z using shape_is_full_cell[OF e2(4)] .
  have vx2: "vtx u2 s j = vtx t s j" for j using sh by (simp add: e2(1) e1(6) vx)
  have "is_full_cell u2 s" by (simp add: live2 e1(7) su)
  then obtain c2 where c2: "get_cell u2 s = Inr c2" unfolding is_full_cell_iff by blast
  have "0 \<le> k - 1 \<and> k - 1 < d" using k by simp
  with lv obtain w where w: "vtx t s (k - 1) = Inr w" "is_vertex t w"
    unfolding live_vertices_def by blast
  have 4: "fc_vertex c2 (k - 1) = Inr w" using vx2[of "k - 1"] w(1) c2 by (simp add: vtx_def)
  have vl2: "vertex_liveness u2 = vertex_liveness t @ [False]" using e2(5) vl1 by simp
  have "is_vertex u2 w" using liveness_old[OF vl2 w(2)] .
  from set_full_cell_total[OF this] obtain u3 where 5: "set_full_cell u2 w h = Inr u3" by blast
  note e3 = set_full_cell_effect[OF 5]
  note sc3 = same_cells[OF e3(1,2,3)]
  have I3: "well_linked d u3" using sc3(8)[of d] I2 by simp
  have live3: "is_full_cell u3 z \<longleftrightarrow> z = h \<or> is_full_cell u z" for z
    by (simp add: sc3(5) live2 e1(7))
  have s3: "is_full_cell u3 s" "is_full_cell u3 h" by (simp_all add: live3 su)
  have ll: "live_links d u3" "mirrors_ok d u3" "dcur u3 = d" using I3 by (auto simp: well_linked_def)
  have kr: "is_full_cell u3 s \<and> 0 \<le> k \<and> k \<le> d" using s3 k by simp
  from ll(1) kr obtain n where n: "nbr u3 s k = Inr n" "is_full_cell u3 n"
    unfolding live_links_def by blast
  from ll(2) kr obtain mi where mi: "mir u3 s k = Inr mi" "0 \<le> mi" "mi \<le> d"
    unfolding mirrors_ok_def by blast
  have cr: "check_range u3 k" using k ll(3) d(2) by (simp add: check_range_def)
  have 6: "neighbor u3 s k = Inr n" using n(1) cr ns(1) by (simp add: neighbor_def nbr_def)
  have 7: "mirror_index u3 s k = Inr mi" using mi(1) cr ns(1) by (simp add: mirror_index_def mir_def)
  from set_neighbors_total[OF I3 s3(2) n(2) k0 k(2) mi(2,3)]
  obtain u4 where 8: "set_neighbors u3 h k n mi = Inr u4" by blast
  note e4 = set_neighbors_effect[OF 8]
  have I4: "well_linked d u4" using set_neighbors_well_linked[OF 8 I3 s3(2) n(2) k0 k(2) mi(2,3)] .
  have res: "clone_full_cell s v k (fc, u) = Inr (fc[nat k := h], u4)"
    using 1 2 3 c2 4 5 6 7 8 by (simp add: clone_full_cell_def)
  have dm4: "dmax u4 = dmax t"
    using shape_dims[OF e4(4)] shape_dims[OF e2(4)] e3(3) e1(10) dm by simp
  have fc4: "(fc[nat k := h]) ! nat j = cone_cell s ?L j" if "1 \<le> j" "j < k + 1" for j
  proof (cases "j = k")
    case True
    have "nat k < length fc" using k d dm lf by simp
    then show ?thesis using True k lu by (simp add: h_def cone_cell_def nat_diff_distrib)
  next
    case False
    then have "nat j \<noteq> nat k" using that k by simp
    then show ?thesis using fcs[of j] that False by simp
  qed
  have cv4: "cell_vertices u4 = cell_vertices t @ map (coned t s v) [1..k]"
  proof -
    from e1(2) c have cv1: "cell_vertices u1 = cell_vertices u @ [Some (fc_vertices c)]" by auto
    from e2(6) obtain n' vs where n': "h = Some n'" "cell_vertices u1 ! n' = Some vs"
      "cell_vertices u2 = (cell_vertices u1)[n' := Some (vs[nat k := v])]" by blast
    have n'l: "n' = length (cell_vertices u)" using n'(1) by (simp add: h_def cell_vertices_def)
    have vs: "vs = fc_vertices c" using n'(2) by (simp add: cv1 n'l)
    have "cell_vertices t ! ns = Some (fc_vertices c)"
      using get_cell_cell_vertices[OF c[unfolded ns(1)]] cvs by simp
    then have cn: "coned t s v k = Some ((fc_vertices c)[nat k := v])" by (simp add: coned_def ns(1))
    have "cell_vertices u2 = cell_vertices u @ [coned t s v k]" using n'(3) by (simp add: cv1 n'l vs cn)
    moreover have "[1..k] = [1..k - 1] @ [k]" using k(1) by (rule upto_rec2)
    ultimately show ?thesis by (simp add: e4(5) sc3(7) cv)
  qed
  have "vertex_liveness u4 = vertex_liveness u3" by (simp add: vertex_liveness_def e4(6))
  then have vl4: "vertex_liveness u4 = vertex_liveness t @ [False]" using vl2 e3(4) by simp
  have vx4: "vtx u4 s j = vtx t s j" for j by (simp add: e4(3) sc3(4) vx2)
  show ?thesis using res I4 dm4 lf fc4 cv4 vl4 vx4 by (simp add: clone_inv_def)
qed

lemma for_range_total_indexed:
  assumes "P i s" and "\<And>k a. i \<le> k \<Longrightarrow> k \<le> n \<Longrightarrow> P k a \<Longrightarrow> \<exists>b. body k a = Inr b \<and> P (k + 1) b"
  shows "\<exists>s'. for_range i n body s = Inr s' \<and> P (if i \<le> n then n + 1 else i) s'"
  using assms
proof (induction i n body s rule: for_range.induct)
  case (1 i n body s)
  show ?case
  proof (cases "i \<le> n")
    case True
    then obtain s1 where b: "body i s = Inr s1" and p: "P (i + 1) s1"
      using "1.prems"(2)[of i s] "1.prems"(1) by auto
    have "\<exists>s'. for_range (i + 1) n body s1 = Inr s' \<and> P (if i + 1 \<le> n then n + 1 else i + 1) s'"
    proof (rule "1.IH"[OF True b p])
      fix k a assume "i + 1 \<le> k" "k \<le> n" "P k a"
      then show "\<exists>b. body k a = Inr b \<and> P (k + 1) b" using "1.prems"(2)[of k a] by simp
    qed
    moreover have "(if i + 1 \<le> n then n + 1 else i + 1) = n + 1" using True by auto
    ultimately show ?thesis using True b by (subst for_range.simps) simp
  next
    case False
    then show ?thesis using "1.prems"(1) by (subst for_range.simps) simp
  qed
qed

subsection \<open>The double loop: the links between the cells of the cone\<close>

lemma cross_invI:
  assumes "well_linked d u" "shape u = shape t3" "cell_vertices u = cell_vertices t3" "vertices u = vertices t3"
    and "\<And>a b. 0 \<le> a \<Longrightarrow> a \<le> d \<Longrightarrow> 0 \<le> b \<Longrightarrow> b \<le> d \<Longrightarrow> a \<noteq> b
           \<Longrightarrow> a < i \<or> (a = i \<and> b < j) \<Longrightarrow> linked s L u a b"
  shows "cross_inv t3 s L d i j u"
proof -
  have "\<forall>a b. 0 \<le> a \<and> a \<le> d \<and> 0 \<le> b \<and> b \<le> d \<and> a \<noteq> b \<and> (a < i \<or> (a = i \<and> b < j))
          \<longrightarrow> linked s L u a b"
  proof (intro allI impI)
    fix a b assume h: "0 \<le> a \<and> a \<le> d \<and> 0 \<le> b \<and> b \<le> d \<and> a \<noteq> b \<and> (a < i \<or> (a = i \<and> b < j))"
    have 1: "0 \<le> a" "a \<le> d" "0 \<le> b" "b \<le> d" "a \<noteq> b" "a < i \<or> (a = i \<and> b < j)"
      using h by simp_all
    show "linked s L u a b" using assms(5)[OF 1] .
  qed
  then show ?thesis using assms(1-4) by (simp only: cross_inv_def simp_thms)
qed

lemma cross_invD:
  assumes "cross_inv t3 s L d i j u"
  shows "well_linked d u" "shape u = shape t3" "cell_vertices u = cell_vertices t3" "vertices u = vertices t3"
    and "\<And>a b. 0 \<le> a \<Longrightarrow> a \<le> d \<Longrightarrow> 0 \<le> b \<Longrightarrow> b \<le> d \<Longrightarrow> a \<noteq> b
           \<Longrightarrow> a < i \<or> (a = i \<and> b < j) \<Longrightarrow> linked s L u a b"
proof -
  show "well_linked d u" "shape u = shape t3" "cell_vertices u = cell_vertices t3" "vertices u = vertices t3"
    using assms by (simp_all only: cross_inv_def)
  fix a b assume r: "0 \<le> a" "a \<le> d" "0 \<le> b" "b \<le> d" "a \<noteq> b" "a < i \<or> (a = i \<and> b < j)"
  from assms have "\<forall>a b. 0 \<le> a \<and> a \<le> d \<and> 0 \<le> b \<and> b \<le> d \<and> a \<noteq> b \<and> (a < i \<or> (a = i \<and> b < j))
          \<longrightarrow> linked s L u a b" unfolding cross_inv_def by (elim conjE)
  then have "0 \<le> a \<and> a \<le> d \<and> 0 \<le> b \<and> b \<le> d \<and> a \<noteq> b \<and> (a < i \<or> (a = i \<and> b < j))
          \<longrightarrow> linked s L u a b" by (elim allE)
  then show "linked s L u a b" using r by simp
qed

lemma cone_okD:
  assumes "cone_ok t3 s L d fc"
  shows "\<And>k. 0 \<le> k \<Longrightarrow> k \<le> d \<Longrightarrow> slot_get fc k = Inr (cone_cell s L k)"
    and "\<And>k. 0 \<le> k \<Longrightarrow> k \<le> d \<Longrightarrow> is_full_cell t3 (cone_cell s L k)"
    and "\<And>a b. 0 \<le> a \<Longrightarrow> a \<le> d \<Longrightarrow> 0 \<le> b \<Longrightarrow> b \<le> d \<Longrightarrow> cone_cell s L a = cone_cell s L b \<Longrightarrow> a = b"
proof -
  have A: "\<forall>k. 0 \<le> k \<and> k \<le> d \<longrightarrow> slot_get fc k = Inr (cone_cell s L k) \<and> is_full_cell t3 (cone_cell s L k)"
    using assms[unfolded cone_ok_def] by (rule conjunct1)
  have B: "\<forall>a b. 0 \<le> a \<and> a \<le> d \<and> 0 \<le> b \<and> b \<le> d \<and> cone_cell s L a = cone_cell s L b \<longrightarrow> a = b"
    using assms[unfolded cone_ok_def] by (rule conjunct2)
  show "slot_get fc k = Inr (cone_cell s L k)" if "0 \<le> k" "k \<le> d" for k
    using A[rule_format, of k] that by simp
  show "is_full_cell t3 (cone_cell s L k)" if "0 \<le> k" "k \<le> d" for k
    using A[rule_format, of k] that by simp
  show "a = b" if "0 \<le> a" "a \<le> d" "0 \<le> b" "b \<le> d" "cone_cell s L a = cone_cell s L b" for a b
    using B[rule_format, of a b] that by simp
qed

lemma cross_link_step:
  assumes inv: "cross_inv t3 s L d i j u" and ij: "0 \<le> i" "i \<le> d" "0 \<le> j" "j \<le> d"
    and ok: "cone_ok t3 s L d fc"
  shows "\<exists>u'. cross_link fc i j u = Inr u' \<and> cross_inv t3 s L d i (j + 1) u'"
proof (cases "j = i")
  case True
  note D = cross_invD[OF inv]
  have "cross_inv t3 s L d i (j + 1) u"
  proof (rule cross_invI[OF D(1-4)])
    fix a b assume r: "0 \<le> a" "a \<le> d" "0 \<le> b" "b \<le> d" "a \<noteq> b" "a < i \<or> (a = i \<and> b < j + 1)"
    have "a < i \<or> (a = i \<and> b < j)" using r(5,6) True by auto
    then show "linked s L u a b" using D(5)[OF r(1-5)] by simp
  qed
  then show ?thesis using True by (simp add: cross_link_def)
next
  case False
  let ?C = "cone_cell s L"
  note I = cross_invD(1)[OF inv] and sh = cross_invD(2)[OF inv] and cv = cross_invD(3)[OF inv]
    and vs = cross_invD(4)[OF inv] and lk = cross_invD(5)[OF inv]
  note get = cone_okD(1)[OF ok] and live3 = cone_okD(2)[OF ok] and inj = cone_okD(3)[OF ok]
  have live: "is_full_cell u z = is_full_cell t3 z" for z using shape_is_full_cell[OF sh] .
  have li: "is_full_cell u (?C i)" and lj: "is_full_cell u (?C j)"
    using live3 ij by (simp_all add: live)
  from set_neighbors_total[OF I li lj ij(3,4) ij(1,2)]
  obtain u' where 1: "set_neighbors u (?C i) j (?C j) i = Inr u'" by blast
  note e = set_neighbors_effect[OF 1]
  have I': "well_linked d u'" using set_neighbors_well_linked[OF 1 I li lj ij(3,4) ij(1,2)] .
  have res: "cross_link fc i j u = Inr u'"
    using False get[OF ij(1,2)] get[OF ij(3,4)] 1 by (simp add: cross_link_def)
  have nij: "?C i \<noteq> ?C j" using inj[OF ij(1,2) ij(3,4)] False by auto
  have nb: "nbr u' z k = (if z = ?C j \<and> k = i then Inr (?C i) else if z = ?C i \<and> k = j then Inr (?C j) else nbr u z k)" for z k
    using e(1)[of z k] .
  have mr: "mir u' z k = (if z = ?C j \<and> k = i then Inr j else if z = ?C i \<and> k = j then Inr i else mir u z k)" for z k
    using e(2)[of z k] .
  have l1: "linked s L u' i j"
  proof -
    have "nbr u' (?C i) j = Inr (?C j)" by (subst nb) (simp add: nij)
    moreover have "mir u' (?C i) j = Inr i" by (subst mr) (simp add: nij)
    ultimately show ?thesis by (simp only: linked_def simp_thms)
  qed
  have l2: "linked s L u' j i"
  proof -
    have "nbr u' (?C j) i = Inr (?C i)" by (subst nb) simp
    moreover have "mir u' (?C j) i = Inr j" by (subst mr) simp
    ultimately show ?thesis by (simp only: linked_def simp_thms)
  qed
  have lk': "linked s L u' a b"
    if r: "0 \<le> a" "a \<le> d" "0 \<le> b" "b \<le> d" "a \<noteq> b" and c: "a < i \<or> (a = i \<and> b < j + 1)" for a b
  proof -
    consider (x) "a = i \<and> b = j" | (y) "a = j \<and> b = i"
      | (z) "\<not> (a = i \<and> b = j) \<and> \<not> (a = j \<and> b = i)" by blast
    then show ?thesis
    proof cases
      case x
      then have "a = i" "b = j" by simp_all
      then show ?thesis using l1 by (simp only:)
    next
      case y
      then have "a = j" "b = i" by simp_all
      then show ?thesis using l2 by (simp only:)
    next
      case z
      have "a < i \<or> (a = i \<and> b < j)" using c z by arith
      then have old: "linked s L u a b" by (rule lk[OF r])
      have n1: "\<not> (?C a = ?C j \<and> b = i)"
      proof
        assume h: "?C a = ?C j \<and> b = i"
        then have "?C a = ?C j" by (rule conjunct1)
        then have "a = j" by (rule inj[OF r(1,2) ij(3,4)])
        moreover have "b = i" using h by (rule conjunct2)
        ultimately show False using z by simp
      qed
      have n2: "\<not> (?C a = ?C i \<and> b = j)"
      proof
        assume h: "?C a = ?C i \<and> b = j"
        then have "?C a = ?C i" by (rule conjunct1)
        then have "a = i" by (rule inj[OF r(1,2) ij(1,2)])
        moreover have "b = j" using h by (rule conjunct2)
        ultimately show False using z by simp
      qed
      have "nbr u' (?C a) b = nbr u (?C a) b" by (subst nb) (simp only: n1 n2 if_False)
      moreover have "mir u' (?C a) b = mir u (?C a) b" by (subst mr) (simp only: n1 n2 if_False)
      ultimately show ?thesis using old by (simp only: linked_def)
    qed
  qed
  have "cross_inv t3 s L d i (j + 1) u'"
  proof (rule cross_invI)
    show "well_linked d u'" using I' .
    show "shape u' = shape t3" by (simp add: e(4) sh)
    show "cell_vertices u' = cell_vertices t3" by (simp add: e(5) cv)
    show "vertices u' = vertices t3" by (simp add: e(6) vs)
  next
    fix a b assume r: "0 \<le> a" "a \<le> d" "0 \<le> b" "b \<le> d" "a \<noteq> b" "a < i \<or> (a = i \<and> b < j + 1)"
    show "linked s L u' a b" using lk'[OF r] .
  qed
  then show ?thesis using res by blast
qed

lemma cross_link_row:
  assumes inv: "cross_inv t3 s L d i 0 u" and i: "0 \<le> i" "i \<le> d" and ok: "cone_ok t3 s L d fc"
  shows "\<exists>u'. for_range 0 d (cross_link fc i) u = Inr u' \<and> cross_inv t3 s L d (i + 1) 0 u'"
proof -
  have "\<exists>u'. for_range 0 d (cross_link fc i) u = Inr u'
          \<and> cross_inv t3 s L d i (if 0 \<le> d then d + 1 else 0) u'"
  proof (rule for_range_total_indexed[where P = "cross_inv t3 s L d i"])
    show "cross_inv t3 s L d i 0 u" using inv .
  next
    fix k a assume k: "0 \<le> k" "k \<le> d" and c: "cross_inv t3 s L d i k a"
    show "\<exists>b. cross_link fc i k a = Inr b \<and> cross_inv t3 s L d i (k + 1) b"
      using cross_link_step[OF c i k ok] .
  qed
  then obtain u' where r: "for_range 0 d (cross_link fc i) u = Inr u'"
    and c: "cross_inv t3 s L d i (d + 1) u'" using i by auto
  note D = cross_invD[OF c]
  have "cross_inv t3 s L d (i + 1) 0 u'"
  proof (rule cross_invI[OF D(1-4)])
    fix a b assume r: "0 \<le> a" "a \<le> d" "0 \<le> b" "b \<le> d" "a \<noteq> b" "a < i + 1 \<or> (a = i + 1 \<and> b < 0)"
    have "a < i \<or> (a = i \<and> b < d + 1)" using r by auto
    then show "linked s L u' a b" using D(5)[OF r(1-5)] by simp
  qed
  then show ?thesis using r by blast
qed

lemma cross_link_all:
  assumes inv: "cross_inv t3 s L d 0 0 u" and d: "0 \<le> d" and ok: "cone_ok t3 s L d fc"
  shows "\<exists>u'. for_range 0 d (\<lambda>i. for_range 0 d (cross_link fc i)) u = Inr u'
           \<and> cross_inv t3 s L d (d + 1) 0 u'"
proof -
  have "\<exists>u'. for_range 0 d (\<lambda>i. for_range 0 d (cross_link fc i)) u = Inr u'
          \<and> cross_inv t3 s L d (if 0 \<le> d then d + 1 else 0) 0 u'"
  proof (rule for_range_total_indexed[where P = "\<lambda>i. cross_inv t3 s L d i 0"])
    show "cross_inv t3 s L d 0 0 u" using inv .
  next
    fix k a assume k: "0 \<le> k" "k \<le> d" and c: "cross_inv t3 s L d k 0 a"
    show "\<exists>b. for_range 0 d (cross_link fc k) a = Inr b \<and> cross_inv t3 s L d (k + 1) 0 b"
      using cross_link_row[OF c k ok] .
  qed
  then show ?thesis using d by simp
qed

subsection \<open>The whole function\<close>

lemma clone_inv_live:
  assumes inv: "clone_inv t s v d i (fc, u)" and s: "is_full_cell t s" and i: "1 \<le> i"
  shows "is_full_cell u s"
    and "\<And>k. 1 \<le> k \<Longrightarrow> k < i \<Longrightarrow> is_full_cell u (cone_cell s (length (full_cells t)) k)"
    and "length (full_cells u) = length (full_cells t) + nat (i - 1)"
proof -
  let ?L = "length (full_cells t)"
  from inv have cv: "cell_vertices u = cell_vertices t @ map (coned t s v) [1..i - 1]"
    by (simp add: clone_inv_def)
  from s obtain ns where ns: "s = Some ns" "ns < ?L" "full_cells t ! ns \<noteq> None"
    by (cases s) (auto simp: is_full_cell_def)
  have lt: "length (cell_vertices t) = ?L" by (simp add: cell_vertices_def)
  have lcu: "length (cell_vertices u) = ?L + nat (i - 1)" using i by (simp add: cv lt)
  then show lu: "length (full_cells u) = ?L + nat (i - 1)" by (simp add: cell_vertices_def)
  have cvs: "cell_vertices u ! ns = cell_vertices t ! ns" using ns(2) by (simp add: cv nth_append lt)
  have tn: "cell_vertices t ! ns \<noteq> None" using ns(2,3) by (simp add: cell_vertices_def)
  show "is_full_cell u s"
    unfolding ns(1) is_full_cell_cell_vertices using cvs tn lcu ns(2) by simp
  show "is_full_cell u (cone_cell s ?L k)" if k: "1 \<le> k" "k < i" for k
  proof -
    have c: "cone_cell s ?L k = Some (?L + (nat k - 1))" using k by (simp add: cone_cell_def)
    have 1: "?L + (nat k - 1) < length (cell_vertices u)" using k lcu by simp
    have 2: "1 + int (nat k - 1) \<le> i - 1" using k by simp
    have "cell_vertices u ! (?L + (nat k - 1)) = map (coned t s v) [1..i - 1] ! (nat k - 1)"
      by (simp add: cv nth_append lt)
    also have "\<dots> = coned t s v ([1..i - 1] ! (nat k - 1))"
      using k by (intro nth_map) simp
    also have "[1..i - 1] ! (nat k - 1) = 1 + int (nat k - 1)" using 2 by (rule nth_upto)
    finally have "cell_vertices u ! (?L + (nat k - 1)) \<noteq> None"
      using tn by (simp add: coned_def ns(1))
    then show ?thesis unfolding c is_full_cell_cell_vertices using 1 by simp
  qed
qed

lemma clone_loop:
  assumes I: "well_linked d t" and s: "is_full_cell t s" and lv: "live_vertices d t s"
    and v: "v = Some (length (vertices t))"
    and t1: "t1 = t\<lparr>vertices := vertices t @ [Some \<lparr> v_full_cell = None \<rparr>]\<rparr>"
  shows "\<exists>fc1 t2. for_range 1 d (clone_full_cell s v) (replicate (nat (dmax t + 1)) None, t1) = Inr (fc1, t2)
           \<and> clone_inv t s v d (d + 1) (fc1, t2)"
proof -
  have d: "0 < d" using I by (simp add: well_linked_def)
  have f: "full_cells t1 = full_cells t" "dcur t1 = dcur t" "dmax t1 = dmax t" by (simp_all add: t1)
  note sc = same_cells[OF f]
  have vl: "vertex_liveness t1 = vertex_liveness t @ [False]" by (simp add: vertex_liveness_def t1)
  have I1: "well_linked d t1" using I by (simp add: sc(8))
  have 0: "clone_inv t s v d 1 (replicate (nat (dmax t + 1)) None, t1)"
    unfolding clone_inv_def using I1 vl by (auto simp: sc(4) sc(7) f(3))
  have "\<exists>b. for_range 1 d (clone_full_cell s v) (replicate (nat (dmax t + 1)) None, t1) = Inr b
          \<and> clone_inv t s v d (if 1 \<le> d then d + 1 else 1) b"
  proof (rule for_range_total_indexed[where P = "clone_inv t s v d"])
    show "clone_inv t s v d 1 (replicate (nat (dmax t + 1)) None, t1)" using 0 .
  next
    fix k and a :: "Full_cell_handle list \<times> tds"
    assume k: "1 \<le> k" "k \<le> d" and a: "clone_inv t s v d k a"
    obtain fc u where au: "a = (fc, u)" by (cases a)
    show "\<exists>b. clone_full_cell s v k a = Inr b \<and> clone_inv t s v d (k + 1) b"
      unfolding au using clone_full_cell_step[OF a[unfolded au] k s lv v] .
  qed
  then obtain b where b: "for_range 1 d (clone_full_cell s v) (replicate (nat (dmax t + 1)) None, t1) = Inr b"
    "clone_inv t s v d (d + 1) b" using d by auto
  obtain fc1 t2 where "b = (fc1, t2)" by (cases b)
  then show ?thesis using b by simp
qed

lemma cone_cell_inj:
  assumes s: "is_full_cell t s" and r: "0 \<le> a" "0 \<le> b"
    and e: "cone_cell s (length (full_cells t)) a = cone_cell s (length (full_cells t)) b"
  shows "a = b"
proof -
  from s obtain ns where ns: "s = Some ns" "ns < length (full_cells t)"
    by (cases s) (auto simp: is_full_cell_def)
  show ?thesis
  proof (cases "a = 0")
    case True
    then show ?thesis using e ns r by (cases "b = 0") (auto simp: cone_cell_def)
  next
    case False
    then show ?thesis using e ns r by (cases "b = 0") (auto simp: cone_cell_def)
  qed
qed

lemma insert_in_full_cell_coning:
  assumes I: "well_linked d t" and s: "is_full_cell t s" and lv: "live_vertices d t s"
    and v: "v = Some (length (vertices t))"
  shows "\<exists>t'. insert_in_full_cell t s = Inr (v, t')
           \<and> well_linked d t'
           \<and> vertex_liveness t' = vertex_liveness t @ [False]
           \<and> cell_vertices t' = (cell_vertices t)[the s := coned t s v 0] @ map (coned t s v) [1..d]
           \<and> cross_inv t' s (length (full_cells t)) d (d + 1) 0 t'"
proof -
  let ?L = "length (full_cells t)"
  let ?C = "cone_cell s ?L"
  define t1 where "t1 = t\<lparr>vertices := vertices t @ [Some \<lparr> v_full_cell = None \<rparr>]\<rparr>"
  have d: "dcur t = d" "0 < d" "d \<le> dmax t" using I by (auto simp: well_linked_def)
  from s obtain ns where ns: "s = Some ns" "ns < ?L" "full_cells t ! ns \<noteq> None"
    by (cases s) (auto simp: is_full_cell_def)
  from clone_loop[OF I s lv v t1_def] obtain fc1 t2 where
    1: "for_range 1 d (clone_full_cell s v) (replicate (nat (dmax t + 1)) None, t1) = Inr (fc1, t2)"
    and c: "clone_inv t s v d (d + 1) (fc1, t2)" by blast
  from c have I2: "well_linked d t2" and lf: "length fc1 = nat (dmax t + 1)"
    and fcs: "\<And>k. 1 \<le> k \<Longrightarrow> k < d + 1 \<Longrightarrow> fc1 ! nat k = ?C k"
    and cv2: "cell_vertices t2 = cell_vertices t @ map (coned t s v) [1..d]"
    and vl2: "vertex_liveness t2 = vertex_liveness t @ [False]"
    by (simp_all add: clone_inv_def)
  have d1: "1 \<le> d + 1" using d by simp
  note lv2 = clone_inv_live[OF c s d1]
  have 2: "slot_set fc1 0 s = Inr (fc1[0 := s])" using lf d by (simp add: slot_set_def)
  have v2: "is_vertex t2 v" unfolding v using liveness_new[OF vl2] .
  have z: "(0::int) \<le> 0" "0 \<le> d" using d by simp_all
  from associate_total[OF I2 lv2(1) z v2]
  obtain t3 where 3: "associate_vertex_with_full_cell t2 s 0 v = Inr t3" by blast
  note e3 = associate_effect[OF 3]
  have I3: "well_linked d t3" using e3(7)[of d] I2 by simp
  have live3: "is_full_cell t3 z = is_full_cell t2 z" for z using shape_is_full_cell[OF e3(4)] .
  have ok: "cone_ok t3 s ?L d (fc1[0 := s])"
    unfolding cone_ok_def
  proof (intro conjI allI impI)
    fix k assume k: "0 \<le> k \<and> k \<le> d"
    have kl: "k < int (length (fc1[0 := s]))" using k d lf by simp
    show "slot_get (fc1[0 := s]) k = Inr (?C k)"
    proof (cases "k = 0")
      case True
      then show ?thesis using kl by (simp add: slot_get_def cone_cell_def)
    next
      case False
      then have "nat k \<noteq> 0" "1 \<le> k" "k < d + 1" using k by simp_all
      then show ?thesis using kl k fcs[of k] by (simp add: slot_get_def)
    qed
    show "is_full_cell t3 (?C k)"
    proof (cases "k = 0")
      case True
      then show ?thesis using lv2(1) by (simp add: live3 cone_cell_def)
    next
      case False
      then have "1 \<le> k" "k < d + 1" using k by simp_all
      then show ?thesis using lv2(2)[of k] by (simp add: live3)
    qed
  next
    fix a b assume h: "0 \<le> a \<and> a \<le> d \<and> 0 \<le> b \<and> b \<le> d \<and> ?C a = ?C b"
    then have "0 \<le> a" "0 \<le> b" "?C a = ?C b" by simp_all
    then show "a = b" by (rule cone_cell_inj[OF s])
  qed
  have x0: "cross_inv t3 s ?L d 0 0 t3"
  proof (rule cross_invI[OF I3 refl refl refl])
    fix a b :: int assume "0 \<le> a" "0 \<le> b" "a < 0 \<or> (a = 0 \<and> b < 0)"
    then have False by arith
    then show "linked s ?L t3 a b" ..
  qed
  from cross_link_all[OF x0 z(2) ok] obtain t4 where
    4: "for_range 0 d (\<lambda>i. for_range 0 d (cross_link (fc1[0 := s]) i)) t3 = Inr t4"
    and x: "cross_inv t3 s ?L d (d + 1) 0 t4" by blast
  note D = cross_invD[OF x]
  have res: "insert_in_full_cell t s = Inr (v, t4)"
    using d ns(1) 1 2 3 4
    by (simp add: insert_in_full_cell_def current_dimension_def ambient_dimension_def
        new_vertex_def v t1_def)
  have "vertex_liveness t4 = vertex_liveness t3" by (simp add: vertex_liveness_def D(4))
  then have vl4: "vertex_liveness t4 = vertex_liveness t @ [False]" using e3(5) vl2 by simp
  have cv4: "cell_vertices t4 = (cell_vertices t)[the s := coned t s v 0] @ map (coned t s v) [1..d]"
  proof -
    from e3(6) obtain n vs where n: "s = Some n" "cell_vertices t2 ! n = Some vs"
      "cell_vertices t3 = (cell_vertices t2)[n := Some (vs[nat 0 := v])]" by blast
    have nn: "n = ns" using n(1) ns(1) by simp
    have lt: "ns < length (cell_vertices t)" using ns(2) by (simp add: cell_vertices_def)
    have "cell_vertices t ! ns = Some vs" using n(2) lt by (simp add: cv2 nth_append nn)
    then have cn: "coned t s v 0 = Some (vs[0 := v])" by (simp add: coned_def ns(1))
    have "cell_vertices t3 = (cell_vertices t @ map (coned t s v) [1..d])[ns := coned t s v 0]"
      using n(3) by (simp add: cv2 nn cn)
    also have "\<dots> = (cell_vertices t)[ns := coned t s v 0] @ map (coned t s v) [1..d]"
      using lt by (rule list_update_append1)
    finally show ?thesis by (simp add: D(3) ns(1))
  qed
  have x4: "cross_inv t4 s ?L d (d + 1) 0 t4"
    by (rule cross_invI[OF D(1) refl refl refl]) (rule D(5))
  show ?thesis using res D(1) vl4 cv4 x4 by blast
qed

subsection \<open>The result in terms of the queries of the container\<close>

lemma get_cell_mem:
  assumes "get_cell t s = Inr c"
  shows "Some c \<in> set (full_cells t)"
  using assms by (auto simp: get_cell_Inr dest: nth_mem)

lemma cells_sized_sized:
  assumes "cells_sized t"
  shows "sized t"
  unfolding sized_def
proof (intro allI impI)
  fix z c assume "get_cell t z = Inr c"
  then have "Some c \<in> set (full_cells t)" by (rule get_cell_mem)
  with assms have "case Some c of None \<Rightarrow> True | Some c \<Rightarrow> fc_sized c (ambient_dimension t)"
    unfolding cells_sized_def by (rule bspec)
  then show "fc_sized c (dmax t)" by (simp add: ambient_dimension_def)
qed

lemma mirrors_in_range_ok:
  assumes "mirrors_in_range t"
  shows "mirrors_ok (dcur t) t"
  unfolding mirrors_ok_def
proof (intro allI impI)
  fix s i assume h: "is_full_cell t s \<and> 0 \<le> i \<and> i \<le> dcur t"
  then obtain c where c: "get_cell t s = Inr c" by (auto simp: is_full_cell_iff)
  then have m: "Some c \<in> set (full_cells t)" by (rule get_cell_mem)
  have "case Some c of None \<Rightarrow> True
      | Some c \<Rightarrow> (\<forall>i \<in> set [0..dcur t].
          case fc_mirror_index c i of Inl e \<Rightarrow> False
          | Inr m \<Rightarrow> 0 \<le> m \<and> m \<le> dcur t)"
    using assms m unfolding mirrors_in_range_def current_dimension_def by (rule bspec)
  then have a: "\<forall>i \<in> set [0..dcur t].
          case fc_mirror_index c i of Inl e \<Rightarrow> False | Inr m \<Rightarrow> 0 \<le> m \<and> m \<le> dcur t"
    by (simp only: option.case)
  have "i \<in> set [0..dcur t]" using h by simp
  with a have "case fc_mirror_index c i of Inl e \<Rightarrow> False | Inr m \<Rightarrow> 0 \<le> m \<and> m \<le> dcur t"
    by (rule bspec)
  then show "\<exists>m. mir t s i = Inr m \<and> 0 \<le> m \<and> m \<le> dcur t"
    using c by (cases "fc_mirror_index c i") (simp_all add: mir_def)
qed

lemma vertices_live_live:
  assumes "vertices_live t s" "0 \<le> dcur t"
  shows "live_vertices (dcur t) t s"
  unfolding live_vertices_def
proof (intro allI impI)
  fix k assume k: "0 \<le> k \<and> k < dcur t"
  then have "k \<in> set [0..current_dimension t - 1]" by (simp add: current_dimension_def)
  with assms(1) have a: "case vertex t s k of Inl e \<Rightarrow> False | Inr w \<Rightarrow> is_vertex t w"
    unfolding vertices_live_def by (rule bspec)
  then obtain w where w: "vertex t s k = Inr w" "is_vertex t w"
    by (cases "vertex t s k") simp_all
  have "vtx t s k = Inr w"
    using w(1) by (simp add: vertex_def vtx_def split: if_splits)
  then show "\<exists>w. vtx t s k = Inr w \<and> is_vertex t w" using w(2) by blast
qed

lemma well_formed_well_linked:
  assumes "0 < current_dimension t" "current_dimension t \<le> ambient_dimension t"
    "cells_sized t" "links_closed t" "mirrors_in_range t"
  shows "well_linked (dcur t) t"
  unfolding well_linked_def
  using assms(1,2) cells_sized_sized[OF assms(3)] links_closed_live_links[OF assms(4)]
    mirrors_in_range_ok[OF assms(5)]
  by (simp add: current_dimension_def ambient_dimension_def)

lemma number_of_full_cells_cell_vertices:
  "number_of_full_cells t = length (filter (\<lambda>x. x \<noteq> None) (cell_vertices t))"
proof -
  have "filter (\<lambda>x. x \<noteq> None) (map (map_option fc_vertices) xs)
      = map (map_option fc_vertices) (filter (\<lambda>x. x \<noteq> None) xs)" for xs :: "Full_cell option list"
    by (induction xs) simp_all
  then show ?thesis by (simp add: number_of_full_cells_def cell_vertices_def)
qed

lemma number_of_vertices_liveness:
  "number_of_vertices t = length (filter (\<lambda>b. \<not> b) (vertex_liveness t))"
proof -
  have "filter (\<lambda>b. \<not> b) (map (\<lambda>x. x = None) xs) = map (\<lambda>x. x = None) (filter (\<lambda>x. x \<noteq> None) xs)"
    for xs :: "Vertex option list"
    by (induction xs) simp_all
  then show ?thesis by (simp add: number_of_vertices_def vertex_liveness_def)
qed

lemma vertices_of_cell_vertices:
  "vertices_of t (Some n) =
     (if n < length (cell_vertices t)
      then (case cell_vertices t ! n of None \<Rightarrow> Inl Invalid_handle | Some vs \<Rightarrow> Inr vs)
      else Inl Invalid_handle)"
  by (simp add: vertices_of_def get_cell_def cell_vertices_def split: option.splits)

lemma filter_all_length:
  assumes "\<And>x. x \<in> set xs \<Longrightarrow> P x"
  shows "length (filter P xs) = length xs"
  using assms by (induction xs) simp_all

text \<open>
  C6: in a triangulation of current dimension \<open>d \<ge> 1\<close> whose full cells have \<open>dmax + 1\<close>
  slots, whose neighbor slots \<open>0 .. d\<close> hold full cells and whose mirror indices lie in
  \<open>0 .. d\<close>, \<open>insert_in_full_cell(s)\<close> on a full cell \<open>s\<close> whose vertices \<open>0 .. d - 1\<close> are
  vertices of the triangulation returns a vertex \<open>v\<close> that was not a vertex before; the
  number of vertices grows by 1 and the number of full cells by \<open>d\<close>; the cells
  \<open>cone_cell s L 1 .. cone_cell s L d\<close> are new; the cell \<open>cone_cell s L i\<close>, which is \<open>s\<close>
  for \<open>i = 0\<close>, has the vertices \<open>s\<close> had, with \<open>v\<close> in slot \<open>i\<close>; for \<open>i \<noteq> j\<close> the
  neighbor \<open>j\<close> of \<open>cone_cell s L i\<close> is \<open>cone_cell s L j\<close>, with mirror index \<open>i\<close>; and the
  vertices of every other full cell are unchanged.
\<close>

theorem insert_in_full_cell_cones:
  assumes "0 < current_dimension t" "current_dimension t \<le> ambient_dimension t"
    and "cells_sized t" "links_closed t" "mirrors_in_range t"
    and "is_full_cell t s" "vertices_live t s"
  shows "\<exists>t'. insert_in_full_cell t s = Inr (fst (new_vertex t), t')
     \<and> \<not> is_vertex t (fst (new_vertex t)) \<and> is_vertex t' (fst (new_vertex t))
     \<and> number_of_vertices t' = number_of_vertices t + 1
     \<and> number_of_full_cells t' = number_of_full_cells t + nat (current_dimension t)
     \<and> (\<forall>i. 1 \<le> i \<and> i \<le> current_dimension t \<longrightarrow>
          \<not> is_full_cell t (cone_cell s (length (full_cells t)) i))
     \<and> (\<forall>i. 0 \<le> i \<and> i \<le> current_dimension t \<longrightarrow>
          vertices_of t' (cone_cell s (length (full_cells t)) i)
            = bind_r (vertices_of t s) (\<lambda>vs. Inr (vs[nat i := fst (new_vertex t)])))
     \<and> (\<forall>i j. 0 \<le> i \<and> i \<le> current_dimension t \<and> 0 \<le> j \<and> j \<le> current_dimension t \<and> i \<noteq> j \<longrightarrow>
          neighbor t' (cone_cell s (length (full_cells t)) i) j
            = Inr (cone_cell s (length (full_cells t)) j)
          \<and> mirror_index t' (cone_cell s (length (full_cells t)) i) j = Inr i)
     \<and> (\<forall>z. is_full_cell t z \<and> z \<noteq> s \<longrightarrow> vertices_of t' z = vertices_of t z)"
proof -
  let ?d = "dcur t"
  let ?L = "length (full_cells t)"
  let ?C = "cone_cell s ?L"
  define v where "v = fst (new_vertex t)"
  have v: "v = Some (length (vertices t))" by (simp add: v_def new_vertex_def)
  have cd: "current_dimension t = ?d" by (simp add: current_dimension_def)
  have I: "well_linked ?d t" using well_formed_well_linked[OF assms(1-5)] .
  have d: "0 < ?d" using assms(1) by (simp add: current_dimension_def)
  then have d0: "0 \<le> ?d" by simp
  have lv: "live_vertices ?d t s" using vertices_live_live[OF assms(7) d0] .
  note s = assms(6)
  from insert_in_full_cell_coning[OF I s lv v] obtain t' where
    res: "insert_in_full_cell t s = Inr (v, t')" and I': "well_linked ?d t'"
    and vl: "vertex_liveness t' = vertex_liveness t @ [False]"
    and cv: "cell_vertices t' = (cell_vertices t)[the s := coned t s v 0] @ map (coned t s v) [1..?d]"
    and x: "cross_inv t' s ?L ?d (?d + 1) 0 t'" by blast
  from s obtain ns where ns: "s = Some ns" "ns < ?L" "full_cells t ! ns \<noteq> None"
    by (cases s) (auto simp: is_full_cell_def)
  have lt: "length (cell_vertices t) = ?L" by (simp add: cell_vertices_def)
  from ns obtain vs0 where vs0: "cell_vertices t ! ns = Some vs0"
    by (auto simp: cell_vertices_def)
  have cn: "coned t s v k = Some (vs0[nat k := v])" for k by (simp add: coned_def ns(1) vs0)
  have vos: "vertices_of t s = Inr vs0" using ns(2) vs0 by (simp add: ns(1) vertices_of_cell_vertices lt)
  have cv': "cell_vertices t' = (cell_vertices t)[ns := Some (vs0[0 := v])]
               @ map (\<lambda>k. Some (vs0[nat k := v])) [1..?d]"
    using cv cn by (simp add: ns(1))
  have lt': "length (cell_vertices t') = ?L + nat ?d" using d by (simp add: cv' lt)
  have 1: "\<not> is_vertex t v" by (simp add: v is_vertex_def)
  have 2: "is_vertex t' v" unfolding v using liveness_new[OF vl] .
  have 3: "number_of_vertices t' = number_of_vertices t + 1"
    by (simp add: number_of_vertices_liveness vl)
  have 4: "number_of_full_cells t' = number_of_full_cells t + nat ?d"
  proof -
    have a: "length (filter (\<lambda>x. x \<noteq> None) ((cell_vertices t)[ns := Some (vs0[0 := v])]))
           = length (filter (\<lambda>x. x \<noteq> None) (cell_vertices t))"
      by (rule filter_update_same) (simp_all add: lt ns(2) vs0)
    have b: "length (filter (\<lambda>x. x \<noteq> None) (map (\<lambda>k. Some (vs0[nat k := v])) [1..?d]))
           = length (map (\<lambda>k. Some (vs0[nat k := v])) [1..?d])"
      by (rule filter_all_length) auto
    show ?thesis using d
      by (simp only: number_of_full_cells_cell_vertices cv' filter_append length_append a b
          length_map length_upto)
  qed
  have 5: "\<not> is_full_cell t (?C i)" if "1 \<le> i" for i
  proof -
    have c: "?C i = Some (?L + (nat i - 1))" using that by (simp add: cone_cell_def)
    have "\<not> ?L + (nat i - 1) < ?L" by simp
    then show ?thesis unfolding c by (simp add: is_full_cell_def)
  qed
  have 6: "vertices_of t' (?C i) = Inr (vs0[nat i := v])" if i: "0 \<le> i" "i \<le> ?d" for i
  proof (cases "i = 0")
    case True
    have "cell_vertices t' ! ns = Some (vs0[0 := v])"
      using ns(2) by (simp add: cv' nth_append lt)
    then show ?thesis using True ns(2) lt'
      by (simp add: cone_cell_def ns(1) vertices_of_cell_vertices)
  next
    case False
    then have i1: "1 \<le> i" using i by simp
    have c: "?C i = Some (?L + (nat i - 1))" using i1 by (simp add: cone_cell_def)
    have l: "?L + (nat i - 1) < length (cell_vertices t')" using i i1 lt' by simp
    have u: "1 + int (nat i - 1) \<le> ?d" using i i1 by simp
    have "cell_vertices t' ! (?L + (nat i - 1))
        = map (\<lambda>k. Some (vs0[nat k := v])) [1..?d] ! (nat i - 1)"
      by (simp add: cv' nth_append lt)
    also have "\<dots> = Some (vs0[nat ([1..?d] ! (nat i - 1)) := v])"
      using i i1 by (intro nth_map) simp
    also have "[1..?d] ! (nat i - 1) = 1 + int (nat i - 1)" using u by (rule nth_upto)
    also have "1 + int (nat i - 1) = i" using i1 by simp
    finally show ?thesis using l by (simp add: c vertices_of_cell_vertices)
  qed
  have cr: "check_range t' j" if "0 \<le> j" "j \<le> ?d" for j
    using that I' by (simp add: check_range_def well_linked_def)
  have 7: "neighbor t' (?C i) j = Inr (?C j) \<and> mirror_index t' (?C i) j = Inr i"
    if r: "0 \<le> i" "i \<le> ?d" "0 \<le> j" "j \<le> ?d" "i \<noteq> j" for i j
  proof -
    have "i < ?d + 1 \<or> (i = ?d + 1 \<and> j < 0)" using r by simp
    then have "linked s ?L t' i j" by (rule cross_invD(5)[OF x r])
    then have l: "nbr t' (?C i) j = Inr (?C j)" "mir t' (?C i) j = Inr i"
      by (simp_all add: linked_def)
    have n: "None \<noteq> ?C i" by (simp add: cone_cell_def ns(1))
    have "neighbor t' (?C i) j = nbr t' (?C i) j"
      using n cr[OF r(3,4)] by (simp add: neighbor_def nbr_def)
    moreover have "mirror_index t' (?C i) j = mir t' (?C i) j"
      using n cr[OF r(3,4)] by (simp add: mirror_index_def mir_def)
    ultimately show ?thesis using l by simp
  qed
  have 8: "vertices_of t' z = vertices_of t z" if z: "is_full_cell t z" "z \<noteq> s" for z
  proof -
    from z(1) obtain n where n: "z = Some n" "n < ?L" by (cases z) (auto simp: is_full_cell_def)
    have "n \<noteq> ns" using z(2) n(1) ns(1) by simp
    then have "cell_vertices t' ! n = cell_vertices t ! n"
      using n(2) by (simp add: cv' nth_append lt)
    then show ?thesis using n(2) lt' by (simp add: n(1) vertices_of_cell_vertices lt)
  qed
  have v6: "vertices_of t' (?C i) = bind_r (vertices_of t s) (\<lambda>vs. Inr (vs[nat i := v]))"
    if i: "0 \<le> i" "i \<le> ?d" for i
    using 6[OF i] by (simp add: vos)
  have big: "insert_in_full_cell t s = Inr (v, t')
     \<and> \<not> is_vertex t v \<and> is_vertex t' v
     \<and> number_of_vertices t' = number_of_vertices t + 1
     \<and> number_of_full_cells t' = number_of_full_cells t + nat ?d
     \<and> (\<forall>i. 1 \<le> i \<and> i \<le> ?d \<longrightarrow> \<not> is_full_cell t (?C i))
     \<and> (\<forall>i. 0 \<le> i \<and> i \<le> ?d \<longrightarrow>
          vertices_of t' (?C i) = bind_r (vertices_of t s) (\<lambda>vs. Inr (vs[nat i := v])))
     \<and> (\<forall>i j. 0 \<le> i \<and> i \<le> ?d \<and> 0 \<le> j \<and> j \<le> ?d \<and> i \<noteq> j \<longrightarrow>
          neighbor t' (?C i) j = Inr (?C j) \<and> mirror_index t' (?C i) j = Inr i)
     \<and> (\<forall>z. is_full_cell t z \<and> z \<noteq> s \<longrightarrow> vertices_of t' z = vertices_of t z)"
  proof (intro conjI allI impI)
    show "insert_in_full_cell t s = Inr (v, t')" using res .
    show "\<not> is_vertex t v" using 1 .
    show "is_vertex t' v" using 2 .
    show "number_of_vertices t' = number_of_vertices t + 1" using 3 .
    show "number_of_full_cells t' = number_of_full_cells t + nat ?d" using 4 .
  next
    fix i assume "1 \<le> i \<and> i \<le> ?d"
    then show "\<not> is_full_cell t (?C i)" using 5[of i] by simp
  next
    fix i assume "0 \<le> i \<and> i \<le> ?d"
    then show "vertices_of t' (?C i) = bind_r (vertices_of t s) (\<lambda>vs. Inr (vs[nat i := v]))"
      using v6[of i] by simp
  next
    fix i j assume h: "0 \<le> i \<and> i \<le> ?d \<and> 0 \<le> j \<and> j \<le> ?d \<and> i \<noteq> j"
    then have r: "0 \<le> i" "i \<le> ?d" "0 \<le> j" "j \<le> ?d" "i \<noteq> j" by simp_all
    show "neighbor t' (?C i) j = Inr (?C j)" using 7[OF r] by (rule conjunct1)
    show "mirror_index t' (?C i) j = Inr i" using 7[OF r] by (rule conjunct2)
  next
    fix z assume "is_full_cell t z \<and> z \<noteq> s"
    then show "vertices_of t' z = vertices_of t z" using 8[of z] by simp
  qed
  show ?thesis unfolding cd by (rule exI[of _ t']) (rule big[unfolded v_def])
qed

theorem insert_in_full_cell_cones_witness:
  "0 < current_dimension triangle_tds
   \<and> current_dimension triangle_tds \<le> ambient_dimension triangle_tds
   \<and> cells_sized triangle_tds \<and> links_closed triangle_tds \<and> mirrors_in_range triangle_tds
   \<and> is_full_cell triangle_tds (Some 1) \<and> vertices_live triangle_tds (Some 1)
   \<and> insert_in_full_cell triangle_tds (Some 1) = Inr (Some 4, coned_triangle_tds)
   \<and> number_of_vertices triangle_tds = 4 \<and> number_of_full_cells triangle_tds = 4
   \<and> number_of_vertices coned_triangle_tds = 5 \<and> number_of_full_cells coned_triangle_tds = 6"
proof -
  have h: "0 < current_dimension triangle_tds"
    "current_dimension triangle_tds \<le> ambient_dimension triangle_tds"
    "cells_sized triangle_tds" "links_closed triangle_tds" "mirrors_in_range triangle_tds"
    "is_full_cell triangle_tds (Some 1)" "vertices_live triangle_tds (Some 1)"
    by code_simp+
  have e: "insert_in_full_cell triangle_tds (Some 1) = Inr (Some 4, coned_triangle_tds)"
    by code_simp
  have n: "number_of_vertices triangle_tds = 4" "number_of_full_cells triangle_tds = 4"
    "nat (current_dimension triangle_tds) = 2"
    by code_simp+
  have "number_of_vertices coned_triangle_tds = number_of_vertices triangle_tds + 1
      \<and> number_of_full_cells coned_triangle_tds
          = number_of_full_cells triangle_tds + nat (current_dimension triangle_tds)"
    using insert_in_full_cell_cones [OF h] unfolding e by auto
  then show ?thesis using h e n by simp
qed

section \<open>C4: the vertex arrays after insert\_increase\_dimension\<close>

lemma first_index_None_iff: "first_index xs v = None \<longleftrightarrow> v \<notin> set xs"
  by (induction xs) auto

lemma fc_has_vertex_iff: "fc_has_vertex c v \<longleftrightarrow> v \<in> set (fc_vertices c)"
proof (cases "first_index (fc_vertices c) v")
  case None
  then show ?thesis using first_index_None_iff[of "fc_vertices c" v]
    by (simp add: fc_has_vertex_def fc_has_vertex_idx_def)
next
  case (Some n)
  then show ?thesis using first_index_None_iff[of "fc_vertices c" v]
    by (simp add: fc_has_vertex_def fc_has_vertex_idx_def)
qed

lemma set_visited_cell_vertices:
  assumes "set_visited t s m = Inr t'"
  shows "cell_vertices t' = cell_vertices t" "dmax t' = dmax t" "dcur t' = dcur t"
proof -
  from assms obtain n c where n: "s = Some n" "n < length (full_cells t)" "full_cells t ! n = Some c"
    and t': "t' = t\<lparr>full_cells := (full_cells t)[n := Some (c\<lparr>fc_bits := (if m then 1 else 0)\<rparr>)]\<rparr>"
    unfolding set_visited_Inr by blast
  have "(map (map_option fc_vertices) (full_cells t))[n := Some (fc_vertices c)]
      = map (map_option fc_vertices) (full_cells t)"
    using n by (intro list_update_same_conv[THEN iffD2]) simp_all
  then show "cell_vertices t' = cell_vertices t" by (simp add: cell_vertices_def t' map_update)
  show "dmax t' = dmax t" "dcur t' = dcur t" by (simp_all add: t')
qed

lemma get_cell_vertices:
  "get_cell t s = Inr c \<Longrightarrow> \<exists>n. s = Some n \<and> n < length (cell_vertices t)
      \<and> cell_vertices t ! n = Some (fc_vertices c)"
  by (auto simp: get_cell_Inr cell_vertices_def)

lemma cell_vertices_get_cell:
  assumes "n < length (cell_vertices t)" "cell_vertices t ! n = Some vs"
  shows "\<exists>c. get_cell t (Some n) = Inr c \<and> fc_vertices c = vs"
  using assms by (auto simp: get_cell_def cell_vertices_def split: option.splits)

text \<open>associate: the slot is in range and the vertex array is updated there.\<close>

lemma associate_cell_vertices:
  assumes "associate_vertex_with_full_cell t s i v = Inr t'"
  shows "\<exists>n vs. s = Some n \<and> n < length (cell_vertices t) \<and> cell_vertices t ! n = Some vs
           \<and> 0 \<le> i \<and> i < int (length vs)
           \<and> cell_vertices t' = (cell_vertices t)[n := Some (vs[nat i := v])]"
    and "dmax t' = dmax t" and "dcur t' = dcur t"
proof -
  from assms obtain t1 where 1: "update_cell t s (fc_set_vertex i v) = Inr t1"
    and 2: "set_full_cell t1 v s = Inr t'"
    by (auto simp: associate_vertex_with_full_cell_def split: if_splits)
  from 1 obtain n c c' where n: "s = Some n" "n < length (full_cells t)" "full_cells t ! n = Some c"
    and c': "fc_set_vertex i v c = Inr c'"
    and t1: "t1 = t\<lparr>full_cells := (full_cells t)[n := Some c']\<rparr>"
    unfolding update_cell_Inr by blast
  from c' have r: "0 \<le> i" "i < int (length (fc_vertices c))"
    and v: "fc_vertices c' = (fc_vertices c)[nat i := v]"
    by (auto simp: fc_set_vertex_def slot_set_def split: if_splits)
  note e2 = set_full_cell_effect[OF 2]
  have "cell_vertices t' = cell_vertices t1" by (simp add: cell_vertices_def e2(1))
  also have "\<dots> = (cell_vertices t)[n := Some ((fc_vertices c)[nat i := v])]"
    by (simp add: cell_vertices_def t1 map_update v)
  finally have cv: "cell_vertices t' = (cell_vertices t)[n := Some ((fc_vertices c)[nat i := v])]" .
  have "n < length (cell_vertices t)" "cell_vertices t ! n = Some (fc_vertices c)"
    using n by (simp_all add: cell_vertices_def)
  then show "\<exists>n vs. s = Some n \<and> n < length (cell_vertices t) \<and> cell_vertices t ! n = Some vs
           \<and> 0 \<le> i \<and> i < int (length vs)
           \<and> cell_vertices t' = (cell_vertices t)[n := Some (vs[nat i := v])]"
    using n(1) r cv by blast
  show "dmax t' = dmax t" "dcur t' = dcur t" by (simp_all add: e2 t1)
qed

lemma set_neighbors_cell_vertices:
  assumes "set_neighbors t x i y j = Inr t'"
  shows "cell_vertices t' = cell_vertices t" "dmax t' = dmax t" "dcur t' = dcur t"
  using set_neighbors_effect(5)[OF assms] shape_dims[OF set_neighbors_effect(4)[OF assms]]
  by simp_all

lemma new_full_cell_cell_vertices:
  assumes "new_full_cell t = (N, t1)"
  shows "N = Some (length (cell_vertices t))"
    "cell_vertices t1 = cell_vertices t @ [Some (replicate (nat (dmax t + 1)) None)]"
    "dmax t1 = dmax t" "dcur t1 = dcur t"
  using assms by (auto simp: new_full_cell_def cell_vertices_def Full_cell_init_def)

lemma vertex_cell_vertices:
  assumes "vertex t (Some n) i = Inr w" "n < length (cell_vertices t)" "cell_vertices t ! n = Some vs"
  shows "w = vs ! nat i" "0 \<le> i" "i < int (length vs)"
proof -
  from cell_vertices_get_cell[OF assms(2,3)] obtain c where c: "get_cell t (Some n) = Inr c"
    "fc_vertices c = vs" by blast
  from assms(1) have "slot_get vs i = Inr w"
    by (auto simp: vertex_def c fc_vertex_def split: if_splits)
  then show "w = vs ! nat i" "0 \<le> i" "i < int (length vs)"
    unfolding slot_get_Inr by simp_all
qed

text \<open>The loop that fills the twin.\<close>

lemma twin_prefix_step:
  assumes "1 \<le> k" "nat k < nat (D + 1)"
  shows "(twin_prefix D star k vs)[nat k := vs ! nat (k - 1)] = twin_prefix D star (k + 1) vs"
proof (rule nth_equalityI)
  show "length ((twin_prefix D star k vs)[nat k := vs ! nat (k - 1)]) = length (twin_prefix D star (k + 1) vs)"
    by (simp add: twin_prefix_def)
next
  fix j assume "j < length ((twin_prefix D star k vs)[nat k := vs ! nat (k - 1)])"
  then have j: "j < nat (D + 1)" by (simp add: twin_prefix_def)
  show "(twin_prefix D star k vs)[nat k := vs ! nat (k - 1)] ! j = twin_prefix D star (k + 1) vs ! j"
  proof (cases "j = nat k")
    case True
    have "nat k - 1 = nat (k - 1)" using assms(1) by simp
    then show ?thesis using True j assms(1) by (simp add: twin_prefix_def)
  next
    case False
    have "(int j < k + 1) = (int j < k)" using False assms(1) by auto
    then show ?thesis using False j by (simp add: twin_prefix_def)
  qed
qed

lemma twin_prefix_start:
  assumes "0 < nat (D + 1)"
  shows "(replicate (nat (D + 1)) None)[0 := star] = twin_prefix D star 1 vs"
proof (rule nth_equalityI)
  show "length ((replicate (nat (D + 1)) None)[0 := star]) = length (twin_prefix D star 1 vs)"
    by (simp add: twin_prefix_def)
next
  fix j assume "j < length ((replicate (nat (D + 1)) None)[0 := star])"
  then have j: "j < nat (D + 1)" by simp
  show "(replicate (nat (D + 1)) None)[0 := star] ! j = twin_prefix D star 1 vs ! j"
    using j by (cases "j = 0") (simp_all add: twin_prefix_def)
qed

lemma twin_prefix_end:
  assumes "0 \<le> c" "nat c < length vs"
  shows "twin_prefix D star (c + 1) (vs[nat c := x]) = twin_vertices D star c vs"
  unfolding twin_prefix_def twin_vertices_def
proof (rule map_cong[OF refl])
  fix j assume "j \<in> set [0..<nat (D + 1)]"
  show "(if j = 0 then star else if int j < c + 1 then vs[nat c := x] ! (j - 1) else None)
      = (if j = 0 then star else if int j \<le> c then vs ! (j - 1) else None)"
  proof (cases "j \<noteq> 0 \<and> int j \<le> c")
    case True
    then have "j - 1 \<noteq> nat c" by auto
    then show ?thesis using True by simp
  next
    case False
    then show ?thesis by auto
  qed
qed

lemma fill_twin:
  assumes r: "for_range 1 c (\<lambda>k t'. bind_r (vertex t' (Some n) (k - 1)) (\<lambda>vk.
                 associate_vertex_with_full_cell t' (Some m) k vk)) u = Inr u'"
    and u: "cell_vertices u = cv[m := Some (twin_prefix D star 1 vs)]"
    and n: "n < length cv" "cv ! n = Some vs" "m < length cv" "n \<noteq> m" and c: "1 \<le> c"
  shows "cell_vertices u' = cv[m := Some (twin_prefix D star (c + 1) vs)]
         \<and> dmax u' = dmax u \<and> dcur u' = dcur u"
proof -
  let ?P = "\<lambda>k a. cell_vertices a = cv[m := Some (twin_prefix D star k vs)]
                 \<and> dmax a = dmax u \<and> dcur a = dcur u"
  have "?P (if 1 \<le> c then c + 1 else 1) u'"
  proof (rule for_range_invariant_indexed[OF r, where P = ?P])
    show "?P 1 u" using u by simp
  next
    fix k a b
    assume k: "1 \<le> k" "k \<le> c" and a: "?P k a"
      and b: "bind_r (vertex a (Some n) (k - 1)) (\<lambda>vk.
                 associate_vertex_with_full_cell a (Some m) k vk) = Inr b"
    from b obtain vk where vk: "vertex a (Some n) (k - 1) = Inr vk"
      and as: "associate_vertex_with_full_cell a (Some m) k vk = Inr b" by auto
    have cva: "cell_vertices a = cv[m := Some (twin_prefix D star k vs)]" using a by simp
    have na: "n < length (cell_vertices a)" "cell_vertices a ! n = Some vs"
      using n by (simp_all add: cva)
    have w: "vk = vs ! nat (k - 1)" using vertex_cell_vertices(1)[OF vk na] .
    from associate_cell_vertices(1)[OF as] obtain vs' where
      m: "cell_vertices a ! m = Some vs'" "k < int (length vs')"
      and cvb: "cell_vertices b = (cell_vertices a)[m := Some (vs'[nat k := vk])]" by auto
    have vs': "vs' = twin_prefix D star k vs" using m(1) n(3) by (simp add: cva)
    have "k < int (nat (D + 1))" using m(2) by (simp only: vs' twin_prefix_def length_map length_upt diff_zero)
    then have kl: "nat k < nat (D + 1)" using k(1) by linarith
    have "cell_vertices b = cv[m := Some ((twin_prefix D star k vs)[nat k := vs ! nat (k - 1)])]"
      by (simp add: cvb cva vs' w)
    then have "cell_vertices b = cv[m := Some (twin_prefix D star (k + 1) vs)]"
      by (simp only: twin_prefix_step[OF k(1) kl])
    then show "?P (k + 1) b"
      using a associate_cell_vertices(2,3)[OF as] by simp
  qed
  then show ?thesis using c by simp
qed

lemma in_set_update_free:
  assumes "i < length vs" "vs ! i = None" "star \<noteq> None" "star \<noteq> x"
  shows "star \<in> set (vs[i := x]) \<longleftrightarrow> star \<in> set vs"
proof
  assume "star \<in> set (vs[i := x])"
  then have "star \<in> insert x (set vs)" using set_update_subset_insert by fast
  then show "star \<in> set vs" using assms(4) by simp
next
  assume "star \<in> set vs"
  then obtain j where j: "j < length vs" "vs ! j = star" unfolding in_set_conv_nth by blast
  then have "j \<noteq> i" using assms(2,3) by auto
  then have "vs[i := x] ! j = star" using j by simp
  then show "star \<in> set (vs[i := x])" using j(1) by (metis length_list_update nth_mem)
qed

text \<open>One iteration of the first loop of \<open>do_insert_increase_dimension\<close>.\<close>

lemma extend_full_cell_cell_vertices:
  assumes r: "extend_full_cell x star c S (sm, u) = Inr (sm1, u1)" and c: "1 \<le> c"
  shows "\<exists>n vs. S = Some n \<and> n < length (cell_vertices u) \<and> cell_vertices u ! n = Some vs
           \<and> dmax u1 = dmax u \<and> dcur u1 = dcur u \<and> nat c < length vs
           \<and> (if vs ! nat c \<noteq> None then cell_vertices u1 = cell_vertices u \<and> sm1 = sm
               else if star \<in> set (vs[nat c := x])
               then cell_vertices u1 = (cell_vertices u)[n := Some (vs[nat c := x])]
                    \<and> (sm1 = sm \<or> (sm1 = S \<and> c = 2))
               else cell_vertices u1 = (cell_vertices u)[n := Some (vs[nat c := x])]
                      @ [Some (twin_vertices (dmax u) star c vs)]
                    \<and> sm1 = sm)"
proof -
  obtain cell where g: "get_cell u S = Inr cell"
    using r by (cases "get_cell u S") (simp_all add: extend_full_cell_def)
  obtain vc where fv: "fc_vertex cell c = Inr vc"
    using r g by (cases "fc_vertex cell c") (simp_all add: extend_full_cell_def)
  from get_cell_vertices[OF g] obtain n where n: "S = Some n" "n < length (cell_vertices u)"
    "cell_vertices u ! n = Some (fc_vertices cell)" by blast
  let ?vs = "fc_vertices cell"
  from fv have cl: "c < int (length ?vs)" and vc: "vc = ?vs ! nat c"
    unfolding fc_vertex_def slot_get_Inr by simp_all
  have cl': "nat c < length ?vs" using cl c by simp
  show ?thesis
  proof (cases "vc = None")
    case False
    then obtain y where y: "vc = Some y" by auto
    have "(sm1, u1) = (sm, u)" using r g fv[unfolded y] by (simp add: extend_full_cell_def)
    then show ?thesis using n cl' False vc by simp
  next
    case True
    obtain ua where sv: "set_visited u S True = Inr ua"
      using r g fv True by (cases "set_visited u S True") (simp_all add: extend_full_cell_def)
    note ea = set_visited_cell_vertices[OF sv]
    obtain ub where as: "associate_vertex_with_full_cell ua S c x = Inr ub"
      using r g fv True sv
      by (cases "associate_vertex_with_full_cell ua S c x") (simp_all add: extend_full_cell_def)
    from associate_cell_vertices(1)[OF as] obtain vs' where
      "cell_vertices ua ! n = Some vs'"
      "cell_vertices ub = (cell_vertices ua)[n := Some (vs'[nat c := x])]"
      using n(1) by auto
    then have cvb: "cell_vertices ub = (cell_vertices u)[n := Some (?vs[nat c := x])]"
      using n(3) by (simp add: ea(1))
    note eb = associate_cell_vertices(2,3)[OF as]
    obtain c2 where g2: "get_cell ub S = Inr c2"
      using r g fv True sv as
      by (cases "get_cell ub S") (simp_all add: extend_full_cell_def)
    from get_cell_vertices[OF g2] have v2: "fc_vertices c2 = ?vs[nat c := x]"
      using n(1,2) by (auto simp: cvb)
    have hv: "fc_has_vertex c2 star \<longleftrightarrow> star \<in> set (?vs[nat c := x])"
      by (simp add: fc_has_vertex_iff v2)
    have dd: "dmax ub = dmax u" "dcur ub = dcur u" using ea eb by simp_all
    show ?thesis
    proof (cases "star \<in> set (?vs[nat c := x])")
      case in_star: True
      have "u1 = ub \<and> (sm1 = sm \<or> (sm1 = S \<and> c = 2))"
        using r g fv True sv as g2 in_star hv
        by (auto simp: extend_full_cell_def split: if_splits)
      then show ?thesis using n cl' True vc in_star cvb dd by simp
    next
      case no_star: False
      obtain N uc where nf: "new_full_cell ub = (N, uc)" by (cases "new_full_cell ub")
      note ec = new_full_cell_cell_vertices[OF nf]
      obtain ud where sn: "set_neighbors uc S c N 0 = Inr ud"
        using r g fv True sv as g2 no_star hv nf
        by (cases "set_neighbors uc S c N 0") (simp_all add: extend_full_cell_def)
      note ed = set_neighbors_cell_vertices[OF sn]
      obtain ue where a0: "associate_vertex_with_full_cell ud N 0 star = Inr ue"
        using r g fv True sv as g2 no_star hv nf sn
        by (cases "associate_vertex_with_full_cell ud N 0 star") (simp_all add: extend_full_cell_def)
      note ee = associate_cell_vertices(2,3)[OF a0]
      have fl: "for_range 1 c (\<lambda>k t'. bind_r (vertex t' S (k - 1)) (\<lambda>vk.
                   associate_vertex_with_full_cell t' N k vk)) ue = Inr u1 \<and> sm1 = sm"
        using r g fv True sv as g2 no_star hv nf sn a0
        by (auto simp: extend_full_cell_def)
      let ?m = "length (cell_vertices u)"
      let ?cv = "(cell_vertices u)[n := Some (?vs[nat c := x])] @ [None]"
      have lb: "length (cell_vertices ub) = ?m" by (simp add: cvb)
      have N: "N = Some ?m" using ec(1) lb by simp
      have cvd: "cell_vertices ud = (cell_vertices u)[n := Some (?vs[nat c := x])]
                   @ [Some (replicate (nat (dmax u + 1)) None)]"
        by (simp add: ed(1) ec(2) cvb dd)
      from associate_cell_vertices(1)[OF a0] obtain vs0 where
        v0: "cell_vertices ud ! ?m = Some vs0" "0 < int (length vs0)"
        and cve: "cell_vertices ue = (cell_vertices ud)[?m := Some (vs0[nat 0 := star])]"
        using N by auto
      have vs0: "vs0 = replicate (nat (dmax u + 1)) None" using v0(1) by (simp add: cvd nth_append)
      have "0 < int (nat (dmax u + 1))" using v0(2) by (simp only: vs0 length_replicate)
      then have pos: "0 < nat (dmax u + 1)" by linarith
      have cve': "cell_vertices ue = ?cv[?m := Some (twin_prefix (dmax u) star 1 (?vs[nat c := x]))]"
        using twin_prefix_start[OF pos, of star "?vs[nat c := x]"]
        by (simp add: cve cvd vs0 list_update_append)
      have f: "for_range 1 c (\<lambda>k t'. bind_r (vertex t' (Some n) (k - 1)) (\<lambda>vk.
                   associate_vertex_with_full_cell t' (Some ?m) k vk)) ue = Inr u1"
        using fl n(1) N by simp
      have "cell_vertices u1 = ?cv[?m := Some (twin_prefix (dmax u) star (c + 1) (?vs[nat c := x]))]
          \<and> dmax u1 = dmax ue \<and> dcur u1 = dcur ue"
      proof (rule fill_twin[OF f cve' _ _ _ _ c])
        show "n < length ?cv" using n(2) by simp
        show "?cv ! n = Some (?vs[nat c := x])" using n(2) by (simp add: nth_append)
        show "?m < length ?cv" by simp
        show "n \<noteq> ?m" using n(2) by simp
      qed
      then have cv1: "cell_vertices u1 = ?cv[?m := Some (twin_vertices (dmax u) star c ?vs)]"
        and d1: "dmax u1 = dmax ue" "dcur u1 = dcur ue"
        using twin_prefix_end[of c ?vs "dmax u" star x] c cl' by simp_all
      have "cell_vertices u1 = (cell_vertices u)[n := Some (?vs[nat c := x])]
                      @ [Some (twin_vertices (dmax u) star c ?vs)]"
        by (simp add: cv1 list_update_append)
      moreover have "dmax u1 = dmax u" "dcur u1 = dcur u"
        using d1 ee ed ec dd by simp_all
      ultimately show ?thesis using n cl' True vc no_star fl by simp
    qed
  qed
qed

text \<open>The first loop of \<open>do_insert_increase_dimension\<close>.\<close>

lemma extend_full_cells_cell_vertices:
  assumes r: "for_each hs (extend_full_cell x star c) (sm, u) = Inr (sm', u')"
    and dh: "distinct hs" and c: "1 \<le> c" and sx: "star \<noteq> None" "star \<noteq> x"
    and hl: "\<And>n. Some n \<in> set hs \<Longrightarrow> n < length (cell_vertices u)"
    and fr: "\<And>n vs. Some n \<in> set hs \<Longrightarrow> cell_vertices u ! n = Some vs \<Longrightarrow> vs ! nat c = None"
  shows "dmax u' = dmax u \<and> dcur u' = dcur u \<and> length (cell_vertices u) \<le> length (cell_vertices u')
     \<and> (\<forall>n < length (cell_vertices u). cell_vertices u' ! n =
           (if Some n \<in> set hs then map_option (\<lambda>vs. vs[nat c := x]) (cell_vertices u ! n)
            else cell_vertices u ! n))
     \<and> (\<forall>n. length (cell_vertices u) \<le> n \<and> n < length (cell_vertices u') \<longrightarrow>
           (\<exists>m vs. Some m \<in> set hs \<and> cell_vertices u ! m = Some vs \<and> star \<notin> set vs
              \<and> cell_vertices u' ! n = Some (twin_vertices (dmax u) star c vs)))
     \<and> (sm' = sm \<or> (c = 2 \<and> (\<exists>n vs. sm' = Some n \<and> Some n \<in> set hs
              \<and> cell_vertices u ! n = Some vs \<and> star \<in> set vs)))"
  using r dh hl fr
proof (induction hs arbitrary: sm u)
  case Nil
  then show ?case by simp
next
  case (Cons h rest)
  let ?f = "\<lambda>vs. vs[nat c := x]"
  let ?L = "length (cell_vertices u)"
  obtain st1 where s1: "extend_full_cell x star c h (sm, u) = Inr st1"
    and r1: "for_each rest (extend_full_cell x star c) st1 = Inr (sm', u')"
    using Cons.prems(1) by (cases "extend_full_cell x star c h (sm, u)") simp_all
  obtain sm1 u1 where st1: "st1 = (sm1, u1)" by (cases st1)
  note s1 = s1[unfolded st1] and r1 = r1[unfolded st1]
  from extend_full_cell_cell_vertices[OF s1 c] obtain k vs where
    k: "h = Some k" "k < ?L" "cell_vertices u ! k = Some vs"
    and d1: "dmax u1 = dmax u" "dcur u1 = dcur u" and cl: "nat c < length vs"
    and br: "if vs ! nat c \<noteq> None then cell_vertices u1 = cell_vertices u \<and> sm1 = sm
               else if star \<in> set (vs[nat c := x])
               then cell_vertices u1 = (cell_vertices u)[k := Some (vs[nat c := x])]
                    \<and> (sm1 = sm \<or> (sm1 = h \<and> c = 2))
               else cell_vertices u1 = (cell_vertices u)[k := Some (vs[nat c := x])]
                      @ [Some (twin_vertices (dmax u) star c vs)]
                    \<and> sm1 = sm"
    by blast
  have hk: "Some k \<in> set (h # rest)" using k(1) by simp
  have free: "vs ! nat c = None" using Cons.prems(4)[OF hk k(3)] .
  have st: "star \<in> set (vs[nat c := x]) \<longleftrightarrow> star \<in> set vs"
    using in_set_update_free[OF cl free sx] .
  have cv1: "cell_vertices u1 = (cell_vertices u)[k := Some (?f vs)]
               @ (if star \<in> set vs then [] else [Some (twin_vertices (dmax u) star c vs)])"
    using br free st by (simp split: if_splits)
  have sm1: "sm1 = sm \<or> (sm1 = h \<and> c = 2 \<and> star \<in> set vs)"
    using br free st by (auto split: if_splits)
  let ?L1 = "length (cell_vertices u1)"
  have L1: "?L \<le> ?L1" "?L1 \<le> ?L + 1" by (simp_all add: cv1)
  have old: "cell_vertices u1 ! n = (if n = k then Some (?f vs) else cell_vertices u ! n)"
    if "n < ?L" for n using that by (simp add: cv1 nth_append)
  have nk: "Some k \<notin> set rest" using Cons.prems(2) k(1) by simp
  have rl: "n < ?L" if "Some n \<in> set rest" for n using Cons.prems(3)[of n] that by simp
  have rne: "n \<noteq> k" if "Some n \<in> set rest" for n using that nk by auto
  have IH: "dmax u' = dmax u1 \<and> dcur u' = dcur u1 \<and> ?L1 \<le> length (cell_vertices u')
     \<and> (\<forall>n < ?L1. cell_vertices u' ! n =
           (if Some n \<in> set rest then map_option ?f (cell_vertices u1 ! n)
            else cell_vertices u1 ! n))
     \<and> (\<forall>n. ?L1 \<le> n \<and> n < length (cell_vertices u') \<longrightarrow>
           (\<exists>m vs. Some m \<in> set rest \<and> cell_vertices u1 ! m = Some vs \<and> star \<notin> set vs
              \<and> cell_vertices u' ! n = Some (twin_vertices (dmax u1) star c vs)))
     \<and> (sm' = sm1 \<or> (c = 2 \<and> (\<exists>n vs. sm' = Some n \<and> Some n \<in> set rest
              \<and> cell_vertices u1 ! n = Some vs \<and> star \<in> set vs)))"
  proof (rule Cons.IH[OF r1])
    show "distinct rest" using Cons.prems(2) by simp
    show "n < ?L1" if "Some n \<in> set rest" for n using rl[OF that] L1 by simp
    show "vs2 ! nat c = None" if a: "Some n \<in> set rest" and b: "cell_vertices u1 ! n = Some vs2" for n vs2
    proof -
      have "cell_vertices u ! n = Some vs2" using b old[OF rl[OF a]] rne[OF a] by simp
      moreover have "Some n \<in> set (h # rest)" using a by simp
      ultimately show ?thesis using Cons.prems(4) by blast
    qed
  qed
  then have I1: "dmax u' = dmax u1" "dcur u' = dcur u1" "?L1 \<le> length (cell_vertices u')"
    and I2: "\<And>n. n < ?L1 \<Longrightarrow> cell_vertices u' ! n =
           (if Some n \<in> set rest then map_option ?f (cell_vertices u1 ! n)
            else cell_vertices u1 ! n)"
    and I3: "\<And>n. ?L1 \<le> n \<Longrightarrow> n < length (cell_vertices u') \<Longrightarrow>
           (\<exists>m vs. Some m \<in> set rest \<and> cell_vertices u1 ! m = Some vs \<and> star \<notin> set vs
              \<and> cell_vertices u' ! n = Some (twin_vertices (dmax u1) star c vs))"
    and I4: "sm' = sm1 \<or> (c = 2 \<and> (\<exists>n vs. sm' = Some n \<and> Some n \<in> set rest
              \<and> cell_vertices u1 ! n = Some vs \<and> star \<in> set vs))"
    by blast+
  have A: "cell_vertices u' ! n =
           (if Some n \<in> set (h # rest) then map_option ?f (cell_vertices u ! n)
            else cell_vertices u ! n)" if n: "n < ?L" for n
  proof (cases "n = k")
    case True
    have "cell_vertices u' ! k = cell_vertices u1 ! k" using I2[of k] k(2) L1 nk by simp
    then show ?thesis using True old[OF k(2)] k by simp
  next
    case False
    have "n < ?L1" using n L1 by simp
    from I2[OF this] show ?thesis using False old[OF n] k(1) by simp
  qed
  have B: "\<exists>m vs. Some m \<in> set (h # rest) \<and> cell_vertices u ! m = Some vs \<and> star \<notin> set vs
              \<and> cell_vertices u' ! n = Some (twin_vertices (dmax u) star c vs)"
    if n: "?L \<le> n" "n < length (cell_vertices u')" for n
  proof (cases "n < ?L1")
    case True
    then have ns: "star \<notin> set vs" and nL: "n = ?L" using n(1) L1 by (auto simp: cv1 split: if_splits)
    have "Some n \<notin> set rest" using rl[of n] nL by auto
    then have "cell_vertices u' ! n = cell_vertices u1 ! n" using I2[OF True] by simp
    also have "\<dots> = Some (twin_vertices (dmax u) star c vs)"
      using ns by (simp add: cv1 nL nth_append)
    finally show ?thesis using hk k(3) ns by blast
  next
    case False
    then have "?L1 \<le> n" by simp
    from I3[OF this n(2)] obtain m vs2 where m: "Some m \<in> set rest" "cell_vertices u1 ! m = Some vs2"
      "star \<notin> set vs2" "cell_vertices u' ! n = Some (twin_vertices (dmax u1) star c vs2)" by blast
    have "cell_vertices u ! m = Some vs2" using m(2) old[OF rl[OF m(1)]] rne[OF m(1)] by simp
    moreover have "Some m \<in> set (h # rest)" using m(1) by simp
    ultimately show ?thesis using m(3,4) d1 by auto
  qed
  have C: "sm' = sm \<or> (c = 2 \<and> (\<exists>n vs. sm' = Some n \<and> Some n \<in> set (h # rest)
              \<and> cell_vertices u ! n = Some vs \<and> star \<in> set vs))"
  proof (cases "sm' = sm1")
    case True
    show ?thesis
    proof (cases "sm1 = sm")
      case True
      then show ?thesis using \<open>sm' = sm1\<close> by simp
    next
      case False
      then have "sm1 = h" "c = 2" "star \<in> set vs" using sm1 by auto
      then show ?thesis using True k hk by auto
    qed
  next
    case False
    then obtain n vs2 where n: "c = 2" "sm' = Some n" "Some n \<in> set rest"
      "cell_vertices u1 ! n = Some vs2" "star \<in> set vs2" using I4 by blast
    have "cell_vertices u ! n = Some vs2" using n(4) old[OF rl[OF n(3)]] rne[OF n(3)] by simp
    moreover have "Some n \<in> set (h # rest)" using n(3) by simp
    ultimately show ?thesis using n by blast
  qed
  show ?case
  proof (intro conjI allI impI)
    show "dmax u' = dmax u" "dcur u' = dcur u" using I1 d1 by simp_all
    show "?L \<le> length (cell_vertices u')" using I1(3) L1 by simp
  next
    fix n assume "n < ?L"
    then show "cell_vertices u' ! n =
           (if Some n \<in> set (h # rest) then map_option ?f (cell_vertices u ! n)
            else cell_vertices u ! n)" by (rule A)
  next
    fix n assume "?L \<le> n \<and> n < length (cell_vertices u')"
    then show "\<exists>m vs. Some m \<in> set (h # rest) \<and> cell_vertices u ! m = Some vs \<and> star \<notin> set vs
              \<and> cell_vertices u' ! n = Some (twin_vertices (dmax u) star c vs)"
      using B by blast
  next
    show "sm' = sm \<or> (c = 2 \<and> (\<exists>n vs. sm' = Some n \<and> Some n \<in> set (h # rest)
              \<and> cell_vertices u ! n = Some vs \<and> star \<in> set vs))" by (rule C)
  qed
qed

text \<open>The walk that links the cells leaves the vertex arrays alone.\<close>

lemma connect_full_cell_cell_vertices:
  assumes "connect_full_cell star cur_dim S t = Inr t'"
  shows "cell_vertices t' = cell_vertices t \<and> dcur t' = dcur t"
proof -
  from assms obtain c where c: "get_cell t S = Inr c"
    by (auto simp: connect_full_cell_def)
  obtain has star_index where h: "fc_has_vertex_idx c star = (has, star_index)"
    by (cases "fc_has_vertex_idx c star")
  show ?thesis
  proof (cases has)
    case True
    then show ?thesis using assms c h
      by (auto simp: connect_full_cell_def dest: set_neighbors_cell_vertices(1)
          set_neighbors_cell_vertices(3))
  next
    case False
    then obtain S_new where
      r: "for_range 0 (cur_dim - 1) (\<lambda>k t'.
               bind_r (neighbor t' S k) (\<lambda>S_opp.
               bind_r (get_cell t' S_opp) (\<lambda>c_opp.
                 if \<not> fc_has_vertex c_opp star
                 then
                   bind_r (neighbor t' S_opp cur_dim) (\<lambda>n.
                   bind_r (mirror_index t' S k) (\<lambda>mi.
                     set_neighbors t' S_new (k + 1) n (mi + 1)))
                 else Inr t'))) t = Inr t'"
      using assms c h by (auto simp: connect_full_cell_def)
    show ?thesis
      by (rule for_range_invariant[OF r,
            where P = "\<lambda>u. cell_vertices u = cell_vertices t \<and> dcur u = dcur t"])
        (auto split: if_splits dest: set_neighbors_cell_vertices(1) set_neighbors_cell_vertices(3))
  qed
qed

lemma enqueue_marked_neighbors_cell_vertices:
  assumes "enqueue_marked_neighbors cur_dim S (queue, t) = Inr (queue', t')"
  shows "cell_vertices t' = cell_vertices t \<and> dcur t' = dcur t"
proof -
  let ?P = "\<lambda>st. case st of (q, u) \<Rightarrow> cell_vertices u = cell_vertices t \<and> dcur u = dcur t"
  have "?P (queue', t')"
  proof (rule for_range_invariant[OF assms[unfolded enqueue_marked_neighbors_def], where P = ?P])
    show "?P (queue, t)" by simp
  next
    fix k a b
    assume a: "?P a"
      and b: "(case a of (queue, t) \<Rightarrow>
                 bind_r (neighbor t S k) (\<lambda>n.
                 bind_r (get_visited t n) (\<lambda>vis.
                   if vis then bind_r (set_visited t n False) (\<lambda>t1. Inr (queue @ [n], t1))
                   else Inr (queue, t)))) = Inr b"
    obtain q u where [simp]: "a = (q, u)" by (cases a)
    obtain q' u' where [simp]: "b = (q', u')" by (cases b)
    from b obtain n vis where
      r: "(if vis then bind_r (set_visited u n False) (\<lambda>t1. Inr (q @ [n], t1)) else Inr (q, u)) = Inr (q', u')"
      by auto
    show "?P b"
    proof (cases vis)
      case True
      then have "set_visited u n False = Inr u'" using r by auto
      then show ?thesis
        using set_visited_cell_vertices(1)[of u n False u'] set_visited_cell_vertices(3)[of u n False u'] a
        by simp
    next
      case False
      then show ?thesis using r a by simp
    qed
  qed
  then show ?thesis by simp
qed

lemma connect_walk_cell_vertices:
  "connect_walk star cur_dim (queue, t) = Inr t'
     \<Longrightarrow> cell_vertices t' = cell_vertices t \<and> dcur t' = dcur t"
proof (induction star cur_dim "(queue, t)" arbitrary: queue t rule: connect_walk.induct)
  case (1 star cur_dim queue t)
  show ?case
  proof (cases queue)
    case Nil
    then show ?thesis using "1.prems" by (subst (asm) connect_walk.simps) simp
  next
    case (Cons S rest)
    obtain t1 where c1: "connect_full_cell star cur_dim S t = Inr t1"
      using "1.prems" Cons
      by (subst (asm) connect_walk.simps) (cases "connect_full_cell star cur_dim S t", simp_all)
    obtain st where e: "enqueue_marked_neighbors cur_dim S (rest, t1) = Inr st"
      using "1.prems" Cons c1
      by (subst (asm) connect_walk.simps)
         (cases "enqueue_marked_neighbors cur_dim S (rest, t1)", simp_all)
    obtain q2 t2 where st: "st = (q2, t2)" by (cases st)
    have w: "connect_walk star cur_dim (q2, t2) = Inr t'"
      using "1.prems" Cons c1 e st by (subst (asm) connect_walk.simps) simp
    have "cell_vertices t' = cell_vertices t2 \<and> dcur t' = dcur t2"
      using "1.hyps"[OF Cons c1 e[unfolded st] w] .
    then show ?thesis
      using enqueue_marked_neighbors_cell_vertices[OF e[unfolded st]]
        connect_full_cell_cell_vertices[OF c1] by simp
  qed
qed

text \<open>The parity loop and the last exchange.\<close>

lemma update_cell_dcur: "update_cell t s f = Inr t' \<Longrightarrow> dcur t' = dcur t"
  by (auto simp: update_cell_Inr)

lemma swap_vertices_dcur: "swap_vertices t s d1 d2 = Inr t' \<Longrightarrow> dcur t' = dcur t"
  by (auto simp: swap_vertices_def dest!: update_cell_dcur)

lemma parity_swaps_dcur:
  "for_each hs (parity_swap x c) t = Inr t' \<Longrightarrow> dcur t' = dcur t"
proof (induction hs arbitrary: t)
  case Nil
  then show ?case by simp
next
  case (Cons h hs)
  from Cons.prems obtain t1 where 1: "parity_swap x c h t = Inr t1"
    and r: "for_each hs (parity_swap x c) t1 = Inr t'"
    by (auto split: sum.splits)
  have "dcur t1 = dcur t"
    using 1 by (auto simp: parity_swap_def split: if_splits dest: swap_vertices_dcur)
  then show ?case using Cons.IH[OF r] by simp
qed

lemma parity_correction_cell_vertices:
  assumes "parity_correction x c t = Inr t'"
  shows "length (cell_vertices t') = length (cell_vertices t)"
    and "dcur t' = dcur t"
    and "\<And>n. n < length (cell_vertices t) \<Longrightarrow> cell_vertices t' ! n =
           map_option (\<lambda>vs. if c mod 2 = 0 \<and> c > 1 \<and> vs ! nat c \<noteq> x
                             then swapped vs (nat (c - 1)) (nat c) else vs) (cell_vertices t ! n)"
proof -
  let ?g = "\<lambda>vs. if c mod 2 = 0 \<and> c > 1 \<and> vs ! nat c \<noteq> x
                             then swapped vs (nat (c - 1)) (nat c) else vs"
  have "length (cell_vertices t') = length (cell_vertices t) \<and> dcur t' = dcur t
      \<and> (\<forall>n < length (cell_vertices t). cell_vertices t' ! n = map_option ?g (cell_vertices t ! n))"
  proof (cases "c mod 2 = 0 \<and> c > 1")
    case False
    then have "t' = t" using assms by (auto simp: parity_correction_def)
    moreover have "map_option ?g y = y" for y using False by (cases y) auto
    ultimately show ?thesis by simp
  next
    case True
    then have r: "for_each (full_cell_handles t) (parity_swap x c) t = Inr t'"
      using assms by (simp add: parity_correction_def)
    note P = parity_swaps_cell_vertices[OF r distinct_full_cell_handles]
    have "cell_vertices t' ! n = map_option ?g (cell_vertices t ! n)"
      if n: "n < length (cell_vertices t)" for n
    proof (cases "cell_vertices t ! n")
      case None
      then have "Some n \<notin> set (full_cell_handles t)"
        using n by (simp add: Some_in_full_cell_handles cell_vertices_def)
      then show ?thesis using P n None by simp
    next
      case (Some vs)
      then have "Some n \<in> set (full_cell_handles t)"
        using n by (auto simp: Some_in_full_cell_handles cell_vertices_def)
      then show ?thesis using P n Some True by simp
    qed
    then show ?thesis using P parity_swaps_dcur[OF r] by simp
  qed
  then show "length (cell_vertices t') = length (cell_vertices t)" "dcur t' = dcur t"
    "\<And>n. n < length (cell_vertices t) \<Longrightarrow> cell_vertices t' ! n = map_option ?g (cell_vertices t ! n)"
    by simp_all
qed

lemma twin_vertices_nth:
  assumes "1 \<le> c" "c \<le> D"
  shows "length (twin_vertices D star c vs) = nat (D + 1)"
    and "twin_vertices D star c vs ! nat c = vs ! nat (c - 1)"
proof -
  show "length (twin_vertices D star c vs) = nat (D + 1)" by (simp add: twin_vertices_def)
  have "nat c < nat (D + 1)" using assms by simp
  moreover have "nat c - 1 = nat (c - 1)" using assms by simp
  ultimately show "twin_vertices D star c vs ! nat c = vs ! nat (c - 1)"
    using assms by (simp add: twin_vertices_def)
qed

lemma do_insert_increase_dimension_phases:
  assumes "do_insert_increase_dimension x star t = Inr t'"
  shows "\<exists>sm u1 u2 u3 u4.
      for_each (full_cell_handles t) (extend_full_cell x star (dcur t)) (None, t) = Inr (sm, u1)
    \<and> set_visited u1 (full_cells_begin t) False = Inr u2
    \<and> connect_walk star (dcur t) ([full_cells_begin t], u2) = Inr u3
    \<and> parity_correction x (dcur t) u3 = Inr u4
    \<and> ((sm = None \<and> t' = u4) \<or> (sm \<noteq> None \<and> swap_vertices u4 sm 1 2 = Inr t'))"
  using assms
  by (auto simp: do_insert_increase_dimension_def Let_def current_dimension_def
      split: prod.splits if_splits)

lemma do_insert_increase_dimension_cell_vertices:
  assumes r: "do_insert_increase_dimension x star t = Inr t'"
    and c: "1 \<le> dcur t" "dcur t \<le> dmax t" and sx: "star \<noteq> None" "star \<noteq> x"
    and fr0: "\<forall>n vs. n < length (cell_vertices t) \<and> cell_vertices t ! n = Some vs
               \<longrightarrow> nat (dcur t) < length vs \<and> vs ! nat (dcur t) = None"
    and nx0: "\<forall>n vs. n < length (cell_vertices t) \<and> cell_vertices t ! n = Some vs \<longrightarrow> x \<notin> set vs"
  shows "dcur t' = dcur t"
    and "length (cell_vertices t) \<le> length (cell_vertices t')"
    and "\<And>n. n < length (cell_vertices t) \<Longrightarrow> cell_vertices t ! n = None
           \<Longrightarrow> cell_vertices t' ! n = None"
    and "\<And>n vs. n < length (cell_vertices t) \<Longrightarrow> cell_vertices t ! n = Some vs
           \<Longrightarrow> cell_vertices t' ! n = Some (vs[nat (dcur t) := x])
               \<or> (dcur t = 2 \<and> star \<in> set vs
                   \<and> cell_vertices t' ! n = Some (swapped (vs[nat (dcur t) := x]) 1 2))"
    and "\<And>n. length (cell_vertices t) \<le> n \<Longrightarrow> n < length (cell_vertices t')
           \<Longrightarrow> \<exists>m vs. m < length (cell_vertices t) \<and> cell_vertices t ! m = Some vs \<and> star \<notin> set vs
                 \<and> cell_vertices t' ! n =
                     Some (if dcur t mod 2 = 0 \<and> dcur t > 1
                           then swapped (twin_vertices (dmax t) star (dcur t) vs)
                                  (nat (dcur t - 1)) (nat (dcur t))
                           else twin_vertices (dmax t) star (dcur t) vs)"
proof -
  let ?c = "dcur t"
  let ?L = "length (cell_vertices t)"
  have fr: "nat (dcur t) < length vs \<and> vs ! nat (dcur t) = None"
    if "n < length (cell_vertices t)" "cell_vertices t ! n = Some vs" for n vs
    using fr0[rule_format, of n vs] that by simp
  have nx: "x \<notin> set vs" if "n < length (cell_vertices t)" "cell_vertices t ! n = Some vs" for n vs
    using nx0[rule_format, of n vs] that by simp
  let ?f = "\<lambda>vs. vs[nat ?c := x]"
  let ?g = "\<lambda>vs. if ?c mod 2 = 0 \<and> ?c > 1 \<and> vs ! nat ?c \<noteq> x
                   then swapped vs (nat (?c - 1)) (nat ?c) else vs"
  let ?hs = "full_cell_handles t"
  from do_insert_increase_dimension_phases[OF r] obtain sm u1 u2 u3 u4 where
    p1: "for_each ?hs (extend_full_cell x star ?c) (None, t) = Inr (sm, u1)"
    and p2: "set_visited u1 (full_cells_begin t) False = Inr u2"
    and p3: "connect_walk star ?c ([full_cells_begin t], u2) = Inr u3"
    and p4: "parity_correction x ?c u3 = Inr u4"
    and p5: "(sm = None \<and> t' = u4) \<or> (sm \<noteq> None \<and> swap_vertices u4 sm 1 2 = Inr t')"
    by blast
  have hs: "Some n \<in> set ?hs \<longleftrightarrow> n < ?L \<and> cell_vertices t ! n \<noteq> None" for n
    by (auto simp: Some_in_full_cell_handles cell_vertices_def)
  have E: "dmax u1 = dmax t \<and> dcur u1 = dcur t \<and> ?L \<le> length (cell_vertices u1)
     \<and> (\<forall>n < ?L. cell_vertices u1 ! n =
           (if Some n \<in> set ?hs then map_option ?f (cell_vertices t ! n)
            else cell_vertices t ! n))
     \<and> (\<forall>n. ?L \<le> n \<and> n < length (cell_vertices u1) \<longrightarrow>
           (\<exists>m vs. Some m \<in> set ?hs \<and> cell_vertices t ! m = Some vs \<and> star \<notin> set vs
              \<and> cell_vertices u1 ! n = Some (twin_vertices (dmax t) star ?c vs)))
     \<and> (sm = None \<or> (?c = 2 \<and> (\<exists>n vs. sm = Some n \<and> Some n \<in> set ?hs
              \<and> cell_vertices t ! n = Some vs \<and> star \<in> set vs)))"
  proof (rule extend_full_cells_cell_vertices[OF p1 distinct_full_cell_handles c(1) sx])
    show "n < ?L" if "Some n \<in> set ?hs" for n using that hs by simp
    show "vs ! nat ?c = None" if "Some n \<in> set ?hs" "cell_vertices t ! n = Some vs" for n vs
      using fr[of n vs] that hs by simp
  qed
  then have E1: "dmax u1 = dmax t" "dcur u1 = dcur t" "?L \<le> length (cell_vertices u1)"
    and E2: "\<And>n. n < ?L \<Longrightarrow> cell_vertices u1 ! n =
           (if Some n \<in> set ?hs then map_option ?f (cell_vertices t ! n)
            else cell_vertices t ! n)"
    and E3: "\<And>n. ?L \<le> n \<Longrightarrow> n < length (cell_vertices u1) \<Longrightarrow>
           (\<exists>m vs. Some m \<in> set ?hs \<and> cell_vertices t ! m = Some vs \<and> star \<notin> set vs
              \<and> cell_vertices u1 ! n = Some (twin_vertices (dmax t) star ?c vs))"
    and E4: "sm = None \<or> (?c = 2 \<and> (\<exists>n vs. sm = Some n \<and> Some n \<in> set ?hs
              \<and> cell_vertices t ! n = Some vs \<and> star \<in> set vs))"
    by blast+
  have old1: "cell_vertices u1 ! n = map_option ?f (cell_vertices t ! n)" if "n < ?L" for n
    using E2[OF that] hs[of n] that by (cases "cell_vertices t ! n") simp_all
  have cv3: "cell_vertices u3 = cell_vertices u1" "dcur u3 = dcur t"
    using connect_walk_cell_vertices[OF p3] set_visited_cell_vertices(1,3)[OF p2] E1 by simp_all
  note P = parity_correction_cell_vertices[OF p4]
  have l4: "length (cell_vertices u4) = length (cell_vertices u1)" using P(1) cv3 by simp
  have d4: "dcur u4 = dcur t" using P(2) cv3 by simp
  have cv4: "cell_vertices u4 ! n = map_option ?g (cell_vertices u1 ! n)"
    if "n < length (cell_vertices u1)" for n using P(3)[of n] that cv3 by simp
  have old4n: "cell_vertices u4 ! n = None" if "n < ?L" "cell_vertices t ! n = None" for n
    using cv4[of n] old1[OF that(1)] that E1(3) by simp
  have old4: "cell_vertices u4 ! n = Some (?f vs)" if n: "n < ?L" "cell_vertices t ! n = Some vs" for n vs
  proof -
    have "nat ?c < length vs" using fr[OF n] by simp
    then have "?f vs ! nat ?c = x" by simp
    then have "?g (?f vs) = ?f vs" by simp
    then show ?thesis using cv4[of n] old1[OF n(1)] n E1(3) by simp
  qed
  have new4: "\<exists>m vs. m < ?L \<and> cell_vertices t ! m = Some vs \<and> star \<notin> set vs
                 \<and> cell_vertices u4 ! n =
                     Some (if ?c mod 2 = 0 \<and> ?c > 1
                           then swapped (twin_vertices (dmax t) star ?c vs) (nat (?c - 1)) (nat ?c)
                           else twin_vertices (dmax t) star ?c vs)"
    if n: "?L \<le> n" "n < length (cell_vertices u1)" for n
  proof -
    from E3[OF n] obtain m vs where m: "Some m \<in> set ?hs" "cell_vertices t ! m = Some vs"
      "star \<notin> set vs" "cell_vertices u1 ! n = Some (twin_vertices (dmax t) star ?c vs)" by blast
    have ml: "m < ?L" using m(1) hs by simp
    let ?tw = "twin_vertices (dmax t) star ?c vs"
    have cl: "nat ?c < length vs" using fr[OF ml m(2)] by simp
    have "nat (?c - 1) < length vs" using cl by simp
    then have "vs ! nat (?c - 1) \<in> set vs" by (rule nth_mem)
    then have "vs ! nat (?c - 1) \<noteq> x" using nx[OF ml m(2)] by auto
    then have "?tw ! nat ?c \<noteq> x" using twin_vertices_nth(2)[OF c, of star vs] by simp
    then have "?g ?tw = (if ?c mod 2 = 0 \<and> ?c > 1 then swapped ?tw (nat (?c - 1)) (nat ?c) else ?tw)"
      by simp
    then have "cell_vertices u4 ! n = Some (if ?c mod 2 = 0 \<and> ?c > 1
                  then swapped ?tw (nat (?c - 1)) (nat ?c) else ?tw)"
      using cv4[OF n(2)] m(4) by simp
    then show ?thesis using ml m(2,3) by blast
  qed
  show "dcur t' = dcur t" "length (cell_vertices t) \<le> length (cell_vertices t')"
    "\<And>n. n < ?L \<Longrightarrow> cell_vertices t ! n = None \<Longrightarrow> cell_vertices t' ! n = None"
    "\<And>n vs. n < ?L \<Longrightarrow> cell_vertices t ! n = Some vs
           \<Longrightarrow> cell_vertices t' ! n = Some (?f vs)
               \<or> (?c = 2 \<and> star \<in> set vs \<and> cell_vertices t' ! n = Some (swapped (?f vs) 1 2))"
    "\<And>n. ?L \<le> n \<Longrightarrow> n < length (cell_vertices t')
           \<Longrightarrow> \<exists>m vs. m < ?L \<and> cell_vertices t ! m = Some vs \<and> star \<notin> set vs
                 \<and> cell_vertices t' ! n =
                     Some (if ?c mod 2 = 0 \<and> ?c > 1
                           then swapped (twin_vertices (dmax t) star ?c vs) (nat (?c - 1)) (nat ?c)
                           else twin_vertices (dmax t) star ?c vs)"
  proof -
    show goal1: "dcur t' = dcur t"
      using p5 d4 swap_vertices_dcur[of u4 sm 1 2 t'] by auto
    consider (plain) "sm = None" "t' = u4" | (swap) "sm \<noteq> None" "swap_vertices u4 sm 1 2 = Inr t'"
      using p5 by blast
    then have "length (cell_vertices t') = length (cell_vertices u1)
       \<and> (\<forall>n < length (cell_vertices u1). cell_vertices t' ! n = cell_vertices u4 ! n
            \<or> (n < ?L \<and> ?c = 2 \<and> (\<exists>vs. cell_vertices t ! n = Some vs \<and> star \<in> set vs
                 \<and> cell_vertices t' ! n = Some (swapped (?f vs) 1 2))))"
    proof cases
      case plain
      then show ?thesis using l4 by simp
    next
      case swap
      from E4 swap(1) obtain k vsk where k: "?c = 2" "sm = Some k" "Some k \<in> set ?hs"
        "cell_vertices t ! k = Some vsk" "star \<in> set vsk" by blast
      have kl: "k < ?L" using k(3) hs by simp
      from swap_vertices_cell_vertices[OF swap(2)] obtain cellk where
        ck: "k < length (full_cells u4)" "full_cells u4 ! k = Some cellk"
        and cv': "cell_vertices t' = (cell_vertices u4)[k := Some (swapped (fc_vertices cellk) (nat 1) (nat 2))]"
        using k(2) by auto
      have "cell_vertices u4 ! k = Some (fc_vertices cellk)" using ck by (simp add: cell_vertices_def)
      then have fk: "fc_vertices cellk = ?f vsk" using old4[OF kl k(4)] by simp
      have cv'': "cell_vertices t' = (cell_vertices u4)[k := Some (swapped (?f vsk) 1 2)]"
        using cv' fk by simp
      have "cell_vertices t' ! n = cell_vertices u4 ! n
            \<or> (n < ?L \<and> ?c = 2 \<and> (\<exists>vs. cell_vertices t ! n = Some vs \<and> star \<in> set vs
                 \<and> cell_vertices t' ! n = Some (swapped (?f vs) 1 2)))"
        if "n < length (cell_vertices u1)" for n
      proof (cases "n = k")
        case True
        have "cell_vertices t' ! k = Some (swapped (?f vsk) 1 2)"
          using kl E1(3) l4 by (simp add: cv'')
        then show ?thesis using True kl k by blast
      next
        case False
        then show ?thesis by (simp add: cv'')
      qed
      then show ?thesis using l4 by (simp add: cv'')
    qed
    then have l': "length (cell_vertices t') = length (cell_vertices u1)"
      and F: "\<And>n. n < length (cell_vertices u1) \<Longrightarrow> cell_vertices t' ! n = cell_vertices u4 ! n
            \<or> (n < ?L \<and> ?c = 2 \<and> (\<exists>vs. cell_vertices t ! n = Some vs \<and> star \<in> set vs
                 \<and> cell_vertices t' ! n = Some (swapped (?f vs) 1 2)))"
      by blast+
    show "?L \<le> length (cell_vertices t')" using l' E1(3) by simp
    show "cell_vertices t' ! n = None" if "n < ?L" "cell_vertices t ! n = None" for n
    proof -
      have "n < length (cell_vertices u1)" using that(1) E1(3) by simp
      from F[OF this] show ?thesis using old4n[OF that] that(2) by auto
    qed
    show "cell_vertices t' ! n = Some (?f vs)
               \<or> (?c = 2 \<and> star \<in> set vs \<and> cell_vertices t' ! n = Some (swapped (?f vs) 1 2))"
      if "n < ?L" "cell_vertices t ! n = Some vs" for n vs
    proof -
      have "n < length (cell_vertices u1)" using that(1) E1(3) by simp
      from F[OF this] show ?thesis using old4[OF that] that(2) by auto
    qed
    show "\<exists>m vs. m < ?L \<and> cell_vertices t ! m = Some vs \<and> star \<notin> set vs
                 \<and> cell_vertices t' ! n =
                     Some (if ?c mod 2 = 0 \<and> ?c > 1
                           then swapped (twin_vertices (dmax t) star ?c vs) (nat (?c - 1)) (nat ?c)
                           else twin_vertices (dmax t) star ?c vs)"
      if "?L \<le> n" "n < length (cell_vertices t')" for n
    proof -
      have n1: "n < length (cell_vertices u1)" using that(2) l' by simp
      have "cell_vertices t' ! n = cell_vertices u4 ! n" using F[OF n1] that(1) by auto
      then show ?thesis using new4[OF that(1) n1] by simp
    qed
  qed
qed

lemma insert_increase_dimension_default:
  assumes "insert_increase_dimension star t = Inr (x, t')" "0 \<le> dcur t"
  shows "dcur t < dmax t" "is_vertex t star" "x = Some (length (vertices t))"
    and "do_insert_increase_dimension x star
           (t\<lparr>dcur := dcur t + 1, vertices := vertices t @ [Some \<lparr> v_full_cell = None \<rparr>]\<rparr>) = Inr t'"
  using assms
  by (auto simp: insert_increase_dimension_def Let_def set_current_dimension_def new_vertex_def
      current_dimension_def ambient_dimension_def split: if_splits)

text \<open>
  C4, amended: when \<open>insert_increase_dimension(star)\<close> has raised the current dimension from
  \<open>d \<ge> 0\<close> to \<open>d + 1\<close>, in a triangulation whose full cells have slot \<open>d + 1\<close> empty and hold
  only vertices of the triangulation, then with \<open>x\<close> the new vertex: every full cell that
  was there before has its vertices as before and \<open>x\<close> in slot \<open>d + 1\<close>, so the parity loop
  has not touched it (when \<open>d + 1 = 2\<close>, one cell that contains \<open>star\<close> may in addition have
  slots 1 and 2 exchanged, by the last statement of the function); every new full cell is
  the twin of a cell \<open>S\<close> without \<open>star\<close>, with \<open>star\<close> in slot 0 and vertex \<open>k - 1\<close> of \<open>S\<close> in
  slot \<open>k\<close>, and its slots \<open>d\<close> and \<open>d + 1\<close> are exchanged exactly when \<open>d + 1\<close> is even and at
  least 2.  The loop is guarded by the new dimension, and the cells it changes are the
  twins, which contain \<open>star\<close>.
\<close>

theorem insert_increase_dimension_parity:
  assumes "0 \<le> current_dimension t" "last_slot_free t" "cells_hold_vertices t"
    and "insert_increase_dimension star t = Inr (x, t')"
  shows "x = fst (new_vertex t) \<and> current_dimension t' = current_dimension t + 1
     \<and> (\<forall>s vs. vertices_of t s = Inr vs \<longrightarrow>
          vertices_of t' s = Inr (vs[nat (current_dimension t + 1) := x])
          \<or> (current_dimension t + 1 = 2 \<and> star \<in> set vs
              \<and> vertices_of t' s = Inr (swapped (vs[nat (current_dimension t + 1) := x]) 1 2)))
     \<and> (\<forall>s. is_full_cell t' s \<and> \<not> is_full_cell t s \<longrightarrow>
          (\<exists>S vs. vertices_of t S = Inr vs \<and> star \<notin> set vs
             \<and> vertices_of t' s = Inr
                 (if (current_dimension t + 1) mod 2 = 0 \<and> 2 \<le> current_dimension t + 1
                  then swapped (twin_vertices (ambient_dimension t) star (current_dimension t + 1) vs)
                         (nat (current_dimension t)) (nat (current_dimension t + 1))
                  else twin_vertices (ambient_dimension t) star (current_dimension t + 1) vs)))"
proof -
  let ?d = "dcur t"
  let ?c = "dcur t + 1"
  define t2 where "t2 = t\<lparr>dcur := dcur t + 1, vertices := vertices t @ [Some \<lparr> v_full_cell = None \<rparr>]\<rparr>"
  have d0: "0 \<le> ?d" using assms(1) by (simp add: current_dimension_def)
  note D = insert_increase_dimension_default[OF assms(4) d0]
  have r: "do_insert_increase_dimension x star t2 = Inr t'" using D(4) by (simp add: t2_def)
  have t2: "dcur t2 = ?c" "dmax t2 = dmax t" "cell_vertices t2 = cell_vertices t"
    by (simp_all add: t2_def cell_vertices_def)
  let ?L = "length (cell_vertices t)"
  have xs: "\<not> is_vertex t x" "x \<noteq> None" by (simp_all add: D(3) is_vertex_def)
  have sx: "star \<noteq> None" "star \<noteq> x"
  proof -
    show "star \<noteq> None" using D(2) by (cases star) (simp_all add: is_vertex_def)
    show "star \<noteq> x" using D(2) xs(1) by auto
  qed
  have cell: "\<exists>c. Some c \<in> set (full_cells t) \<and> fc_vertices c = vs"
    if "n < ?L" "cell_vertices t ! n = Some vs" for n vs
  proof -
    from cell_vertices_get_cell[OF that] obtain c where "get_cell t (Some n) = Inr c" "fc_vertices c = vs"
      by blast
    then obtain k where "k < length (full_cells t)" "full_cells t ! k = Some c"
      unfolding get_cell_Inr by blast
    then have "Some c \<in> set (full_cells t)" by (metis nth_mem)
    then show ?thesis using \<open>fc_vertices c = vs\<close> by blast
  qed
  have fr: "nat ?c < length vs \<and> vs ! nat ?c = None"
    if n: "n < ?L" "cell_vertices t ! n = Some vs" for n vs
  proof -
    from cell[OF n] obtain c where c: "Some c \<in> set (full_cells t)" "fc_vertices c = vs" by blast
    have "case Some c of None \<Rightarrow> True | Some c \<Rightarrow> fc_vertex c (current_dimension t + 1) = Inr None"
      using assms(2) c(1) unfolding last_slot_free_def by (rule bspec)
    then have "slot_get vs ?c = Inr None"
      by (simp add: fc_vertex_def c(2) current_dimension_def)
    then have a: "?c < int (length vs)" "vs ! nat ?c = None" unfolding slot_get_Inr by simp_all
    have "nat ?c < length vs" using a(1) d0 by linarith
    then show ?thesis using a(2) by simp
  qed
  have nx: "x \<notin> set vs" if n: "n < ?L" "cell_vertices t ! n = Some vs" for n vs
  proof
    assume a: "x \<in> set vs"
    from cell[OF n] obtain c where c: "Some c \<in> set (full_cells t)" "fc_vertices c = vs" by blast
    have "case Some c of None \<Rightarrow> True | Some c \<Rightarrow> (\<forall>v \<in> set (fc_vertices c). v = None \<or> is_vertex t v)"
      using assms(3) c(1) unfolding cells_hold_vertices_def by (rule bspec)
    then have "\<forall>v \<in> set vs. v = None \<or> is_vertex t v" by (simp add: c(2))
    then have "x = None \<or> is_vertex t x" using a by (rule bspec)
    then show False using xs by simp
  qed
  have c1: "1 \<le> dcur t2" "dcur t2 \<le> dmax t2" using d0 D(1) by (simp_all add: t2)
  have fr2: "\<forall>n vs. n < length (cell_vertices t2) \<and> cell_vertices t2 ! n = Some vs
               \<longrightarrow> nat (dcur t2) < length vs \<and> vs ! nat (dcur t2) = None"
    unfolding t2 using fr by blast
  have nx2: "\<forall>n vs. n < length (cell_vertices t2) \<and> cell_vertices t2 ! n = Some vs \<longrightarrow> x \<notin> set vs"
    unfolding t2 using nx by blast
  note R = do_insert_increase_dimension_cell_vertices[OF r c1 sx fr2 nx2, unfolded t2]
  have 1: "x = fst (new_vertex t)" by (simp add: D(3) new_vertex_def)
  have 2: "current_dimension t' = current_dimension t + 1" using R(1) by (simp add: current_dimension_def)
  have 3: "vertices_of t' s = Inr (vs[nat ?c := x])
          \<or> (?c = 2 \<and> star \<in> set vs \<and> vertices_of t' s = Inr (swapped (vs[nat ?c := x]) 1 2))"
    if v: "vertices_of t s = Inr vs" for s vs
  proof -
    from v obtain cs where "get_cell t s = Inr cs" "fc_vertices cs = vs"
      by (auto simp: vertices_of_def)
    from get_cell_vertices[OF this(1)] this(2) obtain n where n: "s = Some n" "n < ?L"
      "cell_vertices t ! n = Some vs" by auto
    have nl: "n < length (cell_vertices t')" using n(2) R(2) by simp
    from R(4)[OF n(2,3)] show ?thesis
      using nl by (auto simp: n(1) vertices_of_cell_vertices)
  qed
  have 4: "\<exists>S vs. vertices_of t S = Inr vs \<and> star \<notin> set vs
             \<and> vertices_of t' s = Inr
                 (if ?c mod 2 = 0 \<and> 2 \<le> ?c
                  then swapped (twin_vertices (dmax t) star ?c vs) (nat ?d) (nat ?c)
                  else twin_vertices (dmax t) star ?c vs)"
    if s: "is_full_cell t' s" "\<not> is_full_cell t s" for s
  proof -
    from s(1) obtain n where n: "s = Some n" "n < length (cell_vertices t')"
      "cell_vertices t' ! n \<noteq> None"
      by (cases s) (auto simp: is_full_cell_def cell_vertices_def)
    have nL: "?L \<le> n"
    proof (rule ccontr)
      assume "\<not> ?L \<le> n"
      then have l: "n < ?L" by simp
      have "cell_vertices t ! n = None" using s(2) l by (simp add: n(1) is_full_cell_cell_vertices)
      from R(3)[OF l this] show False using n(3) by simp
    qed
    from R(5)[OF nL n(2)] obtain m vs where m: "m < ?L" "cell_vertices t ! m = Some vs" "star \<notin> set vs"
      and e: "cell_vertices t' ! n =
                Some (if ?c mod 2 = 0 \<and> ?c > 1
                      then swapped (twin_vertices (dmax t) star ?c vs) (nat (?c - 1)) (nat ?c)
                      else twin_vertices (dmax t) star ?c vs)" by blast
    have "vertices_of t (Some m) = Inr vs" using m(1,2) by (simp add: vertices_of_cell_vertices)
    moreover have "vertices_of t' s = Inr
                 (if ?c mod 2 = 0 \<and> 2 \<le> ?c
                  then swapped (twin_vertices (dmax t) star ?c vs) (nat ?d) (nat ?c)
                  else twin_vertices (dmax t) star ?c vs)"
      using e n(2) by (auto simp: n(1) vertices_of_cell_vertices)
    ultimately show ?thesis using m(3) by blast
  qed
  have big: "x = fst (new_vertex t) \<and> dcur t' = ?c
     \<and> (\<forall>s vs. vertices_of t s = Inr vs \<longrightarrow>
          vertices_of t' s = Inr (vs[nat ?c := x])
          \<or> (?c = 2 \<and> star \<in> set vs \<and> vertices_of t' s = Inr (swapped (vs[nat ?c := x]) 1 2)))
     \<and> (\<forall>s. is_full_cell t' s \<and> \<not> is_full_cell t s \<longrightarrow>
          (\<exists>S vs. vertices_of t S = Inr vs \<and> star \<notin> set vs
             \<and> vertices_of t' s = Inr
                 (if ?c mod 2 = 0 \<and> 2 \<le> ?c
                  then swapped (twin_vertices (dmax t) star ?c vs) (nat ?d) (nat ?c)
                  else twin_vertices (dmax t) star ?c vs)))"
  proof (intro conjI allI impI)
    show "x = fst (new_vertex t)" using 1 .
    show "dcur t' = ?c" using 2 by (simp add: current_dimension_def)
  next
    fix s vs assume "vertices_of t s = Inr vs"
    then show "vertices_of t' s = Inr (vs[nat ?c := x])
          \<or> (?c = 2 \<and> star \<in> set vs \<and> vertices_of t' s = Inr (swapped (vs[nat ?c := x]) 1 2))"
      by (rule 3)
  next
    fix s assume "is_full_cell t' s \<and> \<not> is_full_cell t s"
    then have "is_full_cell t' s" "\<not> is_full_cell t s" by simp_all
    then show "\<exists>S vs. vertices_of t S = Inr vs \<and> star \<notin> set vs
             \<and> vertices_of t' s = Inr
                 (if ?c mod 2 = 0 \<and> 2 \<le> ?c
                  then swapped (twin_vertices (dmax t) star ?c vs) (nat ?d) (nat ?c)
                  else twin_vertices (dmax t) star ?c vs)"
      by (rule 4)
  qed
  show ?thesis unfolding current_dimension_def ambient_dimension_def by (rule big)
qed

theorem insert_increase_dimension_parity_witness:
  "0 \<le> current_dimension segment_tds \<and> last_slot_free segment_tds
   \<and> cells_hold_vertices segment_tds
   \<and> insert_increase_dimension (Some 0) segment_tds = Inr (Some 3, triangle_tds)
   \<and> current_dimension segment_tds = 1 \<and> current_dimension triangle_tds = 2
   \<and> vertices_of segment_tds (Some 1) = Inr [Some 1, Some 2, None]
   \<and> vertices_of triangle_tds (Some 1) = Inr [Some 1, Some 2, Some 3]
   \<and> twin_vertices 2 (Some 0) 2 [Some 1, Some 2, None] = [Some 0, Some 1, Some 2]
   \<and> vertices_of triangle_tds (Some 3) = Inr [Some 0, Some 2, Some 1]"
proof -
  have h: "0 \<le> current_dimension segment_tds" "last_slot_free segment_tds"
    "cells_hold_vertices segment_tds"
    "insert_increase_dimension (Some 0) segment_tds = Inr (Some 3, triangle_tds)"
    by code_simp+
  have v: "vertices_of segment_tds (Some 1) = Inr [Some 1, Some 2, None]"
    "current_dimension segment_tds = 1"
    "twin_vertices 2 (Some 0) 2 [Some 1, Some 2, None] = [Some 0, Some 1, Some 2]"
    "vertices_of triangle_tds (Some 3) = Inr [Some 0, Some 2, Some 1]"
    by code_simp+
  note T = insert_increase_dimension_parity [OF h]
  have "current_dimension triangle_tds = 2" using T v(2) by simp
  moreover have "vertices_of triangle_tds (Some 1) = Inr [Some 1, Some 2, Some 3]"
  proof -
    from T have "\<forall>s vs. vertices_of segment_tds s = Inr vs \<longrightarrow>
          vertices_of triangle_tds s = Inr (vs[nat (current_dimension segment_tds + 1) := Some 3])
          \<or> (current_dimension segment_tds + 1 = 2 \<and> Some 0 \<in> set vs
              \<and> vertices_of triangle_tds s
                  = Inr (swapped (vs[nat (current_dimension segment_tds + 1) := Some 3]) 1 2))"
      by blast
    from this[rule_format, OF v(1)] show ?thesis by (simp add: v(2))
  qed
  ultimately show ?thesis using h v by simp
qed

end
